(* ===== verification/Prelude.thy ===== *)
theory Prelude
  imports Main "HOL-Library.Word"
begin

text \<open>
  Shared vocabulary of the development: C strings and the pieces of the C library the sources
  use on them, the halving search loop that several sources contain, and the interface of a
  key comparison function under which that loop is a correct search.

  A C string is a \<open>string\<close> (a list of \<open>char\<close>) without its terminating NUL; \<open>nul_free\<close> says
  that no NUL byte is inside it, which holds for every C string. The byte behind a \<open>char\<close> is
  \<open>uchar\<close>, the value of the C expression \<open>(unsigned char)c\<close>.
\<close>

section \<open>Collections of facts\<close>

named_theorems cstring_simps \<open>evaluation of the C string functions\<close>
named_theorems keycmp_intros \<open>facts about key comparison functions\<close>

section \<open>Characters and C strings\<close>

type_synonym cstring = string

definition uchar :: "char \<Rightarrow> int" where
  "uchar c = int (of_char c)"

definition nul_free :: "cstring \<Rightarrow> bool" where
  "nul_free s = (\<forall>c \<in> set s. uchar c \<noteq> 0)"

definition isdigit :: "char \<Rightarrow> bool" where
  "isdigit c = (48 \<le> uchar c \<and> uchar c \<le> 57)"

definition isspace :: "char \<Rightarrow> bool" where
  "isspace c = (uchar c = 32 \<or> (9 \<le> uchar c \<and> uchar c \<le> 13))"

text \<open>The test \<open>isdigit(*s)\<close> on a C string: the first byte of an empty string is NUL.\<close>

definition starts_digit :: "cstring \<Rightarrow> bool" where
  "starts_digit s = (case s of [] \<Rightarrow> False | c # _ \<Rightarrow> isdigit c)"

lemma uchar_nonneg [simp]: "0 \<le> uchar c"
  by (simp add: uchar_def)

lemma uchar_inject [simp]: "uchar c = uchar d \<longleftrightarrow> c = d"
  by (simp add: uchar_def)

lemma nul_free_Nil [simp]: "nul_free []"
  by (simp add: nul_free_def)

lemma nul_free_Cons [simp]: "nul_free (c # s) \<longleftrightarrow> 0 < uchar c \<and> nul_free s"
  using uchar_nonneg [of c] by (auto simp: nul_free_def simp del: uchar_nonneg)

lemma nul_free_append [simp]: "nul_free (s @ t) \<longleftrightarrow> nul_free s \<and> nul_free t"
  by (auto simp: nul_free_def)

lemma nul_free_subset: "nul_free s \<Longrightarrow> set t \<subseteq> set s \<Longrightarrow> nul_free t"
  by (auto simp: nul_free_def)

lemma nul_free_take [simp]: "nul_free s \<Longrightarrow> nul_free (take n s)"
  by (auto simp: nul_free_def dest: in_set_takeD)

text \<open>\<open>strcmp\<close>: the difference of the first bytes that differ, NUL at the end.\<close>

fun strcmp :: "cstring \<Rightarrow> cstring \<Rightarrow> int" where
  "strcmp [] [] = 0"
| "strcmp [] (d # ds) = - uchar d"
| "strcmp (c # cs) [] = uchar c"
| "strcmp (c # cs) (d # ds) = (if c = d then strcmp cs ds else uchar c - uchar d)"

lemma strcmp_eq: "nul_free a \<Longrightarrow> nul_free b \<Longrightarrow> strcmp a b = 0 \<longleftrightarrow> a = b"
  by (induction a b rule: strcmp.induct) auto

text \<open>\<open>strncmp\<close> on strings of which at most \<open>n\<close> bytes are read.\<close>

fun strncmp :: "nat \<Rightarrow> cstring \<Rightarrow> cstring \<Rightarrow> int" where
  "strncmp 0 a b = 0"
| "strncmp (Suc n) [] [] = 0"
| "strncmp (Suc n) [] (d # ds) = - uchar d"
| "strncmp (Suc n) (c # cs) [] = uchar c"
| "strncmp (Suc n) (c # cs) (d # ds) =
     (if c \<noteq> d then uchar c - uchar d else if uchar c = 0 then 0 else strncmp n cs ds)"

lemma strncmp_strcmp: "nul_free a \<Longrightarrow> length a \<le> n \<Longrightarrow> length b \<le> n \<Longrightarrow> strncmp n a b = strcmp a b"
  by (induction n a b rule: strncmp.induct) (auto simp: not_less_eq_eq)

lemma signed_small:
  assumes "\<bar>x\<bar> < 2 ^ 31"
  shows "signed_take_bit 31 (x::int) = x"
  using assms by (intro signed_take_bit_int_eq_self) auto

text \<open>
  \<open>strtol(s, &e, 10)\<close>: leading white space, an optional sign, then digits. The result is the
  value, saturated to 64 bits as \<open>long\<close> is on the supported platforms, the rest \<open>e\<close> of the
  string (all of \<open>s\<close> when there is no digit) and whether \<open>errno\<close> became \<open>ERANGE\<close>.
\<close>

fun digits_value :: "int \<Rightarrow> cstring \<Rightarrow> int" where
  "digits_value acc [] = acc"
| "digits_value acc (c # cs) =
     (if isdigit c then digits_value (10 * acc + (uchar c - 48)) cs else acc)"

definition long_max :: int where
  "long_max = 9223372036854775807"

definition strtol10 :: "cstring \<Rightarrow> int \<times> cstring \<times> bool" where
  "strtol10 s =
     (let t = dropWhile isspace s;
          neg = (case t of c # _ \<Rightarrow> c = CHR ''-'' | [] \<Rightarrow> False);
          u = (case t of c # cs \<Rightarrow> (if c = CHR ''-'' \<or> c = CHR ''+'' then cs else t) | [] \<Rightarrow> []);
          v = (if neg then - digits_value 0 u else digits_value 0 u)
      in if \<not> starts_digit u then (0, s, False)
         else if v > long_max then (long_max, dropWhile isdigit u, True)
         else if v < - long_max - 1 then (- long_max - 1, dropWhile isdigit u, True)
         else (v, dropWhile isdigit u, False))"

text \<open>\<open>atoi(s)\<close> is \<open>(int)strtol(s, NULL, 10)\<close>; the cast keeps the low 32 bits.\<close>

definition atoi :: "cstring \<Rightarrow> int" where
  "atoi s = signed_take_bit 31 (fst (strtol10 s))"

lemmas atoi_simps [cstring_simps] =
  atoi_def strtol10_def long_max_def starts_digit_def isdigit_def isspace_def uchar_def

text \<open>The text of a number under the format \<open>%d\<close>.\<close>

fun dec_string :: "nat \<Rightarrow> cstring" where
  "dec_string n = (if n < 10 then [char_of (48 + n)] else dec_string (n div 10) @ [char_of (48 + n mod 10)])"

declare dec_string.simps [simp del]

section \<open>Lists with distinct keys\<close>

lemma find_by_key:
  "distinct (map f xs) \<Longrightarrow> x \<in> set xs \<Longrightarrow> find (\<lambda>y. f y = f x) xs = Some x"
  by (induction xs) auto

section \<open>The halving search loop\<close>

text \<open>
  The loop that \<open>node_search\<close> and \<open>node_insert\<close> (\<open>vtree/lib/bconf.c\<close>) and
  \<open>replace_chars_utf8\<close> (\<open>util/lib/string_functions.c\<close>) contain: \<open>no\<close> is the first element to
  search, \<open>ns\<close> the number of elements to search, \<open>cmp i\<close> the comparison of element \<open>i\<close> with the
  key. It ends at an equal element or at the slot \<open>no\<close> when no element is left.
\<close>

datatype bs_result = Found nat | Slot nat

function bsearch :: "(nat \<Rightarrow> int) \<Rightarrow> nat \<Rightarrow> nat \<Rightarrow> bs_result" where
  "bsearch cmp no ns =
     (if ns = 0 then Slot no
      else
        let even = (if ns mod 2 = 0 then 1 else 0);
            ns' = ns div 2;
            i = no + ns';
            res = cmp i
        in if res = 0 then Found i
           else if 0 < res then bsearch cmp no ns'
           else bsearch cmp (no + ns' + 1) (ns' - even))"
  by pat_completeness auto
termination
  by (relation "measure (\<lambda>(cmp, no, ns). ns)") auto

declare bsearch.simps [simp del]

lemma bsearch_0 [simp]: "bsearch cmp no 0 = Slot no"
  by (simp add: bsearch.simps)

lemma bsearch_Found:
  "bsearch cmp no ns = Found i \<Longrightarrow> cmp i = 0 \<and> no \<le> i \<and> i < no + ns"
proof (induction cmp no ns rule: bsearch.induct)
  case (1 cmp no ns)
  let ?h = "ns div 2" and ?e = "if ns mod 2 = 0 then 1 else 0 :: nat"
  show ?case
  proof (cases "ns = 0 \<or> cmp (no + ?h) = 0")
    case True
    with "1.prems" show ?thesis by (subst (asm) bsearch.simps) (auto simp: Let_def split: if_splits)
  next
    case False
    show ?thesis
    proof (cases "0 < cmp (no + ?h)")
      case True
      with False "1.prems" "1.IH"(1) show ?thesis
        by (subst (asm) bsearch.simps) (fastforce simp: Let_def)
    next
      case gt: False
      from gt False "1.prems" have "bsearch cmp (no + ?h + 1) (?h - ?e) = Found i"
        by (subst (asm) bsearch.simps) (simp add: Let_def)
      with gt False "1.IH"(2) have "cmp i = 0 \<and> no + ?h + 1 \<le> i \<and> i < no + ?h + 1 + (?h - ?e)"
        by simp
      moreover have "?h + 1 + (?h - ?e) \<le> ns" using False by (auto split: if_splits) presburger+
      ultimately show ?thesis by linarith
    qed
  qed
qed

lemma bsearch_cong:
  "(\<And>i. no \<le> i \<Longrightarrow> i < no + ns \<Longrightarrow> f i = g i) \<Longrightarrow> bsearch f no ns = bsearch g no ns"
proof (induction f no ns rule: bsearch.induct)
  case (1 f no ns)
  let ?h = "ns div 2" and ?e = "if ns mod 2 = 0 then 1 else 0 :: nat"
  show ?case
  proof (cases "ns = 0")
    case pos: False
    have len: "?h + 1 + (?h - ?e) = ns" using pos by (auto split: if_splits) presburger+
    have eq: "f (no + ?h) = g (no + ?h)" using "1.prems" pos by simp
    have lo: "bsearch f no ?h = bsearch g no ?h" if "0 < f (no + ?h)"
      using "1.IH"(1) [OF pos refl refl refl refl _ that] that "1.prems" len by simp
    have hi: "bsearch f (no + ?h + 1) (?h - ?e) = bsearch g (no + ?h + 1) (?h - ?e)"
      if "f (no + ?h) \<noteq> 0" "\<not> 0 < f (no + ?h)"
    proof (rule "1.IH"(2) [OF pos refl refl refl refl that])
      fix i
      assume "no + ?h + 1 \<le> i" "i < no + ?h + 1 + (?h - ?e)"
      then have "no \<le> i" "i < no + ns" using len by linarith+
      then show "f i = g i" by (rule "1.prems")
    qed
    from eq lo hi show ?thesis
      by (subst (1 2) bsearch.simps) (simp add: Let_def)
  qed simp
qed

text \<open>
  The search is exact when the signs of \<open>cmp\<close> over the searched range are first negative, then
  at most one zero, then positive.
\<close>

definition sign_sorted :: "(nat \<Rightarrow> int) \<Rightarrow> nat \<Rightarrow> nat \<Rightarrow> bool" where
  "sign_sorted cmp no ns =
     (\<forall>i j. no \<le> i \<and> i < j \<and> j < no + ns \<longrightarrow> (cmp j \<le> 0 \<longrightarrow> cmp i < 0) \<and> (0 \<le> cmp i \<longrightarrow> 0 < cmp j))"

lemma sign_sorted_mono:
  assumes "sign_sorted cmp no ns" "no \<le> no'" "no' + ns' \<le> no + ns"
  shows "sign_sorted cmp no' ns'"
  unfolding sign_sorted_def
proof (intro allI impI)
  fix i j
  assume "no' \<le> i \<and> i < j \<and> j < no' + ns'"
  with assms(2,3) have "no \<le> i \<and> i < j \<and> j < no + ns" by linarith
  with assms(1) show "(cmp j \<le> 0 \<longrightarrow> cmp i < 0) \<and> (0 \<le> cmp i \<longrightarrow> 0 < cmp j)"
    unfolding sign_sorted_def by blast
qed

lemma bsearch_Slot:
  "bsearch cmp no ns = Slot p \<Longrightarrow> sign_sorted cmp no ns \<Longrightarrow>
     no \<le> p \<and> p \<le> no + ns \<and> (\<forall>i. no \<le> i \<and> i < p \<longrightarrow> cmp i < 0) \<and>
     (\<forall>i. p \<le> i \<and> i < no + ns \<longrightarrow> 0 < cmp i)"
proof (induction cmp no ns rule: bsearch.induct)
  case (1 cmp no ns)
  let ?h = "ns div 2" and ?e = "if ns mod 2 = 0 then 1 else 0 :: nat"
  show ?case
  proof (cases "ns = 0")
    case True
    with "1.prems" show ?thesis by simp
  next
    case pos: False
    with "1.prems" have nz: "cmp (no + ?h) \<noteq> 0"
      by (subst (asm) bsearch.simps) (auto simp: Let_def split: if_splits)
    have hl: "?h < ns" using pos by simp
    show ?thesis
    proof (cases "0 < cmp (no + ?h)")
      case True
      from True pos "1.prems"(1) have rec: "bsearch cmp no ?h = Slot p"
        by (subst (asm) bsearch.simps) (simp add: Let_def)
      have ss: "sign_sorted cmp no ?h"
        by (rule sign_sorted_mono [OF "1.prems"(2)]) (use hl in auto)
      have up: "0 < cmp i" if "no + ?h < i" "i < no + ns" for i
        using "1.prems"(2) that True unfolding sign_sorted_def
        by (metis le_add1 less_imp_le)
      from "1.IH"(1) [OF pos refl refl refl refl nz True rec ss]
      have ih: "no \<le> p" "p \<le> no + ?h" "\<And>i. no \<le> i \<Longrightarrow> i < p \<Longrightarrow> cmp i < 0"
        "\<And>i. p \<le> i \<Longrightarrow> i < no + ?h \<Longrightarrow> 0 < cmp i"
        by blast+
      have "0 < cmp i" if "p \<le> i" "i < no + ns" for i
        using up [of i] True ih(4) [of i] that by (cases "i < no + ?h"; cases "i = no + ?h") auto
      with ih hl show ?thesis by auto
    next
      case False
      with nz have neg: "cmp (no + ?h) < 0" by simp
      from False nz pos "1.prems"(1) have rec: "bsearch cmp (no + ?h + 1) (?h - ?e) = Slot p"
        by (subst (asm) bsearch.simps) (simp add: Let_def)
      have len: "?h + 1 + (?h - ?e) = ns" using pos by (auto split: if_splits) presburger+
      have ss: "sign_sorted cmp (no + ?h + 1) (?h - ?e)"
        by (rule sign_sorted_mono [OF "1.prems"(2)]) (use len in auto)
      have dn: "cmp i < 0" if "no \<le> i" "i < no + ?h" for i
        using "1.prems"(2) that neg hl unfolding sign_sorted_def
        by (metis add_less_cancel_left less_imp_le)
      from "1.IH"(2) [OF pos refl refl refl refl nz False rec ss]
      have ih: "no + ?h + 1 \<le> p" "p \<le> no + ?h + 1 + (?h - ?e)"
        "\<And>i. no + ?h + 1 \<le> i \<Longrightarrow> i < p \<Longrightarrow> cmp i < 0"
        "\<And>i. p \<le> i \<Longrightarrow> i < no + ?h + 1 + (?h - ?e) \<Longrightarrow> 0 < cmp i"
        by blast+
      have "cmp i < 0" if "no \<le> i" "i < p" for i
        using dn [OF that(1)] neg ih(3) [of i] that(2) by (cases "i < no + ?h"; cases "i = no + ?h") auto
      with ih len show ?thesis by (auto simp: add.assoc)
    qed
  qed
qed

section \<open>The interface of a key comparison\<close>

text \<open>
  What a sorted array relies on: the comparison \<open>cmp\<close> of an element's key with the key searched
  for is zero exactly on equal keys, changes sign when its arguments are swapped and is
  transitive, on the keys \<open>ok\<close> admits. The lemmas are the contract of the halving search over
  such an array, used by every client of a key comparison.
\<close>

locale key_order =
  fixes cmp :: "'k \<Rightarrow> 'k \<Rightarrow> int" and ok :: "'k \<Rightarrow> bool"
  assumes cmp_eq: "ok a \<Longrightarrow> ok b \<Longrightarrow> cmp a b = 0 \<longleftrightarrow> a = b"
    and cmp_flip: "ok a \<Longrightarrow> ok b \<Longrightarrow> cmp a b < 0 \<longleftrightarrow> 0 < cmp b a"
    and cmp_trans: "ok a \<Longrightarrow> ok b \<Longrightarrow> ok c \<Longrightarrow> cmp a b < 0 \<Longrightarrow> cmp b c < 0 \<Longrightarrow> cmp a c < 0"
begin

lemma cmp_self: "ok a \<Longrightarrow> cmp a a = 0"
  by (simp add: cmp_eq)

lemma sorted_distinct:
  "sorted_wrt (\<lambda>a b. cmp a b < 0) ks \<Longrightarrow> \<forall>k \<in> set ks. ok k \<Longrightarrow> distinct ks"
  by (induction ks) (use cmp_self in fastforce)+

lemma sign_sorted_keys:
  assumes "sorted_wrt (\<lambda>a b. cmp a b < 0) ks" "\<forall>k \<in> set ks. ok k" "ok k"
  shows "sign_sorted (\<lambda>i. cmp (ks ! i) k) 0 (length ks)"
  unfolding sign_sorted_def
proof (intro allI impI)
  fix i j
  assume ij: "0 \<le> i \<and> i < j \<and> j < 0 + length ks"
  then have lt: "cmp (ks ! i) (ks ! j) < 0" and oi: "ok (ks ! i)" and oj: "ok (ks ! j)"
    using assms(1,2) by (auto simp: sorted_wrt_iff_nth_less)
  have "cmp (ks ! i) k < 0" if "cmp (ks ! j) k \<le> 0"
  proof (cases "cmp (ks ! j) k = 0")
    case True
    with lt show ?thesis using cmp_eq [OF oj assms(3)] by simp
  next
    case False
    with that show ?thesis using cmp_trans [OF oi oj assms(3) lt] by simp
  qed
  moreover have "0 < cmp (ks ! j) k" if "0 \<le> cmp (ks ! i) k"
  proof (cases "cmp (ks ! i) k = 0")
    case True
    then have "ks ! i = k" using cmp_eq [OF oi assms(3)] by simp
    with lt show ?thesis using cmp_flip [OF oi oj] by simp
  next
    case False
    with that have "cmp k (ks ! i) < 0" using cmp_flip [OF assms(3) oi] by simp
    with cmp_trans [OF assms(3) oi oj] lt have "cmp k (ks ! j) < 0" by simp
    then show ?thesis using cmp_flip [OF assms(3) oj] by simp
  qed
  ultimately show "(cmp (ks ! j) k \<le> 0 \<longrightarrow> cmp (ks ! i) k < 0) \<and> (0 \<le> cmp (ks ! i) k \<longrightarrow> 0 < cmp (ks ! j) k)"
    by blast
qed

lemma bsearch_slot:
  assumes sorted: "sorted_wrt (\<lambda>a b. cmp a b < 0) ks" and ok: "\<forall>k \<in> set ks. ok k" "ok k"
    and res: "bsearch (\<lambda>i. cmp (ks ! i) k) 0 (length ks) = Slot p"
  shows "p \<le> length ks" "k \<notin> set ks" "sorted_wrt (\<lambda>a b. cmp a b < 0) (take p ks @ k # drop p ks)"
proof -
  from bsearch_Slot [OF res sign_sorted_keys [OF sorted ok]]
  have p: "p \<le> length ks" and lo: "\<And>i. i < p \<Longrightarrow> cmp (ks ! i) k < 0"
    and hi: "\<And>i. p \<le> i \<Longrightarrow> i < length ks \<Longrightarrow> 0 < cmp (ks ! i) k" by auto
  show "p \<le> length ks" by (rule p)
  show "k \<notin> set ks"
  proof
    assume "k \<in> set ks"
    then obtain i where "i < length ks" "ks ! i = k" by (auto simp: in_set_conv_nth)
    with lo [of i] hi [of i] cmp_self [OF ok(2)] show False by (cases "i < p") auto
  qed
  have low: "cmp x k < 0" if "x \<in> set (take p ks)" for x
    using that lo p by (auto simp: in_set_conv_nth)
  have high: "cmp k x < 0" if "x \<in> set (drop p ks)" for x
  proof -
    from that obtain i where "i < length (drop p ks)" "x = drop p ks ! i"
      by (auto simp: in_set_conv_nth)
    with hi [of "p + i"] p have "0 < cmp x k" by simp
    moreover have "ok x" using that ok(1) by (auto dest: in_set_dropD)
    ultimately show ?thesis using cmp_flip [OF ok(2)] by blast
  qed
  from sorted have "sorted_wrt (\<lambda>a b. cmp a b < 0) (take p ks @ drop p ks)" by simp
  with low high show "sorted_wrt (\<lambda>a b. cmp a b < 0) (take p ks @ k # drop p ks)"
    unfolding sorted_wrt_append by auto
qed

lemma bsearch_found:
  assumes "sorted_wrt (\<lambda>a b. cmp a b < 0) ks" "\<forall>k \<in> set ks. ok k" "ok k"
  shows "bsearch (\<lambda>i. cmp (ks ! i) k) 0 (length ks) = Found i \<longleftrightarrow> i < length ks \<and> ks ! i = k"
proof
  assume "bsearch (\<lambda>i. cmp (ks ! i) k) 0 (length ks) = Found i"
  from bsearch_Found [OF this] assms show "i < length ks \<and> ks ! i = k"
    using cmp_eq by (metis add_0 nth_mem)
next
  assume i: "i < length ks \<and> ks ! i = k"
  show "bsearch (\<lambda>i. cmp (ks ! i) k) 0 (length ks) = Found i"
  proof (cases "bsearch (\<lambda>i. cmp (ks ! i) k) 0 (length ks)")
    case (Found j)
    from bsearch_Found [OF Found] assms have "j < length ks \<and> ks ! j = k"
      using cmp_eq by (metis add_0 nth_mem)
    with i sorted_distinct [OF assms(1,2)] Found show ?thesis
      by (simp add: nth_eq_iff_index_eq [symmetric])
  next
    case (Slot p)
    from bsearch_slot(2) [OF assms Slot] i show ?thesis by auto
  qed
qed

end

section \<open>The order of strcmp\<close>

lemma strcmp_flip: "nul_free a \<Longrightarrow> nul_free b \<Longrightarrow> strcmp a b < 0 \<longleftrightarrow> 0 < strcmp b a"
  by (induction a b rule: strcmp.induct) auto

lemma strcmp_trans:
  "nul_free a \<Longrightarrow> nul_free b \<Longrightarrow> nul_free c \<Longrightarrow> strcmp a b < 0 \<Longrightarrow> strcmp b c < 0 \<Longrightarrow> strcmp a c < 0"
proof (induction a b arbitrary: c rule: strcmp.induct)
  case (2 d ds)
  then show ?case by (cases c) (auto split: if_splits)
next
  case (4 x xs d ds)
  then show ?case by (cases c) (auto split: if_splits)
qed auto

interpretation str: key_order strcmp nul_free
  by unfold_locales (fact strcmp_eq strcmp_flip strcmp_trans)+

end
