(* ===== verification/Bconf.thy ===== *)
theory Bconf
  imports Prelude
begin

text \<open>
  The configuration tree of \<open>vtree/lib/bconf.c\<close>. A node is a value or a list of children kept
  sorted by \<open>keycomp\<close>; the public operations walk it by dotted keys or key vectors.

  Conventions of the model. A \<open>struct bconf_node *\<close> that is only read is the node itself
  (\<open>bconf_node option\<close>, \<open>None\<close> for \<open>NULL\<close>). A pointer through which the tree is changed is
  the list of child indices that leads to it from the root, read by \<open>node_at\<close> and written by
  \<open>node_put\<close>. A pair (\<open>const char *\<close>, length) is the string of that many bytes. \<open>xerrx\<close>, which
  ends the process, is \<open>Inl\<close> of an error. Memory management (\<open>free\<close>, the pool an allocation is
  made in) is not part of the state, except where the pool changes what is written. Lengths
  and counts are below \<open>INT_MAX\<close>.
\<close>

section \<open>Data\<close>

datatype node_type = NODE_NONE | NODE_VAL | NODE_LIST | NODE_BIN

text \<open>
  \<open>struct bconf_node\<close>. \<open>count\<close> is the length of \<open>bn_sub_nodes\<close>; \<open>bn_star\<close> holds the key of the
  child the pointer \<open>star\<close> points to; the \<open>NULL\<close> key of a root is the empty string. \<open>bn_value\<close>
  is the text of a \<open>NODE_VAL\<close> and the referenced buffer of a \<open>NODE_BIN\<close>.
\<close>

datatype bconf_node =
  Bconf_node (bn_value: "cstring option") (bn_key: cstring) (bn_klen: nat) (bn_vlen: nat)
    (bn_type: node_type) (bn_sub_nodes: "bconf_node list") (bn_star: "cstring option")
    (bn_sublen: nat)

datatype bconf_dup = BCONF_REF | BCONF_DUP | BCONF_OWN

datatype bconf_error =
    Err_duplicate_key cstring
  | Err_can_not_add
  | Err_conflict
  | Err_null_deref

text \<open>A zeroed node, as \<open>mempool_alloc\<close> and \<open>zmalloc\<close> return it, and a new child.\<close>

definition zero_node :: bconf_node where
  "zero_node = Bconf_node None [] 0 0 NODE_NONE [] None 0"

definition key_node :: "cstring \<Rightarrow> bconf_node" where
  "key_node k = Bconf_node None k (length k) 0 NODE_NONE [] None 0"

section \<open>Reading and writing through pointers\<close>

definition set_sub :: "bconf_node \<Rightarrow> nat \<Rightarrow> bconf_node \<Rightarrow> bconf_node" where
  "set_sub n i c = Bconf_node (bn_value n) (bn_key n) (bn_klen n) (bn_vlen n) (bn_type n)
     ((bn_sub_nodes n)[i := c]) (bn_star n) (bn_sublen n)"

fun node_at :: "bconf_node \<Rightarrow> nat list \<Rightarrow> bconf_node" where
  "node_at n [] = n"
| "node_at n (i # p) = node_at (bn_sub_nodes n ! i) p"

fun node_put :: "bconf_node \<Rightarrow> nat list \<Rightarrow> bconf_node \<Rightarrow> bconf_node" where
  "node_put n [] m = m"
| "node_put n (i # p) m = set_sub n i (node_put (bn_sub_nodes n ! i) p m)"

section \<open>Key comparison, search and insertion\<close>

text \<open>The comparison loop of \<open>keycomp\<close>: byte difference, NUL at the end of the node's key.\<close>

fun keycomp_loop :: "cstring \<Rightarrow> cstring \<Rightarrow> int" where
  "keycomp_loop key [] = (case key of [] \<Rightarrow> 0 | c # _ \<Rightarrow> uchar c)"
| "keycomp_loop [] (d # ds) = 0 - uchar d"
| "keycomp_loop (c # cs) (d # ds) =
     (if uchar c - uchar d \<noteq> 0 then uchar c - uchar d else keycomp_loop cs ds)"

definition keycomp_key :: "cstring \<Rightarrow> nat \<Rightarrow> cstring \<Rightarrow> int" where
  "keycomp_key key klen substring =
     (if starts_digit key \<and> starts_digit substring \<and> int klen - int (length substring) \<noteq> 0
      then int klen - int (length substring)
      else keycomp_loop key substring)"

definition keycomp :: "bconf_node \<Rightarrow> cstring \<Rightarrow> int" where
  "keycomp node substring = keycomp_key (bn_key node) (bn_klen node) substring"

text \<open>\<open>node_search\<close>, returning the index of the child it points to.\<close>

definition node_search :: "bconf_node \<Rightarrow> cstring \<Rightarrow> nat option" where
  "node_search node key =
     (if bn_type node \<noteq> NODE_LIST then None
      else case bsearch (\<lambda>i. keycomp (bn_sub_nodes node ! i) key) 0 (length (bn_sub_nodes node)) of
             Found i \<Rightarrow> Some i
           | Slot _ \<Rightarrow> None)"

text \<open>
  \<open>node_insert\<close>, returning the node with \<open>n\<close> inserted and the index of \<open>n\<close>. The array doubles
  when it is full and starts at two entries, which is also when the node becomes a list.
\<close>

definition node_insert :: "bconf_node \<Rightarrow> bconf_node \<Rightarrow> bconf_error + bconf_node \<times> nat" where
  "node_insert node n =
     (let count = length (bn_sub_nodes node);
          full = (count = bn_sublen node);
          sublen = (if full then if bn_sublen node = 0 then 2 else 2 * bn_sublen node
                    else bn_sublen node);
          type = (if full \<and> bn_sublen node = 0 then NODE_LIST else bn_type node)
      in case bsearch (\<lambda>i. keycomp (bn_sub_nodes node ! i) (bn_key n)) 0 count of
           Found _ \<Rightarrow> Inl (Err_duplicate_key (bn_key n))
         | Slot no \<Rightarrow>
             Inr (Bconf_node (bn_value node) (bn_key node) (bn_klen node) (bn_vlen node) type
                    (take no (bn_sub_nodes node) @ n # drop no (bn_sub_nodes node))
                    (if bn_key n = ''*'' then Some (bn_key n) else bn_star node)
                    sublen, no))"

definition bconf_get_node :: "bconf_node \<Rightarrow> cstring \<Rightarrow> bconf_error + bconf_node \<times> nat option" where
  "bconf_get_node node key =
     (if bn_type node \<noteq> NODE_NONE \<and> bn_type node \<noteq> NODE_LIST then Inr (node, None)
      else case node_search node key of
             Some i \<Rightarrow> Inr (node, Some i)
           | None \<Rightarrow>
               (case node_insert node (key_node key) of
                  Inl e \<Rightarrow> Inl e
                | Inr (node', i) \<Rightarrow> Inr (node', Some i)))"

text \<open>
  The loop of \<open>bconf_lookup_add\<close> from the node reached so far: the result is that node after
  the insertions below it, and the pointer to the node of the last key segment.
\<close>

definition key_head :: "cstring \<Rightarrow> cstring" where
  "key_head key = takeWhile (\<lambda>c. c \<noteq> CHR ''.'') key"

definition key_rest :: "cstring \<Rightarrow> cstring" where
  "key_rest key = dropWhile (\<lambda>c. c \<noteq> CHR ''.'') key"

lemma key_rest_length: "key_rest key = c # r \<Longrightarrow> length r < length key"
  unfolding key_rest_def
  by (metis Suc_le_eq length_Cons length_dropWhile_le)

function lookup_add_from :: "bconf_node \<Rightarrow> cstring \<Rightarrow> bconf_error + bconf_node \<times> nat list option" where
  "lookup_add_from node key =
     (case bconf_get_node node (key_head key) of
        Inl e \<Rightarrow> Inl e
      | Inr (node', None) \<Rightarrow> Inr (node', None)
      | Inr (node', Some i) \<Rightarrow>
          (case key_rest key of
             [] \<Rightarrow> Inr (node', Some [i])
           | _ # key' \<Rightarrow>
               (case lookup_add_from (bn_sub_nodes node' ! i) key' of
                  Inl e \<Rightarrow> Inl e
                | Inr (c, p) \<Rightarrow> Inr (set_sub node' i c, map_option ((#) i) p))))"
  by pat_completeness auto
termination
  by (relation "measure (\<lambda>(n, k). length k)") (auto simp: key_rest_length)

declare lookup_add_from.simps [simp del]

definition bconf_lookup_add ::
  "bconf_node option \<Rightarrow> cstring \<Rightarrow> bconf_error + bconf_node \<times> nat list option" where
  "bconf_lookup_add root key =
     lookup_add_from (case root of None \<Rightarrow> zero_node | Some n \<Rightarrow> n) key"

fun lookup_addv_from ::
  "bconf_node \<Rightarrow> cstring list \<Rightarrow> bconf_error + bconf_node \<times> nat list option" where
  "lookup_addv_from node [] = Inr (node, Some [])"
| "lookup_addv_from node (k # ks) =
     (case bconf_get_node node k of
        Inl e \<Rightarrow> Inl e
      | Inr (node', None) \<Rightarrow> Inr (node', None)
      | Inr (node', Some i) \<Rightarrow>
          (case lookup_addv_from (bn_sub_nodes node' ! i) ks of
             Inl e \<Rightarrow> Inl e
           | Inr (c, p) \<Rightarrow> Inr (set_sub node' i c, map_option ((#) i) p)))"

definition bconf_lookup_addv ::
  "bconf_node option \<Rightarrow> cstring list \<Rightarrow> bconf_error + bconf_node \<times> nat list option" where
  "bconf_lookup_addv root argv =
     lookup_addv_from (case root of None \<Rightarrow> zero_node | Some n \<Rightarrow> n) argv"

section \<open>Adding data\<close>

text \<open>
  \<open>bconf_add_dataX\<close> on the node a lookup returned (every caller has dealt with \<open>NULL\<close> before);
  \<open>pool\<close> tells whether a memory pool is used. The code is -1 for a conflict, 0 when the value was
  set, 1 when it was there already.
\<close>

definition bconf_add_dataX ::
  "bool \<Rightarrow> bconf_node \<Rightarrow> cstring option \<Rightarrow> nat \<Rightarrow> bconf_dup \<Rightarrow> bconf_error + bconf_node \<times> int" where
  "bconf_add_dataX pool node value vlen dup =
     (let set_value = (\<lambda>v l t. Bconf_node v (bn_key node) (bn_klen node) l t
                         (bn_sub_nodes node) (bn_star node) (bn_sublen node))
      in if (value \<noteq> None \<or> dup \<noteq> BCONF_REF) \<and> bn_type node = NODE_LIST then Inr (node, -1)
      else if bn_type node = NODE_NONE then
        if dup \<noteq> BCONF_REF then
          (case value of
             None \<Rightarrow> Inr (node, -1)
           | Some v \<Rightarrow>
               Inr (set_value (Some (if dup = BCONF_OWN then v else take vlen v)) vlen NODE_VAL, 0))
        else if value \<noteq> None then Inr (set_value value vlen NODE_BIN, 0)
        else Inr (set_value (bn_value node) (bn_vlen node) NODE_LIST, 0)
      else if \<not> (value \<noteq> None \<or> dup \<noteq> BCONF_REF) then Inr (node, 1)
      else
        let ret = (if dup \<noteq> BCONF_REF \<and> bn_type node = NODE_VAL then
                     (case (bn_value node, value) of
                        (Some old, Some v) \<Rightarrow> Some (if strcmp old v = 0 then 1 else 0)
                      | _ \<Rightarrow> None)
                   else Some (0 :: int))
        in case ret of
             None \<Rightarrow> Inl Err_null_deref
           | Some r \<Rightarrow>
               if dup \<noteq> BCONF_DUP then
                 Inr (set_value value vlen (if dup = BCONF_OWN then NODE_VAL else NODE_BIN), r)
               else
                 (case value of
                    None \<Rightarrow> Inr (node, -1)
                  | Some v \<Rightarrow>
                      if \<not> pool \<and> vlen \<le> bn_vlen node then
                        (case bn_value node of
                           None \<Rightarrow> Inl Err_null_deref
                         | Some old \<Rightarrow>
                             Inr (set_value
                                    (Some (if bn_type node = NODE_VAL then take vlen v
                                           else take vlen v @ drop vlen old))
                                    vlen (bn_type node), r))
                      else Inr (set_value (Some (take vlen v)) vlen (bn_type node), r)))"

text \<open>
  \<open>bconf_validate_key_conflict\<close>: whether adding a value at the key would be refused.
\<close>

function validate_from :: "bconf_node \<Rightarrow> cstring \<Rightarrow> int" where
  "validate_from node key =
     (if bn_type node \<noteq> NODE_NONE \<and> bn_type node \<noteq> NODE_LIST then -1
      else case node_search node (key_head key) of
             None \<Rightarrow> 0
           | Some i \<Rightarrow>
               let node' = bn_sub_nodes node ! i in
               (case key_rest key of
                  [] \<Rightarrow> if bn_type node' \<noteq> NODE_NONE \<and> bn_type node' \<noteq> NODE_VAL then -1 else 0
                | _ # key' \<Rightarrow> validate_from node' key'))"
  by pat_completeness auto
termination
  by (relation "measure (\<lambda>(n, k). length k)") (auto simp: key_rest_length)

declare validate_from.simps [simp del]

definition bconf_validate_key_conflict :: "bconf_node option \<Rightarrow> cstring \<Rightarrow> int" where
  "bconf_validate_key_conflict root key =
     (case root of None \<Rightarrow> 0 | Some node \<Rightarrow> validate_from node key)"

definition bconf_add_data ::
  "bconf_node option \<Rightarrow> cstring \<Rightarrow> cstring \<Rightarrow> bconf_error + bconf_node" where
  "bconf_add_data root key value =
     (case bconf_lookup_add root key of
        Inl e \<Rightarrow> Inl e
      | Inr (r, None) \<Rightarrow> Inl Err_can_not_add
      | Inr (r, Some p) \<Rightarrow>
          (case bconf_add_dataX False (node_at r p) (Some value) (length value) BCONF_DUP of
             Inl e \<Rightarrow> Inl e
           | Inr (n, c) \<Rightarrow> if c = -1 then Inl Err_conflict else Inr (node_put r p n)))"

definition bconf_add_data_canfail ::
  "bconf_node option \<Rightarrow> cstring \<Rightarrow> cstring \<Rightarrow> bconf_error + bconf_node \<times> int" where
  "bconf_add_data_canfail root key value =
     (case bconf_lookup_add root key of
        Inl e \<Rightarrow> Inl e
      | Inr (r, None) \<Rightarrow> Inr (r, -1)
      | Inr (r, Some p) \<Rightarrow>
          (case bconf_add_dataX False (node_at r p) (Some value) (length value) BCONF_DUP of
             Inl e \<Rightarrow> Inl e
           | Inr (n, c) \<Rightarrow> Inr (node_put r p n, c)))"

definition bconf_add_bindata ::
  "bconf_node option \<Rightarrow> cstring \<Rightarrow> cstring option \<Rightarrow> nat \<Rightarrow> bconf_error + bconf_node option" where
  "bconf_add_bindata root key value vlen =
     (if value = None then Inr root
      else case bconf_lookup_add root key of
        Inl e \<Rightarrow> Inl e
      | Inr (r, None) \<Rightarrow> Inl Err_can_not_add
      | Inr (r, Some p) \<Rightarrow>
          (case bconf_add_dataX False (node_at r p) value vlen BCONF_REF of
             Inl e \<Rightarrow> Inl e
           | Inr (n, c) \<Rightarrow> if c = -1 then Inl Err_conflict else Inr (Some (node_put r p n))))"

definition bconf_add_bindatav ::
  "bconf_node option \<Rightarrow> cstring list \<Rightarrow> cstring option \<Rightarrow> nat \<Rightarrow>
     bconf_error + bconf_node option \<times> int" where
  "bconf_add_bindatav root keyv value vlen =
     (if value = None then Inr (root, 1)
      else case bconf_lookup_addv root keyv of
        Inl e \<Rightarrow> Inl e
      | Inr (r, None) \<Rightarrow> Inl Err_can_not_add
      | Inr (r, Some p) \<Rightarrow>
          (case bconf_add_dataX False (node_at r p) value vlen BCONF_REF of
             Inl e \<Rightarrow> Inl e
           | Inr (n, c) \<Rightarrow>
               if c = -1 then Inl Err_conflict else Inr (Some (node_put r p n), c)))"

definition bconf_add_datav ::
  "bconf_node option \<Rightarrow> cstring list \<Rightarrow> cstring \<Rightarrow> bconf_dup \<Rightarrow> bconf_error + bconf_node \<times> int" where
  "bconf_add_datav root argv value dup =
     (case bconf_lookup_addv root argv of
        Inl e \<Rightarrow> Inl e
      | Inr (r, None) \<Rightarrow> Inl Err_can_not_add
      | Inr (r, Some p) \<Rightarrow>
          (case bconf_add_dataX False (node_at r p) (Some value) (length value) dup of
             Inl e \<Rightarrow> Inl e
           | Inr (n, c) \<Rightarrow> if c = -1 then Inl Err_conflict else Inr (node_put r p n, c)))"

definition bconf_add_datav_canfail ::
  "bconf_node option \<Rightarrow> cstring list \<Rightarrow> cstring \<Rightarrow> bconf_dup \<Rightarrow> bconf_error + bconf_node \<times> int" where
  "bconf_add_datav_canfail root argv value dup =
     (case bconf_lookup_addv root argv of
        Inl e \<Rightarrow> Inl e
      | Inr (r, None) \<Rightarrow> Inr (r, -1)
      | Inr (r, Some p) \<Rightarrow>
          (case bconf_add_dataX False (node_at r p) (Some value) (length value) dup of
             Inl e \<Rightarrow> Inl e
           | Inr (n, c) \<Rightarrow> Inr (node_put r p n, c)))"

text \<open>The pointer \<open>bconf_add_listnode\<close> returns: \<open>NULL\<close>, a fresh node outside the tree, or a node in it.\<close>

datatype node_ref = Ref_null | Ref_fresh bconf_node | Ref_at "nat list"

definition bconf_add_listnode ::
  "bconf_node option \<Rightarrow> cstring option \<Rightarrow> bconf_error + bconf_node option \<times> node_ref" where
  "bconf_add_listnode root key =
     (case key of
        None \<Rightarrow> Inr (root, Ref_fresh zero_node)
      | Some k \<Rightarrow>
          (case bconf_lookup_add root k of
             Inl e \<Rightarrow> Inl e
           | Inr (r, None) \<Rightarrow> Inr (Some r, Ref_null)
           | Inr (r, Some p) \<Rightarrow> Inr (Some r, Ref_at p)))"

text \<open>For \<open>bconf_add_listnodev\<close> an empty vector stands for one whose first element is \<open>NULL\<close>.\<close>

definition bconf_add_listnodev ::
  "bconf_node option \<Rightarrow> cstring list \<Rightarrow> bconf_error + bconf_node option \<times> node_ref" where
  "bconf_add_listnodev root keyv =
     (if keyv = [] then Inr (root, Ref_fresh zero_node)
      else case bconf_lookup_addv root keyv of
             Inl e \<Rightarrow> Inl e
           | Inr (r, None) \<Rightarrow> Inr (Some r, Ref_null)
           | Inr (r, Some p) \<Rightarrow> Inr (Some r, Ref_at p))"

definition bconf_add_data_pool ::
  "bconf_node option \<Rightarrow> cstring \<Rightarrow> cstring \<Rightarrow> bconf_error + bconf_node" where
  "bconf_add_data_pool root key value =
     (case bconf_lookup_add root key of
        Inl e \<Rightarrow> Inl e
      | Inr (r, None) \<Rightarrow> Inl Err_can_not_add
      | Inr (r, Some p) \<Rightarrow>
          (case bconf_add_dataX True (node_at r p) (Some value) (length value) BCONF_DUP of
             Inl e \<Rightarrow> Inl e
           | Inr (n, c) \<Rightarrow> if c = -1 then Inl Err_conflict else Inr (node_put r p n)))"

section \<open>Reading\<close>

text \<open>The node the pointer \<open>star\<close> points to.\<close>

definition star_node :: "bconf_node \<Rightarrow> bconf_node option" where
  "star_node n =
     (case bn_star n of
        None \<Rightarrow> None
      | Some k \<Rightarrow> find (\<lambda>c. bn_key c = k) (bn_sub_nodes n))"

definition get_step :: "bconf_node \<Rightarrow> cstring \<Rightarrow> bconf_node option" where
  "get_step n key =
     (case node_search n key of
        Some i \<Rightarrow> Some (bn_sub_nodes n ! i)
      | None \<Rightarrow> star_node n)"

function get_from :: "bconf_node \<Rightarrow> cstring \<Rightarrow> bconf_node option" where
  "get_from n key =
     (case get_step n (key_head key) of
        None \<Rightarrow> None
      | Some n' \<Rightarrow> (case key_rest key of [] \<Rightarrow> Some n' | _ # key' \<Rightarrow> get_from n' key'))"
  by pat_completeness auto
termination
  by (relation "measure (\<lambda>(n, k). length k)") (auto simp: key_rest_length)

declare get_from.simps [simp del]

definition bconf_get :: "bconf_node option \<Rightarrow> cstring option \<Rightarrow> bconf_node option" where
  "bconf_get root key =
     (case (key, root) of (Some k, Some n) \<Rightarrow> get_from n k | _ \<Rightarrow> None)"

text \<open>
  \<open>bconf_lget\<close>: \<open>key\<close> and the number \<open>len\<close> of its bytes that are left up to \<open>end\<close>.
\<close>

function lget_from :: "bconf_node \<Rightarrow> cstring \<Rightarrow> nat \<Rightarrow> bconf_node option" where
  "lget_from n key len =
     (let seg = length (takeWhile (\<lambda>c. c \<noteq> CHR ''.'') (take len key))
      in case get_step n (take seg key) of
           None \<Rightarrow> None
         | Some n' \<Rightarrow>
             if seg < len then lget_from n' (drop (seg + 1) key) (len - (seg + 1))
             else Some n')"
  by pat_completeness auto
termination
  by (relation "measure (\<lambda>(n, k, l). l)") auto

declare lget_from.simps [simp del]

definition bconf_lget :: "bconf_node option \<Rightarrow> cstring option \<Rightarrow> nat \<Rightarrow> bconf_node option" where
  "bconf_lget root key len =
     (case (key, root) of
        (Some k, Some n) \<Rightarrow> if len = 0 then None else lget_from n k len
      | _ \<Rightarrow> None)"

text \<open>Variadic getters: the arguments before the closing \<open>NULL\<close> are a list.\<close>

fun bconf_vget :: "bconf_node option \<Rightarrow> cstring list \<Rightarrow> bconf_node option" where
  "bconf_vget res [] = res"
| "bconf_vget res (key # ap) = (if res = None then res else bconf_vget (bconf_get res (Some key)) ap)"

fun bconf_vnget :: "bconf_node option \<Rightarrow> nat \<Rightarrow> cstring list \<Rightarrow> bconf_node option" where
  "bconf_vnget res 0 ap = res"
| "bconf_vnget res (Suc args) [] = res"
| "bconf_vnget res (Suc args) (key # ap) =
     (if res = None then res else bconf_vnget (bconf_get res (Some key)) args ap)"

text \<open>In the vector of \<open>bconf_vasget\<close>, \<open>None\<close> is the element that is the sentinel pointer.\<close>

fun bconf_vasget :: "bconf_node option \<Rightarrow> cstring option list \<Rightarrow> bconf_node option" where
  "bconf_vasget res [] = res"
| "bconf_vasget res (None # argv) = res"
| "bconf_vasget res (Some key # argv) = bconf_vasget (bconf_get res (Some key)) argv"

definition bconf_byindex :: "bconf_node option \<Rightarrow> nat \<Rightarrow> bconf_node option" where
  "bconf_byindex node index =
     (case node of
        None \<Rightarrow> None
      | Some n \<Rightarrow> if index < length (bn_sub_nodes n) then Some (bn_sub_nodes n ! index) else None)"

definition bconf_count :: "bconf_node option \<Rightarrow> nat" where
  "bconf_count node = (case node of None \<Rightarrow> 0 | Some n \<Rightarrow> length (bn_sub_nodes n))"

definition bconf_value :: "bconf_node option \<Rightarrow> cstring option" where
  "bconf_value node = (case node of None \<Rightarrow> None | Some n \<Rightarrow> bn_value n)"

definition bconf_intvalue :: "bconf_node option \<Rightarrow> int" where
  "bconf_intvalue node = (case bconf_value node of None \<Rightarrow> 0 | Some v \<Rightarrow> atoi v)"

definition bconf_binvalue :: "bconf_node option \<Rightarrow> cstring option" where
  "bconf_binvalue node = (case node of None \<Rightarrow> None | Some n \<Rightarrow> bn_value n)"

definition bconf_key :: "bconf_node option \<Rightarrow> cstring option" where
  "bconf_key node = (case node of None \<Rightarrow> None | Some n \<Rightarrow> Some (bn_key n))"

definition bconf_klen :: "bconf_node option \<Rightarrow> nat" where
  "bconf_klen node = (case node of None \<Rightarrow> 0 | Some n \<Rightarrow> bn_klen n)"

definition bconf_vlen :: "bconf_node option \<Rightarrow> nat" where
  "bconf_vlen node = (case node of None \<Rightarrow> 0 | Some n \<Rightarrow> bn_vlen n)"

definition bconf_get_string :: "bconf_node option \<Rightarrow> cstring \<Rightarrow> cstring option" where
  "bconf_get_string root key =
     (case bconf_get root (Some key) of None \<Rightarrow> None | Some n \<Rightarrow> bconf_value (Some n))"

definition bconf_get_string_default ::
  "bconf_node option \<Rightarrow> cstring \<Rightarrow> cstring option \<Rightarrow> cstring option" where
  "bconf_get_string_default root key def =
     (case bconf_get_string root key of Some r \<Rightarrow> Some r | None \<Rightarrow> def)"

definition bconf_get_int :: "bconf_node option \<Rightarrow> cstring \<Rightarrow> int" where
  "bconf_get_int root key =
     (case bconf_get root (Some key) of None \<Rightarrow> 0 | Some n \<Rightarrow> bconf_intvalue (Some n))"

definition bconf_get_int_default :: "bconf_node option \<Rightarrow> cstring \<Rightarrow> int \<Rightarrow> int" where
  "bconf_get_int_default root key def =
     (case bconf_get root (Some key) of None \<Rightarrow> def | Some n \<Rightarrow> bconf_intvalue (Some n))"

datatype tristate = TRI_UNDEF | TRI_FALSE | TRI_TRUE

definition bconf_get_tristate :: "bconf_node option \<Rightarrow> cstring \<Rightarrow> tristate \<Rightarrow> tristate" where
  "bconf_get_tristate root key def =
     (case bconf_get root (Some key) of
        None \<Rightarrow> def
      | Some n \<Rightarrow> if bconf_intvalue (Some n) = 0 then TRI_FALSE else TRI_TRUE)"

definition int_max :: nat where
  "int_max = 2147483647"

definition bconf_vget_int :: "bconf_node option \<Rightarrow> cstring list \<Rightarrow> int" where
  "bconf_vget_int root ap = bconf_intvalue (bconf_vnget root int_max ap)"

fun bconf_vnget_till_null :: "bconf_node option \<Rightarrow> cstring list \<Rightarrow> bconf_node option" where
  "bconf_vnget_till_null res [] = res"
| "bconf_vnget_till_null res (key # ap) =
     bconf_vnget_till_null (if res = None then res else bconf_get res (Some key)) ap"

text \<open>The default is the argument after the closing \<open>NULL\<close>.\<close>

definition bconf_vget_int_default :: "bconf_node option \<Rightarrow> cstring list \<Rightarrow> int \<Rightarrow> int" where
  "bconf_vget_int_default root ap def =
     (case bconf_vnget_till_null root ap of None \<Rightarrow> def | Some n \<Rightarrow> bconf_intvalue (Some n))"

definition bconf_vget_string :: "bconf_node option \<Rightarrow> cstring list \<Rightarrow> cstring option" where
  "bconf_vget_string root ap =
     (case bconf_vnget root int_max ap of None \<Rightarrow> None | Some n \<Rightarrow> bconf_value (Some n))"

text \<open>\<open>bconf_in_list\<close>, with the loop from index \<open>i\<close> over the children that are left.\<close>

fun in_list_from :: "cstring \<Rightarrow> int \<Rightarrow> bconf_node list \<Rightarrow> int" where
  "in_list_from v i [] = -1"
| "in_list_from v i (c # cs) =
     (case bn_value c of
        Some w \<Rightarrow> if strcmp w v = 0 then i else in_list_from v (i + 1) cs
      | None \<Rightarrow> in_list_from v (i + 1) cs)"

definition bconf_in_list ::
  "cstring option \<Rightarrow> cstring option \<Rightarrow> bconf_node option \<Rightarrow> int" where
  "bconf_in_list value path root =
     (case value of
        None \<Rightarrow> -1
      | Some v \<Rightarrow>
          (case (if path \<noteq> None then bconf_get root path else root) of
             None \<Rightarrow> -1
           | Some node \<Rightarrow> in_list_from v 0 (bn_sub_nodes node)))"

section \<open>Merging, deleting and filtering\<close>

lemma size_bn_sub_nodes: "size_list size (bn_sub_nodes n) < size n"
  by (cases n) simp

text \<open>
  \<open>bconf_merge\<close>: the children of the source in order, the destination and the flag threaded
  through. \<open>src\<close> and \<open>dst\<close> are different trees.
\<close>

function bconf_merge :: "bconf_node option \<Rightarrow> bconf_node option \<Rightarrow> bconf_error + bconf_node \<times> bool"
  and merge_subs :: "bconf_node \<Rightarrow> bconf_node list \<Rightarrow> bool \<Rightarrow> bconf_error + bconf_node \<times> bool" where
  "bconf_merge dst src =
     merge_subs (case dst of None \<Rightarrow> zero_node | Some d \<Rightarrow> d)
       (case src of None \<Rightarrow> [] | Some s \<Rightarrow> bn_sub_nodes s) False"
| "merge_subs d [] ret = Inr (d, ret)"
| "merge_subs d (sn # sns) ret =
     (case bn_type sn of
        NODE_LIST \<Rightarrow>
          (case bconf_get_node d (take (bn_klen sn) (bn_key sn)) of
             Inl e \<Rightarrow> Inl e
           | Inr (d', None) \<Rightarrow> merge_subs d' sns ret
           | Inr (d', Some i) \<Rightarrow>
               (case bconf_merge (Some (bn_sub_nodes d' ! i)) (Some sn) of
                  Inl e \<Rightarrow> Inl e
                | Inr (dn, r) \<Rightarrow> merge_subs (set_sub d' i dn) sns (ret \<or> r)))
      | NODE_VAL \<Rightarrow>
          (case bn_value sn of
             None \<Rightarrow> Inl Err_null_deref
           | Some v \<Rightarrow>
               (case bconf_add_datav (Some d) [bn_key sn] v BCONF_DUP of
                  Inl e \<Rightarrow> Inl e
                | Inr (d', r) \<Rightarrow> merge_subs d' sns (ret \<or> r = 0)))
      | NODE_BIN \<Rightarrow>
          (case bconf_add_bindatav (Some d) [bn_key sn] (bn_value sn) (bn_vlen sn) of
             Inl e \<Rightarrow> Inl e
           | Inr (d', r) \<Rightarrow>
               merge_subs (case d' of None \<Rightarrow> d | Some x \<Rightarrow> x) sns (ret \<or> r = 0))
      | NODE_NONE \<Rightarrow> merge_subs d sns ret)"
  by pat_completeness auto
termination
  by (relation "measure (\<lambda>x. case x of
        Inl (_, src) \<Rightarrow> 2 * (case src of None \<Rightarrow> 0 | Some s \<Rightarrow> size s) + 1
      | Inr (_, sns, _) \<Rightarrow> 2 * size_list size sns)")
     (auto split: option.splits simp: size_bn_sub_nodes less_Suc_eq_le less_imp_le)

declare bconf_merge.simps [simp del] merge_subs.simps [simp del]

definition bconf_merge_prefix ::
  "bconf_node option \<Rightarrow> cstring \<Rightarrow> bconf_node option \<Rightarrow> bconf_error + bconf_node option \<times> bool" where
  "bconf_merge_prefix dst prefix src =
     (if src = None then Inr (dst, False)
      else case bconf_get_node (case dst of None \<Rightarrow> zero_node | Some d \<Rightarrow> d) prefix of
             Inl e \<Rightarrow> Inl e
           | Inr (d, None) \<Rightarrow> Inr (Some d, False)
           | Inr (d, Some i) \<Rightarrow>
               (case bconf_merge (Some (bn_sub_nodes d ! i)) src of
                  Inl e \<Rightarrow> Inl e
                | Inr (dn, r) \<Rightarrow> Inr (Some (set_sub d i dn), r)))"

text \<open>
  The part \<open>bconf_deletev\<close> and \<open>bconf_filter_to_keys\<close> share: taking child \<open>i\<close> out, with the
  pointer \<open>star\<close> reset when it points to it.
\<close>

definition remove_sub :: "bconf_node \<Rightarrow> nat \<Rightarrow> bconf_node" where
  "remove_sub n i = Bconf_node (bn_value n) (bn_key n) (bn_klen n) (bn_vlen n) (bn_type n)
     (take i (bn_sub_nodes n) @ drop (i + 1) (bn_sub_nodes n))
     (if bn_star n = Some (bn_key (bn_sub_nodes n ! i)) then None else bn_star n) (bn_sublen n)"

function delete_from :: "bconf_node \<Rightarrow> cstring \<Rightarrow> nat \<Rightarrow> bconf_node \<times> bool" where
  "delete_from n key i =
     (if i < length (bn_sub_nodes n) then
        if strcmp key (bn_key (bn_sub_nodes n ! i)) \<noteq> 0 then delete_from n key (i + 1)
        else (remove_sub n i, True)
      else (n, False))"
  by pat_completeness auto
termination
  by (relation "measure (\<lambda>(n, k, i). length (bn_sub_nodes n) - i)") auto

declare delete_from.simps [simp del]

definition bconf_deletev :: "bconf_node option \<Rightarrow> cstring list \<Rightarrow> bconf_error + bconf_node \<times> bool" where
  "bconf_deletev root argv =
     (case bconf_lookup_addv root (butlast argv) of
        Inl e \<Rightarrow> Inl e
      | Inr (r, None) \<Rightarrow> Inr (r, False)
      | Inr (r, Some p) \<Rightarrow>
          (let (n, b) = delete_from (node_at r p) (last argv) 0 in Inr (node_put r p n, b)))"

function filter_from :: "bconf_node option \<Rightarrow> bconf_node \<Rightarrow> nat \<Rightarrow> nat \<Rightarrow> bconf_node \<times> nat" where
  "filter_from flt n i ret =
     (if i < length (bn_sub_nodes n) then
        if bconf_get flt (bconf_key (bconf_byindex (Some n) i)) \<noteq> None
        then filter_from flt n (i + 1) ret
        else filter_from flt (remove_sub n i) i (ret + 1)
      else (n, ret))"
  by pat_completeness auto
termination
  by (relation "measure (\<lambda>(f, n, i, r). length (bn_sub_nodes n) - i)") (auto simp: remove_sub_def)

declare filter_from.simps [simp del]

definition bconf_filter_to_keys ::
  "bconf_node option \<Rightarrow> bconf_node option \<Rightarrow> bconf_node option \<times> nat" where
  "bconf_filter_to_keys root flt =
     (case root of
        None \<Rightarrow> (root, 0)
      | Some n \<Rightarrow>
          if bn_type n \<noteq> NODE_LIST then (root, 0)
          else (let (n', ret) = filter_from flt n 0 0 in (Some n', ret)))"

section \<open>Printing and walking\<close>

text \<open>
  The printing callback is a list of its calls: the depth and the formatted text. The cast of
  the format \<open>%.2x\<close> is the two hexadecimal digits of the byte.
\<close>

definition hex_digit :: "int \<Rightarrow> char" where
  "hex_digit d = (if d < 10 then char_of (48 + nat d) else char_of (87 + nat d))"

definition json_plain :: "char \<Rightarrow> bool" where
  "json_plain c = (\<not> ((0 < uchar c \<and> uchar c < 32) \<or> c = CHR 0x22 \<or> c = CHR 0x5C))"

definition json_escape :: "char \<Rightarrow> cstring" where
  "json_escape c =
     (if c = CHR 0x22 \<or> c = CHR 0x5C then [CHR 0x5C, c]
      else if c = CHR 0x0A then [CHR 0x5C, CHR ''n'']
      else [CHR 0x5C, CHR ''u'', CHR ''0'', CHR ''0'',
            hex_digit (uchar c div 16), hex_digit (uchar c mod 16)])"

function json_value_from :: "cstring \<Rightarrow> (nat \<times> cstring) list" where
  "json_value_from p =
     (if p = [] then []
      else (0, takeWhile json_plain p) #
        (case dropWhile json_plain p of
           [] \<Rightarrow> []
         | c # p' \<Rightarrow> (0, json_escape c) # json_value_from p'))"
  by pat_completeness auto
termination
proof (relation "measure length", goal_cases)
  case (2 p c p')
  then show ?case using length_dropWhile_le [of json_plain p] by simp
qed simp

declare json_value_from.simps [simp del]

definition bconf_json_value :: "cstring \<Rightarrow> (nat \<times> cstring) list" where
  "bconf_json_value v = (0, [CHR 0x22]) # json_value_from v @ [(0, [CHR 0x22])]"

definition val_text :: "bconf_node \<Rightarrow> cstring" where
  "val_text n = (case bn_value n of Some v \<Rightarrow> v | None \<Rightarrow> [])"

definition newline :: cstring where
  "newline = [CHR 0x0A]"

function bconf_json :: "bconf_node option \<Rightarrow> nat \<Rightarrow> (nat \<times> cstring) list"
  and json_subs :: "nat \<Rightarrow> bconf_node list \<Rightarrow> (nat \<times> cstring) list" where
  "bconf_json n depth =
     (case n of
        None \<Rightarrow> [(0, ''{}'')]
      | Some nd \<Rightarrow>
          if bn_type nd = NODE_VAL then bconf_json_value (val_text nd)
          else (if depth = 0 then [(depth, ''{'' @ newline)] else []) @
               json_subs depth (bn_sub_nodes nd) @ [(depth, ''}'')])"
| "json_subs depth [] = []"
| "json_subs depth (ns # rest) =
     (depth + 1, [CHR 0x22] @ bn_key ns @ [CHR 0x22] @ '': '') #
     (case bn_type ns of
        NODE_LIST \<Rightarrow>
          (0, ''{'' @ newline) # bconf_json (Some ns) (depth + 1) @
          [(0, (if rest \<noteq> [] then '','' else []) @ newline)]
      | NODE_VAL \<Rightarrow>
          bconf_json_value (val_text ns) @ [(0, (if rest \<noteq> [] then '','' else []) @ newline)]
      | _ \<Rightarrow> []) @ json_subs depth rest"
  by pat_completeness auto
termination
  by (relation "measure (\<lambda>x. case x of
        Inl (n, _) \<Rightarrow> 2 * (case n of None \<Rightarrow> 0 | Some s \<Rightarrow> size s) + 1
      | Inr (_, sns) \<Rightarrow> 2 * size_list size sns)")
     (auto split: option.splits simp: size_bn_sub_nodes less_Suc_eq_le less_imp_le)

declare bconf_json.simps [simp del] json_subs.simps [simp del]

text \<open>\<open>bconf_json_bscat\<close> appends \<open>depth\<close> blanks and the text to the buffer.\<close>

definition bconf_json_bscat :: "cstring \<Rightarrow> nat \<times> cstring \<Rightarrow> cstring" where
  "bconf_json_bscat d call = d @ replicate (fst call) (CHR '' '') @ snd call"

text \<open>
  \<open>bconf_foreach_internal\<close>: \<open>path\<close> is the text of the first \<open>pathidx\<close> bytes of the 128 byte
  buffer; the callback takes the path, its length, the node and its own data. The maximal depth
  is not negative.
\<close>

definition path_size :: nat where
  "path_size = 128"

function bconf_foreach_internal ::
    "bconf_node option \<Rightarrow> nat \<Rightarrow> (cstring \<Rightarrow> nat \<Rightarrow> bconf_node \<Rightarrow> 's \<Rightarrow> 's \<times> int) \<Rightarrow> nat \<Rightarrow>
       cstring \<Rightarrow> 's \<Rightarrow> 's \<times> int"
  and foreach_subs ::
    "bconf_node list \<Rightarrow> nat \<Rightarrow> (cstring \<Rightarrow> nat \<Rightarrow> bconf_node \<Rightarrow> 's \<Rightarrow> 's \<times> int) \<Rightarrow> nat \<Rightarrow>
       cstring \<Rightarrow> 's \<Rightarrow> 's \<times> int" where
  "bconf_foreach_internal n depth cbfun max_depth path s =
     (if depth > max_depth then (s, 0)
      else foreach_subs (case n of None \<Rightarrow> [] | Some nd \<Rightarrow> bn_sub_nodes nd) depth cbfun max_depth path s)"
| "foreach_subs [] depth cbfun max_depth path s = (s, 0)"
| "foreach_subs (ns # rest) depth cbfun max_depth path s =
     (if bn_type ns \<noteq> NODE_LIST \<and> bn_type ns \<noteq> NODE_VAL
      then foreach_subs rest depth cbfun max_depth path s
      else
        let text = bn_key ns @ (if bn_type ns = NODE_LIST then ''.'' else []);
            newidx = length text
        in if 0 < newidx \<and> newidx < path_size - length path then
             let (s', retval) =
                   (if bn_type ns = NODE_LIST
                    then bconf_foreach_internal (Some ns) (depth + 1) cbfun max_depth (path @ text) s
                    else cbfun (path @ text) (length path + newidx) ns s)
             in if retval \<noteq> 0 then (s', retval)
                else foreach_subs rest depth cbfun max_depth path s'
           else foreach_subs rest depth cbfun max_depth path s)"
  by pat_completeness auto
termination
  by (relation "measure (\<lambda>x. case x of
        Inl (n, _) \<Rightarrow> 2 * (case n of None \<Rightarrow> 0 | Some s \<Rightarrow> size s) + 1
      | Inr (sns, _) \<Rightarrow> 2 * size_list size sns)")
     (auto split: option.splits simp: size_bn_sub_nodes less_Suc_eq_le less_imp_le)

declare bconf_foreach_internal.simps [simp del] foreach_subs.simps [simp del]

definition bconf_foreach ::
  "bconf_node option \<Rightarrow> nat \<Rightarrow> (cstring \<Rightarrow> nat \<Rightarrow> bconf_node \<Rightarrow> 's \<Rightarrow> 's \<times> int) \<Rightarrow> 's \<Rightarrow> 's \<times> int" where
  "bconf_foreach n max_depth cbfun cbdata = bconf_foreach_internal n 0 cbfun max_depth [] cbdata"

section \<open>The key order\<close>

abbreviation keycmp :: "cstring \<Rightarrow> cstring \<Rightarrow> int" where
  "keycmp a b \<equiv> keycomp_key a (length a) b"

lemma keycomp_loop_eq: "nul_free a \<Longrightarrow> nul_free b \<Longrightarrow> keycomp_loop a b = 0 \<longleftrightarrow> a = b"
  by (induction a b rule: keycomp_loop.induct) (auto split: list.splits)

lemma keycomp_loop_flip:
  "nul_free a \<Longrightarrow> nul_free b \<Longrightarrow> keycomp_loop a b < 0 \<longleftrightarrow> 0 < keycomp_loop b a"
proof (induction a b rule: keycomp_loop.induct)
  case (1 key)
  then show ?case by (cases key) auto
qed auto

lemma keycomp_loop_trans:
  "nul_free a \<Longrightarrow> nul_free b \<Longrightarrow> nul_free c \<Longrightarrow>
     keycomp_loop a b < 0 \<Longrightarrow> keycomp_loop b c < 0 \<Longrightarrow> keycomp_loop a c < 0"
proof (induction a b arbitrary: c rule: keycomp_loop.induct)
  case (1 key)
  then show ?case by (cases key) (auto simp: not_less)
next
  case (2 d ds)
  then show ?case by (cases c) (auto simp: not_less split: if_splits)
next
  case (3 x xs d ds)
  then show ?case by (cases c) (auto simp: not_less split: if_splits)
qed

lemma keycomp_loop_digit_other:
  "nul_free b \<Longrightarrow> starts_digit a \<Longrightarrow> \<not> starts_digit b \<Longrightarrow>
     keycomp_loop a b < 0 \<longleftrightarrow> (\<exists>d ds. b = d # ds \<and> 57 < uchar d)"
  by (cases a; cases b) (auto simp: starts_digit_def isdigit_def)

lemma keycomp_loop_other_digit:
  "nul_free a \<Longrightarrow> \<not> starts_digit a \<Longrightarrow> starts_digit b \<Longrightarrow>
     keycomp_loop a b < 0 \<longleftrightarrow> (\<forall>d ds. a = d # ds \<longrightarrow> uchar d < 48)"
  by (cases a; cases b) (auto simp: starts_digit_def isdigit_def)

lemma keycmp_trans:
  assumes "nul_free a" "nul_free b" "nul_free c" "keycmp a b < 0" "keycmp b c < 0"
  shows "keycmp a c < 0"
proof (cases "starts_digit a \<and> starts_digit c")
  case True
  show ?thesis
  proof (cases "starts_digit b")
    case d: True
    with assms True show ?thesis
      using keycomp_loop_trans [of a b c] by (auto simp: keycomp_key_def split: if_splits)
  next
    case False
    with assms True have "keycomp_loop a b < 0" "keycomp_loop b c < 0"
      by (auto simp: keycomp_key_def)
    with False True assms show ?thesis
      using keycomp_loop_digit_other [of b a] keycomp_loop_other_digit [of b c] by force
  qed
next
  case False
  have "keycomp_loop a c < 0"
  proof (cases "starts_digit a \<and> starts_digit b \<or> starts_digit b \<and> starts_digit c")
    case True
    then consider "starts_digit a" "starts_digit b" "\<not> starts_digit c"
      | "starts_digit b" "starts_digit c" "\<not> starts_digit a" using False by blast
    then show ?thesis
    proof cases
      case 1
      with assms show ?thesis
        using keycomp_loop_digit_other [of c a] keycomp_loop_digit_other [of c b]
        by (simp add: keycomp_key_def)
    next
      case 2
      with assms show ?thesis
        using keycomp_loop_other_digit [of a c] keycomp_loop_other_digit [of a b]
        by (simp add: keycomp_key_def)
    qed
  next
    case f: False
    then have "keycomp_loop a b < 0" "keycomp_loop b c < 0"
      using assms by (auto simp: keycomp_key_def)
    then show ?thesis by (rule keycomp_loop_trans [OF assms(1-3)])
  qed
  moreover have "keycmp a c = keycomp_loop a c" using False by (auto simp: keycomp_key_def)
  ultimately show ?thesis by simp
qed

interpretation bkey: key_order keycmp nul_free
proof unfold_locales
  fix a b :: cstring
  assume "nul_free a" "nul_free b"
  then show "keycmp a b = 0 \<longleftrightarrow> a = b" "keycmp a b < 0 \<longleftrightarrow> 0 < keycmp b a"
    using keycomp_loop_eq [of a b] keycomp_loop_flip [of a b]
    by (auto simp: keycomp_key_def)
qed (rule keycmp_trans)

section \<open>The invariant of a tree\<close>

text \<open>
  What every public operation keeps of a node: the recorded key length, keys that are C strings,
  children strictly sorted by \<open>keycomp\<close>, no more children than the array holds, a value exactly
  on value nodes, and the pointer \<open>star\<close> at the child with the key \<open>*\<close>.
\<close>

definition value_ok :: "node_type \<Rightarrow> cstring option \<Rightarrow> nat \<Rightarrow> bool" where
  "value_ok t v l =
     (case v of
        None \<Rightarrow> t = NODE_NONE \<or> t = NODE_LIST
      | Some s \<Rightarrow> (t = NODE_VAL \<and> l = length s \<and> nul_free s) \<or> (t = NODE_BIN \<and> l \<le> length s))"

fun wf_bconf :: "bconf_node \<Rightarrow> bool" where
  "wf_bconf (Bconf_node v k kl vl t subs st sl) =
     (kl = length k \<and> nul_free k \<and>
      sorted_wrt (\<lambda>a b. keycmp a b < 0) (map bn_key subs) \<and>
      (\<forall>c \<in> set subs. wf_bconf c) \<and>
      length subs \<le> sl \<and> (subs \<noteq> [] \<longrightarrow> t = NODE_LIST) \<and> (t = NODE_NONE \<longrightarrow> sl = 0) \<and>
      st = (if ''*'' \<in> bn_key ` set subs then Some ''*'' else None) \<and>
      value_ok t v vl)"

definition child :: "bconf_node \<Rightarrow> cstring \<Rightarrow> bconf_node option" where
  "child n k = find (\<lambda>c. bn_key c = k) (bn_sub_nodes n)"

lemma wfI:
  assumes "bn_klen n = length (bn_key n)" "nul_free (bn_key n)"
    "sorted_wrt (\<lambda>a b. keycmp a b < 0) (map bn_key (bn_sub_nodes n))"
    "\<And>c. c \<in> set (bn_sub_nodes n) \<Longrightarrow> wf_bconf c"
    "length (bn_sub_nodes n) \<le> bn_sublen n"
    "bn_sub_nodes n \<noteq> [] \<Longrightarrow> bn_type n = NODE_LIST" "bn_type n = NODE_NONE \<Longrightarrow> bn_sublen n = 0"
    "bn_star n = (if ''*'' \<in> bn_key ` set (bn_sub_nodes n) then Some ''*'' else None)"
    "value_ok (bn_type n) (bn_value n) (bn_vlen n)"
  shows "wf_bconf n"
  using assms by (cases n) simp

lemma wfD:
  assumes "wf_bconf n"
  shows wf_klen: "bn_klen n = length (bn_key n)" and wf_key_nul_free: "nul_free (bn_key n)"
    and wf_sorted: "sorted_wrt (\<lambda>a b. keycmp a b < 0) (map bn_key (bn_sub_nodes n))"
    and wf_sub: "c \<in> set (bn_sub_nodes n) \<Longrightarrow> wf_bconf c"
    and wf_sublen: "length (bn_sub_nodes n) \<le> bn_sublen n"
    and wf_list: "bn_sub_nodes n \<noteq> [] \<Longrightarrow> bn_type n = NODE_LIST"
    and wf_none: "bn_type n = NODE_NONE \<Longrightarrow> bn_sublen n = 0"
    and wf_star: "bn_star n = (if ''*'' \<in> bn_key ` set (bn_sub_nodes n) then Some ''*'' else None)"
    and wf_value: "value_ok (bn_type n) (bn_value n) (bn_vlen n)"
  using assms by (cases n; simp)+

lemma wf_sub_keys_ok: "wf_bconf n \<Longrightarrow> \<forall>k \<in> set (map bn_key (bn_sub_nodes n)). nul_free k"
  by (auto dest: wf_sub wf_key_nul_free)

lemma wf_keys_distinct: "wf_bconf n \<Longrightarrow> distinct (map bn_key (bn_sub_nodes n))"
  by (rule bkey.sorted_distinct [OF wf_sorted wf_sub_keys_ok])

lemma wf_search_keys:
  assumes "wf_bconf n"
  shows "bsearch (\<lambda>i. keycomp (bn_sub_nodes n ! i) key) 0 (length (bn_sub_nodes n)) =
         bsearch (\<lambda>i. keycmp (map bn_key (bn_sub_nodes n) ! i) key) 0 (length (map bn_key (bn_sub_nodes n)))"
proof -
  have "keycomp (bn_sub_nodes n ! i) key = keycmp (map bn_key (bn_sub_nodes n) ! i) key"
    if "i < length (bn_sub_nodes n)" for i
    using that assms by (simp add: keycomp_def wf_klen wf_sub)
  then show ?thesis by (auto intro: bsearch_cong)
qed

lemma child_Some: "wf_bconf n \<Longrightarrow> child n k = Some c \<longleftrightarrow> c \<in> set (bn_sub_nodes n) \<and> bn_key c = k"
  using find_by_key [OF wf_keys_distinct, of n c] by (auto simp: child_def find_Some_iff)

lemma child_None: "child n k = None \<longleftrightarrow> k \<notin> bn_key ` set (bn_sub_nodes n)"
  by (auto simp: child_def find_None_iff)

lemma child_nth: "wf_bconf n \<Longrightarrow> i < length (bn_sub_nodes n) \<Longrightarrow>
    child n (bn_key (bn_sub_nodes n ! i)) = Some (bn_sub_nodes n ! i)"
  by (simp add: child_Some)

lemma wf_child: "wf_bconf n \<Longrightarrow> child n k = Some c \<Longrightarrow> wf_bconf c \<and> bn_key c = k"
  by (simp add: child_Some wf_sub)

lemma child_eqI:
  assumes "wf_bconf n" "wf_bconf n'"
    "\<And>c. bn_key c = k \<Longrightarrow> c \<in> set (bn_sub_nodes n) \<longleftrightarrow> c \<in> set (bn_sub_nodes n')"
  shows "child n k = child n' k"
proof (cases "child n k")
  case None
  with assms(3) have "child n' k = None" unfolding child_None by blast
  with None show ?thesis by simp
next
  case (Some c)
  with assms(1) have "c \<in> set (bn_sub_nodes n)" "bn_key c = k" by (simp_all add: child_Some)
  with assms(3) [of c] have "child n' k = Some c" by (simp add: child_Some [OF assms(2)])
  with Some show ?thesis by simp
qed

section \<open>Search, insertion and assignment of children\<close>

lemma node_search_iff:
  assumes "wf_bconf n" "nul_free k"
  shows "node_search n k = Some i \<longleftrightarrow> i < length (bn_sub_nodes n) \<and> bn_key (bn_sub_nodes n ! i) = k"
proof -
  have "bsearch (\<lambda>i. keycomp (bn_sub_nodes n ! i) k) 0 (length (bn_sub_nodes n)) = Found i \<longleftrightarrow>
      i < length (bn_sub_nodes n) \<and> bn_key (bn_sub_nodes n ! i) = k"
    unfolding wf_search_keys [OF assms(1)]
      bkey.bsearch_found [OF wf_sorted [OF assms(1)] wf_sub_keys_ok [OF assms(1)] assms(2)]
    by (simp cong: conj_cong)
  moreover have "bn_type n = NODE_LIST" if "i < length (bn_sub_nodes n)"
    using wf_list [OF assms(1)] that by (cases "bn_sub_nodes n") simp_all
  ultimately show ?thesis
    by (cases "bsearch (\<lambda>i. keycomp (bn_sub_nodes n ! i) k) 0 (length (bn_sub_nodes n))")
      (auto simp: node_search_def)
qed

lemma sub_key_nth:
  "k \<in> bn_key ` set (bn_sub_nodes n) \<longleftrightarrow> (\<exists>i < length (bn_sub_nodes n). bn_key (bn_sub_nodes n ! i) = k)"
  by (metis imageE image_eqI in_set_conv_nth)

lemma node_search_None:
  "wf_bconf n \<Longrightarrow> nul_free k \<Longrightarrow> node_search n k = None \<longleftrightarrow> k \<notin> bn_key ` set (bn_sub_nodes n)"
  using node_search_iff [of n k] by (simp add: sub_key_nth flip: not_Some_eq)

lemma node_search_child:
  "wf_bconf n \<Longrightarrow> nul_free k \<Longrightarrow> map_option (\<lambda>i. bn_sub_nodes n ! i) (node_search n k) = child n k"
  using node_search_None [of n k] node_search_iff [of n k] child_None [of n k] child_nth [of n]
  by (cases "node_search n k") (simp, metis option.map(2))

lemma node_insert_ok:
  assumes wf: "wf_bconf n" "wf_bconf m" and new: "bn_key m \<notin> bn_key ` set (bn_sub_nodes n)"
    and ty: "bn_type n = NODE_NONE \<or> bn_type n = NODE_LIST"
  obtains n' p where "node_insert n m = Inr (n', p)" "wf_bconf n'" "p < length (bn_sub_nodes n')"
    "bn_sub_nodes n' ! p = m" "set (bn_sub_nodes n') = insert m (set (bn_sub_nodes n))"
    "bn_type n' = NODE_LIST" "bn_key n' = bn_key n" "bn_value n' = bn_value n"
proof -
  let ?ks = "map bn_key (bn_sub_nodes n)"
  have search: "bsearch (\<lambda>i. keycomp (bn_sub_nodes n ! i) (bn_key m)) 0 (length (bn_sub_nodes n)) =
      bsearch (\<lambda>i. keycmp (?ks ! i) (bn_key m)) 0 (length ?ks)"
    by (rule wf_search_keys [OF wf(1)])
  note ord = wf_sorted [OF wf(1)] wf_sub_keys_ok [OF wf(1)] wf_key_nul_free [OF wf(2)]
  show thesis
  proof (cases "bsearch (\<lambda>i. keycmp (?ks ! i) (bn_key m)) 0 (length ?ks)")
    case (Found i)
    with bkey.bsearch_found [OF ord] have "bn_key m \<in> set ?ks" by (metis nth_mem)
    with new show ?thesis by simp
  next
    case (Slot p)
    note slot = bkey.bsearch_slot [OF ord Slot]
    let ?subs = "take p (bn_sub_nodes n) @ m # drop p (bn_sub_nodes n)"
    define n' where "n' = Bconf_node (bn_value n) (bn_key n) (bn_klen n) (bn_vlen n) NODE_LIST ?subs
      (if bn_key m = ''*'' then Some ''*'' else bn_star n)
      (if length (bn_sub_nodes n) = bn_sublen n then if bn_sublen n = 0 then 2 else 2 * bn_sublen n
       else bn_sublen n)"
    have t: "bn_sublen n \<noteq> 0 \<Longrightarrow> bn_type n = NODE_LIST" using ty wf_none [OF wf(1)] by auto
    have "length (bn_sub_nodes n) \<noteq> bn_sublen n \<Longrightarrow> bn_sublen n \<noteq> 0"
      using wf_sublen [OF wf(1)] by linarith
    with search Slot t have ins: "node_insert n m = Inr (n', p)"
      by (auto simp: node_insert_def n'_def Let_def)
    have set: "set ?subs = insert m (set (bn_sub_nodes n))"
      using set_append [of "take p (bn_sub_nodes n)" "drop p (bn_sub_nodes n)"] by auto
    have val: "value_ok NODE_LIST (bn_value n) (bn_vlen n)"
      using wf_value [OF wf(1)] ty by (auto simp: value_ok_def split: option.splits)
    have "wf_bconf n'"
    proof (rule wfI)
      show "sorted_wrt (\<lambda>a b. keycmp a b < 0) (map bn_key (bn_sub_nodes n'))"
        using slot(3) by (simp add: n'_def take_map drop_map)
      show "wf_bconf c" if "c \<in> set (bn_sub_nodes n')" for c
        using that set wf by (auto simp: n'_def dest: wf_sub)
      show "bn_star n' = (if ''*'' \<in> bn_key ` set (bn_sub_nodes n') then Some ''*'' else None)"
        using wf_star [OF wf(1)] set by (simp add: n'_def)
    qed (use wfD [OF wf(1)] slot(1) val in \<open>auto simp: n'_def\<close>)
    from that [OF ins this] slot(1) set show ?thesis by (simp add: n'_def nth_append)
  qed
qed

lemma set_sub_simps [simp]:
  "bn_sub_nodes (set_sub n i c) = (bn_sub_nodes n)[i := c]" "bn_type (set_sub n i c) = bn_type n"
  "bn_key (set_sub n i c) = bn_key n" "bn_value (set_sub n i c) = bn_value n"
  "bn_vlen (set_sub n i c) = bn_vlen n" "bn_klen (set_sub n i c) = bn_klen n"
  "bn_star (set_sub n i c) = bn_star n" "bn_sublen (set_sub n i c) = bn_sublen n"
  by (simp_all add: set_sub_def)

lemma set_sub_keys:
  "i < length (bn_sub_nodes n) \<Longrightarrow> bn_key c = bn_key (bn_sub_nodes n ! i) \<Longrightarrow>
     map bn_key ((bn_sub_nodes n)[i := c]) = map bn_key (bn_sub_nodes n)"
  using list_update_id [of "map bn_key (bn_sub_nodes n)" i] by (simp add: map_update)

lemma wf_set_sub:
  assumes "wf_bconf n" "wf_bconf c" "i < length (bn_sub_nodes n)" "bn_key c = bn_key (bn_sub_nodes n ! i)"
  shows "wf_bconf (set_sub n i c)"
proof (rule wfI)
  have keys: "bn_key ` set ((bn_sub_nodes n)[i := c]) = bn_key ` set (bn_sub_nodes n)"
    using arg_cong [OF set_sub_keys [OF assms(3,4)], of set] by simp
  show "bn_star (set_sub n i c) = (if ''*'' \<in> bn_key ` set (bn_sub_nodes (set_sub n i c)) then Some ''*'' else None)"
    using wf_star [OF assms(1)] keys by simp
  show "wf_bconf d" if "d \<in> set (bn_sub_nodes (set_sub n i c))" for d
    using that assms(1,2) set_update_subset_insert [of "bn_sub_nodes n" i c] by (auto dest: wf_sub)
qed (use wfD [OF assms(1)] set_sub_keys [OF assms(3,4)] in auto)

lemma child_set_sub:
  assumes "wf_bconf n" "wf_bconf c" "i < length (bn_sub_nodes n)" "bn_key c = bn_key (bn_sub_nodes n ! i)"
  shows "child (set_sub n i c) k = (if k = bn_key c then Some c else child n k)"
proof (cases "k = bn_key c")
  case True
  have "c \<in> set (bn_sub_nodes (set_sub n i c))" using assms(3) by (simp add: set_update_memI)
  with True show ?thesis by (simp add: child_Some [OF wf_set_sub [OF assms]])
next
  case False
  have "child (set_sub n i c) k = child n k"
    using assms False
    by (intro child_eqI wf_set_sub) (auto simp: in_set_conv_nth nth_list_update)
  with False show ?thesis by simp
qed

lemma key_node_simps [simp]:
  "bn_key (key_node k) = k" "bn_type (key_node k) = NODE_NONE" "bn_sub_nodes (key_node k) = []"
  "bn_value (key_node k) = None" "bn_klen (key_node k) = length k" "bn_sublen (key_node k) = 0"
  "bn_star (key_node k) = None" "bn_vlen (key_node k) = 0"
  by (simp_all add: key_node_def)

lemma zero_node_key: "zero_node = key_node []"
  by (simp add: zero_node_def key_node_def)

lemma wf_key_node [simp]: "nul_free k \<Longrightarrow> wf_bconf (key_node k)"
  by (rule wfI) (auto simp: value_ok_def)

definition is_leaf :: "bconf_node \<Rightarrow> bool" where
  "is_leaf n = (bn_type n = NODE_VAL \<or> bn_type n = NODE_BIN)"

definition child_or_new :: "bconf_node \<Rightarrow> cstring \<Rightarrow> bconf_node" where
  "child_or_new n k = (case child n k of None \<Rightarrow> key_node k | Some c \<Rightarrow> c)"

lemma is_leaf_value: "wf_bconf n \<Longrightarrow> is_leaf n \<longleftrightarrow> bn_value n \<noteq> None"
  by (frule wf_value) (auto simp: is_leaf_def value_ok_def split: option.splits)

lemma leaf_no_subs: "wf_bconf n \<Longrightarrow> is_leaf n \<Longrightarrow> bn_sub_nodes n = []"
  using wf_list [of n] by (cases "bn_sub_nodes n = []") (auto simp: is_leaf_def)

lemma get_node_leaf: "is_leaf n \<Longrightarrow> bconf_get_node n k = Inr (n, None)"
  by (auto simp: is_leaf_def bconf_get_node_def)

lemma wf_child_or_new:
  "wf_bconf n \<Longrightarrow> nul_free k \<Longrightarrow> wf_bconf (child_or_new n k) \<and> bn_key (child_or_new n k) = k"
  by (auto simp: child_or_new_def wf_child split: option.splits)

text \<open>
  \<open>bconf_get_node\<close> never meets the duplicate key error: on an inner node it returns the child of
  the key, new when there was none, and leaves the other children.
\<close>

lemma get_node_inner:
  assumes wf: "wf_bconf n" and k: "nul_free k" and inner: "\<not> is_leaf n"
  obtains n' i where "bconf_get_node n k = Inr (n', Some i)" "wf_bconf n'"
    "i < length (bn_sub_nodes n')" "bn_sub_nodes n' ! i = child_or_new n k"
    "\<And>k'. child n' k' = (if k' = k then Some (child_or_new n k) else child n k')"
    "bn_type n' = NODE_LIST" "bn_key n' = bn_key n" "bn_value n' = bn_value n"
proof (cases "node_search n k")
  case (Some i)
  then have i: "i < length (bn_sub_nodes n)" "bn_key (bn_sub_nodes n ! i) = k"
    by (simp_all add: node_search_iff [OF wf k])
  then have "child n k = Some (bn_sub_nodes n ! i)" using child_nth [OF wf] by metis
  moreover have "bn_type n = NODE_LIST" using wf_list [OF wf] i by force
  ultimately show thesis
    using Some i wf by (intro that [of n i]) (auto simp: bconf_get_node_def child_or_new_def)
next
  case None
  then have new: "k \<notin> bn_key ` set (bn_sub_nodes n)" by (simp add: node_search_None [OF wf k])
  then have cn: "child_or_new n k = key_node k" by (simp add: child_or_new_def child_None [THEN iffD2])
  have ty: "bn_type n = NODE_NONE \<or> bn_type n = NODE_LIST"
    using inner by (cases "bn_type n") (auto simp: is_leaf_def)
  then obtain n' p where ins: "node_insert n (key_node k) = Inr (n', p)" "wf_bconf n'"
    "p < length (bn_sub_nodes n')" "bn_sub_nodes n' ! p = key_node k"
    "set (bn_sub_nodes n') = insert (key_node k) (set (bn_sub_nodes n))"
    "bn_type n' = NODE_LIST" "bn_key n' = bn_key n" "bn_value n' = bn_value n"
    using node_insert_ok [OF wf, of "key_node k"] k new by auto
  have "child n' k' = (if k' = k then Some (child_or_new n k) else child n k')" for k'
  proof (cases "k' = k")
    case True
    with ins(5) cn show ?thesis by (simp add: child_Some [OF ins(2)])
  next
    case False
    then have "child n' k' = child n k'" using ins(5) by (intro child_eqI [OF ins(2) wf]) auto
    with False show ?thesis by simp
  qed
  moreover have "bconf_get_node n k = Inr (n', Some p)"
    using None ins(1) ty by (auto simp: bconf_get_node_def)
  ultimately show thesis using ins cn by (intro that [of n' p]) auto
qed

section \<open>The tree as a map from paths to values\<close>

fun bconf_view :: "bconf_node \<Rightarrow> cstring list \<Rightarrow> cstring option" where
  "bconf_view n [] = map_option (take (bn_vlen n)) (bn_value n)"
| "bconf_view n (k # ks) = (case child n k of None \<Rightarrow> None | Some c \<Rightarrow> bconf_view c ks)"

text \<open>The view of a root that may be \<open>NULL\<close>.\<close>

definition root_view :: "bconf_node option \<Rightarrow> cstring list \<Rightarrow> cstring option" where
  "root_view root = (case root of None \<Rightarrow> Map.empty | Some n \<Rightarrow> bconf_view n)"

definition wf_root :: "bconf_node option \<Rightarrow> bool" where
  "wf_root root = (case root of None \<Rightarrow> True | Some n \<Rightarrow> wf_bconf n)"

text \<open>The node at a path, without the wildcard.\<close>

fun descend :: "bconf_node \<Rightarrow> cstring list \<Rightarrow> bconf_node option" where
  "descend n [] = Some n"
| "descend n (k # ks) = (case child n k of None \<Rightarrow> None | Some c \<Rightarrow> descend c ks)"

text \<open>Whether a value is in the way of a path.\<close>

fun blocked :: "bconf_node \<Rightarrow> cstring list \<Rightarrow> bool" where
  "blocked n [] = False"
| "blocked n (k # ks) = (is_leaf n \<or> (case child n k of None \<Rightarrow> False | Some c \<Rightarrow> blocked c ks))"

text \<open>The node at a path after the missing ones have been added: new when it was not there.\<close>

fun target :: "bconf_node \<Rightarrow> cstring list \<Rightarrow> bconf_node" where
  "target n [] = n"
| "target n (k # ks) = target (child_or_new n k) ks"

text \<open>The view with the part below a path replaced.\<close>

definition graft :: "(cstring list \<Rightarrow> cstring option) \<Rightarrow> cstring list \<Rightarrow>
    (cstring list \<Rightarrow> cstring option) \<Rightarrow> cstring list \<Rightarrow> cstring option" where
  "graft m ks m' q = (if take (length ks) q = ks then m' (drop (length ks) q) else m q)"

lemma graft_Nil [simp]: "graft m [] m' = m'"
  by (simp add: graft_def fun_eq_iff)

lemma view_key_node [simp]: "bconf_view (key_node k) = Map.empty"
proof
  show "bconf_view (key_node k) q = None" for q by (cases q) (auto simp: child_def)
qed

lemma blocked_key_node [simp]: "\<not> blocked (key_node k) ks"
  by (cases ks) (auto simp: is_leaf_def child_def)

lemma child_or_new_blocked:
  "(case child n k of None \<Rightarrow> False | Some c \<Rightarrow> blocked c q) = blocked (child_or_new n k) q"
  by (auto simp: child_or_new_def split: option.splits)

text \<open>
  What a lookup that adds does: it fails exactly when a value is in the way; otherwise the pointer
  it returns leads to the node of the path, the values of the tree are the same, and whatever is
  written through the pointer replaces exactly the part of the tree below the path.
\<close>

definition points_to :: "bconf_node \<Rightarrow> cstring list \<Rightarrow> bconf_node \<Rightarrow> nat list \<Rightarrow> bool" where
  "points_to n ks n' p = (node_at n' p = target n ks \<and>
     (\<forall>m. wf_bconf m \<longrightarrow> bn_key m = bn_key (target n ks) \<longrightarrow>
        wf_bconf (node_put n' p m) \<and> bn_key (node_put n' p m) = bn_key n \<and>
        bconf_view (node_put n' p m) = graft (bconf_view n) ks (bconf_view m) \<and>
        descend (node_put n' p m) ks = Some m))"

lemma points_toD:
  assumes "points_to n ks n' p"
  shows "node_at n' p = target n ks"
    and "wf_bconf m \<Longrightarrow> bn_key m = bn_key (target n ks) \<Longrightarrow> wf_bconf (node_put n' p m)"
    and "wf_bconf m \<Longrightarrow> bn_key m = bn_key (target n ks) \<Longrightarrow> bn_key (node_put n' p m) = bn_key n"
    and "wf_bconf m \<Longrightarrow> bn_key m = bn_key (target n ks) \<Longrightarrow>
           bconf_view (node_put n' p m) = graft (bconf_view n) ks (bconf_view m)"
    and "wf_bconf m \<Longrightarrow> bn_key m = bn_key (target n ks) \<Longrightarrow> descend (node_put n' p m) ks = Some m"
  using assms by (simp_all add: points_to_def)

lemma view_set_sub:
  assumes "wf_bconf n1" "i < length (bn_sub_nodes n1)" "bn_value n1 = None" "bn_value n = None"
    "\<And>k'. k' \<noteq> k \<Longrightarrow> child n1 k' = child n k'" "bn_key (bn_sub_nodes n1 ! i) = k"
    "wf_bconf d" "bn_key d = k"
  shows "bconf_view (set_sub n1 i d) = graft (bconf_view n) [k] (bconf_view d)"
proof
  fix q
  show "bconf_view (set_sub n1 i d) q = graft (bconf_view n) [k] (bconf_view d) q"
    using assms(3-5,8) child_set_sub [OF assms(1,7,2)] assms(6)
    by (cases q) (auto simp: graft_def)
qed

lemma graft_Cons:
  "graft m (k # ks) m' = graft m [k] (graft (\<lambda>q. m (k # q)) ks m')"
proof
  show "graft m (k # ks) m' q = graft m [k] (graft (\<lambda>q. m (k # q)) ks m') q" for q
    by (cases q) (auto simp: graft_def)
qed

lemma graft_same: "graft m ks (\<lambda>q. m (ks @ q)) = m"
  by (auto simp: graft_def fun_eq_iff) (metis append_take_drop_id)

lemma child_or_new_view: "bconf_view n (k # q) = bconf_view (child_or_new n k) q"
  by (auto simp: child_or_new_def split: option.splits)

lemma lookup_addv_from_ok:
  "wf_bconf n \<Longrightarrow> \<forall>k \<in> set ks. nul_free k \<Longrightarrow>
   \<exists>n' r. lookup_addv_from n ks = Inr (n', r) \<and> wf_bconf n' \<and> bconf_view n' = bconf_view n \<and>
     bn_key n' = bn_key n \<and> (r = None \<longleftrightarrow> blocked n ks) \<and> (\<forall>p. r = Some p \<longrightarrow> points_to n ks n' p)"
proof (induction ks arbitrary: n)
  case Nil
  then show ?case by (simp add: points_to_def)
next
  case (Cons k ks)
  show ?case
  proof (cases "is_leaf n")
    case True
    with Cons.prems show ?thesis by (simp add: get_node_leaf)
  next
    case False
    let ?c = "child_or_new n k"
    from Cons.prems have k: "nul_free k" and ks: "\<forall>k \<in> set ks. nul_free k" by auto
    obtain n1 i where g: "bconf_get_node n k = Inr (n1, Some i)" "wf_bconf n1"
      "i < length (bn_sub_nodes n1)" "bn_sub_nodes n1 ! i = ?c"
      "\<And>k'. child n1 k' = (if k' = k then Some ?c else child n k')"
      "bn_type n1 = NODE_LIST" "bn_key n1 = bn_key n" "bn_value n1 = bn_value n"
      by (rule get_node_inner [OF Cons.prems(1) k False]) (rule that)
    have nov: "bn_value n = None" using False is_leaf_value [OF Cons.prems(1)] by simp
    have wfc: "wf_bconf ?c" "bn_key ?c = k" using wf_child_or_new [OF Cons.prems(1) k] by auto
    from Cons.IH [OF wfc(1) ks] obtain c' r where
      "lookup_addv_from ?c ks = Inr (c', r) \<and> wf_bconf c' \<and> bconf_view c' = bconf_view ?c \<and>
       bn_key c' = bn_key ?c \<and> (r = None \<longleftrightarrow> blocked ?c ks) \<and> (\<forall>p. r = Some p \<longrightarrow> points_to ?c ks c' p)"
      by (elim exE)
    then have rec: "lookup_addv_from ?c ks = Inr (c', r)" "wf_bconf c'"
      "bconf_view c' = bconf_view ?c" "bn_key c' = k" "r = None \<longleftrightarrow> blocked ?c ks"
      and put: "\<And>p. r = Some p \<Longrightarrow> points_to ?c ks c' p"
      using wfc(2) by simp_all
    have key: "bn_key (bn_sub_nodes n1 ! i) = k" using g(4) wfc(2) by simp
    have view: "bconf_view (set_sub n1 i d) = graft (bconf_view n) [k] (bconf_view d)"
      if "wf_bconf d" "bn_key d = k" for d
      using g(5,8) nov key that by (intro view_set_sub [OF g(2,3)]) auto
    have wfs: "wf_bconf (set_sub n1 i d)" if "wf_bconf d" "bn_key d = k" for d
      using that key by (intro wf_set_sub [OF g(2) _ g(3)]) auto
    have pt: "points_to n (k # ks) (set_sub n1 i c') (i # p)" if "r = Some p" for p
    proof -
      note P = points_toD [OF put [OF that]]
      have sub: "bn_sub_nodes (set_sub n1 i c') ! i = c'" using g(3) by simp
      have set: "set_sub (set_sub n1 i c') i d = set_sub n1 i d" for d by (simp add: set_sub_def)
      have gr: "graft (bconf_view n) (k # ks) m =
          graft (bconf_view n) [k] (graft (bconf_view ?c) ks m)" for m
        by (subst graft_Cons) (simp only: child_or_new_view)
      have ch: "child (set_sub n1 i d) k = Some d" if "wf_bconf d" "bn_key d = k" for d
        using that key child_set_sub [OF g(2) that(1) g(3)] by simp
      show ?thesis
        unfolding points_to_def node_at.simps node_put.simps target.simps sub set descend.simps
        using P wfs view gr g(7) wfc(2) ch by simp
    qed
    have "bconf_view (set_sub n1 i c') = bconf_view n"
      using view [OF rec(2,4)] rec(3) graft_same [of "bconf_view n" "[k]"]
      by (simp del: bconf_view.simps add: child_or_new_view)
    moreover have "blocked n (k # ks) \<longleftrightarrow> blocked ?c ks"
      using False by (simp add: child_or_new_blocked)
    ultimately show ?thesis
      using g(1,4,7) rec(1,5) wfs [OF rec(2,4)] pt by (cases r) auto
  qed
qed

section \<open>Adding a value is a map update\<close>

lemma view_no_subs:
  "bn_sub_nodes n = [] \<Longrightarrow> bconf_view n = Map.empty([] := map_option (take (bn_vlen n)) (bn_value n))"
proof
  fix q
  assume "bn_sub_nodes n = []"
  then show "bconf_view n q = (Map.empty([] := map_option (take (bn_vlen n)) (bn_value n))) q"
    by (cases q) (auto simp: child_def)
qed

text \<open>What the callers of \<open>bconf_add_dataX\<close> pass: a text with its length, or a buffer to refer to.\<close>

definition data_ok :: "cstring \<Rightarrow> nat \<Rightarrow> bconf_dup \<Rightarrow> bool" where
  "data_ok v vlen dup = (vlen \<le> length v \<and> (dup \<noteq> BCONF_REF \<longrightarrow> vlen = length v \<and> nul_free v))"

lemma add_dataX_list: "bn_type n = NODE_LIST \<Longrightarrow> bconf_add_dataX pool n (Some v) vlen dup = Inr (n, -1)"
  by (simp add: bconf_add_dataX_def)

lemma add_dataX_ok:
  assumes wf: "wf_bconf n" and ok: "data_ok v vlen dup" and ty: "bn_type n \<noteq> NODE_LIST"
  obtains n' c where "bconf_add_dataX pool n (Some v) vlen dup = Inr (n', c)" "wf_bconf n'"
    "bn_key n' = bn_key n" "bconf_view n' = [[] \<mapsto> take vlen v]" "c = 0 \<or> c = 1"
    "c = 1 \<longleftrightarrow> dup \<noteq> BCONF_REF \<and> bn_type n = NODE_VAL \<and> bn_value n = Some v"
    "bn_vlen n' = vlen" "is_leaf n'"
    "dup \<noteq> BCONF_REF \<Longrightarrow> bn_type n \<noteq> NODE_BIN \<Longrightarrow> bn_value n' = Some v"
proof -
  have subs: "bn_sub_nodes n = []" using ty wf_list [OF wf] by blast
  let ?r = "bconf_add_dataX pool n (Some v) vlen dup"
  have val: "value_ok (bn_type n) (bn_value n) (bn_vlen n)" by (rule wf_value [OF wf])
  note res = that
  have build: thesis
    if "?r = Inr (Bconf_node (Some w) (bn_key n) (bn_klen n) vlen t (bn_sub_nodes n) (bn_star n) (bn_sublen n), c)"
      "take vlen w = take vlen v" "t = NODE_VAL \<and> w = v \<and> dup \<noteq> BCONF_REF \<or> t = NODE_BIN \<and> vlen \<le> length w"
      "c = (if dup \<noteq> BCONF_REF \<and> bn_type n = NODE_VAL \<and> bn_value n = Some v then 1 else 0)"
      "dup \<noteq> BCONF_REF \<and> bn_type n \<noteq> NODE_BIN \<longrightarrow> w = v" for w t c
  proof (rule res)
    let ?n = "Bconf_node (Some w) (bn_key n) (bn_klen n) vlen t (bn_sub_nodes n) (bn_star n) (bn_sublen n)"
    show "?r = Inr (?n, c)" by (rule that(1))
    show "wf_bconf ?n"
      using wf_klen [OF wf] wf_key_nul_free [OF wf] wf_star [OF wf] subs that(3) ok
      by (auto simp: value_ok_def data_ok_def)
  qed (use that(2-5) subs in \<open>auto simp: view_no_subs is_leaf_def\<close>)
  show thesis
  proof (cases "bn_type n")
    case NODE_NONE
    with ok show ?thesis
      by (cases dup; intro build [of _ _ 0]) (auto simp: bconf_add_dataX_def data_ok_def)
  next
    case NODE_VAL
    with val obtain old where old: "bn_value n = Some old" "nul_free old" "bn_vlen n = length old"
      by (auto simp: value_ok_def split: option.splits)
    have cmp: "dup \<noteq> BCONF_REF \<Longrightarrow> strcmp old v = 0 \<longleftrightarrow> old = v"
      using ok old(2) by (intro strcmp_eq) (auto simp: data_ok_def)
    show ?thesis
    proof (cases dup)
      case BCONF_REF
      with NODE_VAL ok show ?thesis
        by (intro build [of v NODE_BIN 0]) (auto simp: bconf_add_dataX_def data_ok_def)
    next
      case BCONF_DUP
      with NODE_VAL ok old cmp show ?thesis
        by (intro build [of v NODE_VAL "if old = v then 1 else 0"])
          (auto simp: bconf_add_dataX_def data_ok_def Let_def)
    next
      case BCONF_OWN
      with NODE_VAL ok old cmp show ?thesis
        by (intro build [of v NODE_VAL "if old = v then 1 else 0"])
          (auto simp: bconf_add_dataX_def data_ok_def Let_def)
    qed
  next
    case NODE_LIST
    with ty show ?thesis by simp
  next
    case NODE_BIN
    with val obtain old where old: "bn_value n = Some old" "bn_vlen n \<le> length old"
      by (auto simp: value_ok_def split: option.splits)
    show ?thesis
    proof (cases dup)
      case BCONF_REF
      with NODE_BIN ok show ?thesis
        by (intro build [of v NODE_BIN 0]) (auto simp: bconf_add_dataX_def data_ok_def)
    next
      case BCONF_DUP
      with NODE_BIN ok old show ?thesis
        by (intro build [of "if \<not> pool \<and> vlen \<le> bn_vlen n then v @ drop vlen old else v" NODE_BIN 0])
          (auto simp: bconf_add_dataX_def data_ok_def Let_def)
    next
      case BCONF_OWN
      with NODE_BIN ok old show ?thesis
        by (intro build [of v NODE_VAL 0]) (auto simp: bconf_add_dataX_def data_ok_def)
    qed
  qed
qed

lemma view_target: "bconf_view (target n ks) q = bconf_view n (ks @ q)"
  by (induction ks arbitrary: n) (auto simp: child_or_new_view simp del: bconf_view.simps(2))

lemma wf_target: "wf_bconf n \<Longrightarrow> \<forall>k \<in> set ks. nul_free k \<Longrightarrow> wf_bconf (target n ks)"
  by (induction ks arbitrary: n) (auto simp: wf_child_or_new)

lemma graft_leaf:
  assumes "\<And>q. q \<noteq> [] \<Longrightarrow> m (ks @ q) = None"
  shows "graft m ks [[] \<mapsto> v] = m(ks \<mapsto> v)"
proof
  fix q
  show "graft m ks [[] \<mapsto> v] q = (m(ks \<mapsto> v)) q"
  proof (cases "take (length ks) q = ks")
    case True
    then obtain r where "q = ks @ r" by (metis append_take_drop_id)
    with assms [of r] show ?thesis by (cases "r = []") (auto simp: graft_def)
  qed (auto simp: graft_def)
qed

text \<open>When a value at the path is refused: a value is in the way, or the path is a list.\<close>

definition add_conflict :: "bconf_node \<Rightarrow> cstring list \<Rightarrow> bool" where
  "add_conflict n ks = (blocked n ks \<or> bn_type (target n ks) = NODE_LIST)"

text \<open>The three outcomes of looking a path up and adding a value there.\<close>

lemma add_cases:
  assumes wf: "wf_bconf n" and ks: "\<forall>k \<in> set ks. nul_free k" and ok: "data_ok v vlen dup"
  obtains (blocked) n' where "blocked n ks" "lookup_addv_from n ks = Inr (n', None)"
      "wf_bconf n'" "bconf_view n' = bconf_view n"
  | (list) n' p where "\<not> blocked n ks" "bn_type (target n ks) = NODE_LIST"
      "lookup_addv_from n ks = Inr (n', Some p)" "wf_bconf n'" "bconf_view n' = bconf_view n"
      "bconf_add_dataX pool (node_at n' p) (Some v) vlen dup = Inr (node_at n' p, -1)"
      "wf_bconf (node_put n' p (node_at n' p))" "bconf_view (node_put n' p (node_at n' p)) = bconf_view n"
  | (added) n' p m c where "\<not> add_conflict n ks"
      "lookup_addv_from n ks = Inr (n', Some p)" "wf_bconf n'" "bconf_view n' = bconf_view n"
      "bconf_add_dataX pool (node_at n' p) (Some v) vlen dup = Inr (m, c)" "c = 0 \<or> c = 1"
      "wf_bconf (node_put n' p m)" "bconf_view (node_put n' p m) = (bconf_view n)(ks \<mapsto> take vlen v)"
      "bn_key (node_put n' p m) = bn_key n"
      "c = 1 \<longleftrightarrow> dup \<noteq> BCONF_REF \<and> bn_type (target n ks) = NODE_VAL \<and> bn_value (target n ks) = Some v"
      "\<exists>m'. descend (node_put n' p m) ks = Some m' \<and> bn_vlen m' = vlen \<and> is_leaf m' \<and>
         (dup \<noteq> BCONF_REF \<longrightarrow> bn_type (target n ks) \<noteq> NODE_BIN \<longrightarrow> bn_value m' = Some v)"
proof -
  from lookup_addv_from_ok [OF wf ks] obtain n' r where
    "lookup_addv_from n ks = Inr (n', r) \<and> wf_bconf n' \<and> bconf_view n' = bconf_view n \<and>
     bn_key n' = bn_key n \<and> (r = None \<longleftrightarrow> blocked n ks) \<and> (\<forall>p. r = Some p \<longrightarrow> points_to n ks n' p)"
    by (elim exE)
  then have lk: "lookup_addv_from n ks = Inr (n', r)" "wf_bconf n'" "bconf_view n' = bconf_view n"
    "r = None \<longleftrightarrow> blocked n ks" and pt: "\<And>p. r = Some p \<Longrightarrow> points_to n ks n' p" by simp_all
  have wft: "wf_bconf (target n ks)" by (rule wf_target [OF wf ks])
  show thesis
  proof (cases r)
    case None
    with lk blocked show ?thesis by simp
  next
    case (Some p)
    note P = points_toD [OF pt [OF Some]]
    show ?thesis
    proof (cases "bn_type (target n ks) = NODE_LIST")
      case True
      have "graft (bconf_view n) ks (bconf_view (target n ks)) = bconf_view n"
        using graft_same [of "bconf_view n" ks] by (simp add: view_target [abs_def])
      with True P(2,4) [OF wft refl] lk Some list show ?thesis
        by (simp add: P(1) add_dataX_list)
    next
      case False
      obtain m c where m: "bconf_add_dataX pool (target n ks) (Some v) vlen dup = Inr (m, c)"
        "wf_bconf m" "bn_key m = bn_key (target n ks)" "bconf_view m = [[] \<mapsto> take vlen v]" "c = 0 \<or> c = 1"
        "c = 1 \<longleftrightarrow> dup \<noteq> BCONF_REF \<and> bn_type (target n ks) = NODE_VAL \<and> bn_value (target n ks) = Some v"
        "bn_vlen m = vlen" "is_leaf m"
        "dup \<noteq> BCONF_REF \<Longrightarrow> bn_type (target n ks) \<noteq> NODE_BIN \<Longrightarrow> bn_value m = Some v"
        by (rule add_dataX_ok [OF wft ok False]) (rule that)
      have "bn_sub_nodes (target n ks) = []" using wf_list [OF wft] False by blast
      then have "bconf_view n (ks @ q) = None" if "q \<noteq> []" for q
        using view_no_subs [of "target n ks"] that by (simp flip: view_target)
      then have "graft (bconf_view n) ks (bconf_view m) = (bconf_view n)(ks \<mapsto> take vlen v)"
        using m(4) by (simp add: graft_leaf)
      with P(2-5) [OF m(2,3)] m lk Some False added show ?thesis
        by (simp add: P(1) add_conflict_def)
    qed
  qed
qed

section \<open>Dotted keys are key vectors\<close>

function split_key :: "cstring \<Rightarrow> cstring list" where
  "split_key key = key_head key # (case key_rest key of [] \<Rightarrow> [] | _ # r \<Rightarrow> split_key r)"
  by pat_completeness auto
termination
  by (relation "measure length") (auto simp: key_rest_length)

declare split_key.simps [simp del]

lemma split_key_not_Nil: "split_key key \<noteq> []"
  by (subst split_key.simps) simp

lemma set_sub_same: "set_sub n i (bn_sub_nodes n ! i) = n"
  by (simp add: set_sub_def)

lemma lookup_add_from_split: "lookup_add_from n key = lookup_addv_from n (split_key key)"
proof (induction n key rule: lookup_add_from.induct)
  case (1 n key)
  show ?case
    by (subst lookup_add_from.simps, subst split_key.simps)
      (auto simp: set_sub_same 1 split: sum.splits option.splits list.splits prod.splits)
qed

lemma lookup_add_split: "bconf_lookup_add root key = bconf_lookup_addv root (split_key key)"
  by (simp add: bconf_lookup_add_def bconf_lookup_addv_def lookup_add_from_split)

lemma nul_free_split_key: "nul_free key \<Longrightarrow> \<forall>k \<in> set (split_key key). nul_free k"
proof (induction key rule: split_key.induct)
  case (1 key)
  have h: "nul_free (key_head key)"
    using 1(2) by (auto simp: key_head_def nul_free_def dest: set_takeWhileD)
  have r: "nul_free (key_rest key)"
    using 1(2) by (auto simp: key_rest_def nul_free_def dest: set_dropWhileD)
  show ?case
  proof (cases "key_rest key")
    case Nil
    with h show ?thesis by (subst split_key.simps) simp
  next
    case (Cons c r')
    with r h 1(1) [OF Cons] show ?thesis by (subst split_key.simps) simp
  qed
qed

section \<open>Lookups with the wildcard\<close>

text \<open>The contract of \<open>bconf_get\<close>: at every level the child of the key, or else the child \<open>*\<close>.\<close>

definition wild_child :: "bconf_node \<Rightarrow> cstring \<Rightarrow> bconf_node option" where
  "wild_child n k = (case child n k of Some c \<Rightarrow> Some c | None \<Rightarrow> child n ''*'')"

fun wild_descend :: "bconf_node \<Rightarrow> cstring list \<Rightarrow> bconf_node option" where
  "wild_descend n [] = Some n"
| "wild_descend n (k # ks) =
     (case wild_child n k of None \<Rightarrow> None | Some c \<Rightarrow> wild_descend c ks)"

lemma star_node_child: "wf_bconf n \<Longrightarrow> star_node n = child n ''*''"
  using child_None [of n "''*''"] by (auto simp: star_node_def wf_star child_def)

lemma get_step_wild:
  "wf_bconf n \<Longrightarrow> nul_free k \<Longrightarrow> get_step n k = wild_child n k"
  using node_search_child [of n k]
  by (cases "node_search n k") (auto simp: get_step_def wild_child_def star_node_child split: option.splits)

lemma wf_wild_child: "wf_bconf n \<Longrightarrow> wild_child n k = Some c \<Longrightarrow> wf_bconf c"
  by (auto simp: wild_child_def wf_child split: option.splits)

lemma get_from_wild:
  "wf_bconf n \<Longrightarrow> \<forall>k \<in> set (split_key key). nul_free k \<Longrightarrow>
     get_from n key = wild_descend n (split_key key)"
proof (induction n key rule: get_from.induct)
  case (1 n key)
  then have h: "nul_free (key_head key)" by (subst (asm) split_key.simps) simp
  have step: "get_step n (key_head key) = wild_child n (key_head key)"
    by (rule get_step_wild [OF 1(2) h])
  show ?case
  proof (cases "wild_child n (key_head key)")
    case None
    then show ?thesis by (subst get_from.simps, subst split_key.simps) (simp add: step)
  next
    case (Some c)
    have wfc: "wf_bconf c" by (rule wf_wild_child [OF 1(2) Some])
    have "\<forall>k \<in> set (split_key r). nul_free k" if "key_rest key = d # r" for d r
      using 1(3) that by (subst (asm) split_key.simps) simp
    with 1(1) [of c] step Some wfc show ?thesis
      by (subst get_from.simps, subst split_key.simps) (auto split: list.splits)
  qed
qed

lemma bconf_get_wild:
  "wf_bconf n \<Longrightarrow> nul_free key \<Longrightarrow>
     bconf_get (Some n) (Some key) = wild_descend n (split_key key)"
  by (simp add: bconf_get_def get_from_wild nul_free_split_key)

lemma descend_wild: "descend n ks = Some c \<Longrightarrow> wild_descend n ks = Some c"
  by (induction ks arbitrary: n) (auto simp: wild_child_def split: option.splits)

end
