(* ===== verification/Vtree.thy ===== *)
theory Vtree
  imports Bconf
begin

text \<open>
  The vtree abstraction of \<open>vtree/lib/vtree.c\<close>: read access to a tree of values through a table
  of methods (\<open>struct vtree_dispatch\<close>). This theory holds the data, the caching entry points, the
  shadow tree (an overlay of one tree over another) and the prefix tree.

  Conventions of the model. A \<open>struct vtree_chain\<close> is a value of \<open>vtree_chain\<close>: the constructor
  is the table its \<open>fun\<close> points to, the arguments are what its \<open>data\<close> and \<open>next\<close> point to. A method
  takes the value of \<open>*cc\<close> and the argument vector and returns its result with the new \<open>*cc\<close>;
  \<open>None\<close> is a call or a read through a \<open>NULL\<close> pointer. A method that calls methods of another
  chain has those as arguments (\<open>None\<close> when the chain or its table is \<open>NULL\<close>); the dispatch that
  ties them is in the theory of the dispatch. The vectors of the loop methods may hold the marker
  \<open>VTREE_LOOP\<close>, at most once. The cleanup callbacks are memory management and not part of a result.
\<close>

section \<open>Data\<close>

datatype vtree_cacheable = VTCACHE_CANT | VTCACHE_UNKNOWN | VTCACHE_CAN | VTCACHE_USED

text \<open>The order of the enumeration, by increased cacheability.\<close>

fun cc_level :: "vtree_cacheable \<Rightarrow> nat" where
  "cc_level VTCACHE_CANT = 0"
| "cc_level VTCACHE_UNKNOWN = 1"
| "cc_level VTCACHE_CAN = 2"
| "cc_level VTCACHE_USED = 3"

instantiation vtree_cacheable :: linorder
begin

definition less_eq_vtree_cacheable :: "vtree_cacheable \<Rightarrow> vtree_cacheable \<Rightarrow> bool" where
  "less_eq_vtree_cacheable a b = (cc_level a \<le> cc_level b)"

definition less_vtree_cacheable :: "vtree_cacheable \<Rightarrow> vtree_cacheable \<Rightarrow> bool" where
  "less_vtree_cacheable a b = (cc_level a < cc_level b)"

instance
proof
  fix x y z :: vtree_cacheable
  show "(x < y) = (x \<le> y \<and> \<not> y \<le> x)" "x \<le> x"
    by (auto simp: less_eq_vtree_cacheable_def less_vtree_cacheable_def)
  show "x \<le> y \<Longrightarrow> y \<le> z \<Longrightarrow> x \<le> z" "x \<le> y \<or> y \<le> x"
    by (auto simp: less_eq_vtree_cacheable_def)
  show "x \<le> y \<Longrightarrow> y \<le> x \<Longrightarrow> x = y"
    by (cases x; cases y) (auto simp: less_eq_vtree_cacheable_def)
qed

end

datatype varg = Key cstring | VTREE_LOOP

datatype vtree_keyvals_type = vktUnknown | vktDict | vktList

datatype vtree_chain =
    VT_null
  | VT_bconf_node "bconf_node option"
  | VT_bconf "bconf_node option" "bconf_node option" vtree_cacheable
  | VT_shadow "vtree_chain option" "vtree_chain option"
  | VT_prefix cstring "vtree_chain option"
  | VT_literal vtree_keyvals
  | VT_value "cstring option"
  and vtree_keyvals = Keyvals (kv_type: vtree_keyvals_type) (kv_list: "kv_elem list")
  and kv_elem = Kv_elem (kv_key: "cstring option") (kv_val: kv_value)
  and kv_value = vkvNone | vkvValue cstring | vkvNode vtree_chain

type_synonym 'a vres = "('a \<times> vtree_cacheable) option"
type_synonym 'a meth = "vtree_cacheable \<Rightarrow> cstring list \<Rightarrow> 'a vres"
type_synonym 'a loop_meth = "vtree_cacheable \<Rightarrow> varg list \<Rightarrow> 'a vres"

text \<open>The method of a chain a pointer leads to: \<open>None\<close> when the pointer or the table is \<open>NULL\<close>.\<close>

definition sub_meth :: "(vtree_chain \<Rightarrow> 'm) \<Rightarrow> vtree_chain option \<Rightarrow> 'm option" where
  "sub_meth f c = (case c of None \<Rightarrow> None | Some v \<Rightarrow> if v = VT_null then None else Some (f v))"

lemma sub_meth_cong [fundef_cong]:
  "c = c' \<Longrightarrow> (\<And>v. c' = Some v \<Longrightarrow> v \<noteq> VT_null \<Longrightarrow> f v = g v) \<Longrightarrow> sub_meth f c = sub_meth g c'"
  by (auto simp: sub_meth_def split: option.splits)

section \<open>The argument vector\<close>

text \<open>
  \<open>VTREE_ARGS_COPY\<close>: \<open>va\<close> are the arguments before the closing \<open>NULL\<close>. The loop over \<open>argc\<close> and
  the capacity \<open>VAC_max\<close> returns the final \<open>argc\<close>; the result is \<open>None\<close> when it reads an argument
  behind the closing \<open>NULL\<close>, which is undefined.
\<close>

function vac_loop :: "'a list \<Rightarrow> nat \<Rightarrow> nat \<Rightarrow> nat option" where
  "vac_loop va argc vac_max =
     (if argc > length va then None
      else if argc < length va \<and> argc + 1 < vac_max then vac_loop va (argc + 1) vac_max
      else if argc + 1 < vac_max then Some argc
      else vac_loop va (argc + 1) (2 * vac_max))"
  by pat_completeness auto
termination
  by (relation "measure (\<lambda>(va, argc, m). length va + 1 - argc)") auto

declare vac_loop.simps [simp del]

definition vtree_args :: "'a list \<Rightarrow> 'a list option" where
  "vtree_args va = map_option (\<lambda>argc. take argc va) (vac_loop va 0 8)"

section \<open>Entry points\<close>

text \<open>The chain an entry point works on, if any, and the update of the caller's \<open>*cc\<close>.\<close>

definition live :: "vtree_chain option \<Rightarrow> vtree_chain option" where
  "live vchain = (case vchain of None \<Rightarrow> None | Some v \<Rightarrow> if v = VT_null then None else Some v)"

definition cc_lower :: "vtree_cacheable option \<Rightarrow> vtree_cacheable \<Rightarrow> vtree_cacheable option" where
  "cc_lower cc c = (case cc of None \<Rightarrow> None | Some old \<Rightarrow> Some (if c < old then c else old))"

definition vtree_getlen_cachev ::
  "(vtree_chain \<Rightarrow> nat meth) \<Rightarrow> vtree_chain option \<Rightarrow> vtree_cacheable option \<Rightarrow> int option \<Rightarrow>
     cstring list \<Rightarrow> (int \<times> vtree_cacheable option \<times> int option) option" where
  "vtree_getlen_cachev bpv_getlen vchain cc cache argv =
     (case live vchain of
        None \<Rightarrow> Some (0, cc, cache)
      | Some v \<Rightarrow>
          if cache \<noteq> None \<and> 0 \<le> the cache then Some (the cache, cc, cache)
          else case bpv_getlen v VTCACHE_CAN argv of
                 None \<Rightarrow> None
               | Some (res, c) \<Rightarrow>
                   Some (int res, cc_lower cc c,
                         if cache \<noteq> None \<and> c = VTCACHE_CAN then Some (int res) else cache))"

definition vtree_getlen_cache ::
  "(vtree_chain \<Rightarrow> nat meth) \<Rightarrow> vtree_chain option \<Rightarrow> vtree_cacheable option \<Rightarrow> int option \<Rightarrow>
     cstring list \<Rightarrow> (int \<times> vtree_cacheable option \<times> int option) option" where
  "vtree_getlen_cache bpv_getlen vchain cc cache va =
     (case live vchain of
        None \<Rightarrow> Some (0, cc, cache)
      | Some v \<Rightarrow>
          if cache \<noteq> None \<and> 0 \<le> the cache then Some (the cache, cc, cache)
          else case vtree_args va of
                 None \<Rightarrow> None
               | Some argv \<Rightarrow>
                   (case bpv_getlen v VTCACHE_CAN argv of
                      None \<Rightarrow> None
                    | Some (res, c) \<Rightarrow>
                        Some (int res, cc_lower cc c,
                              if cache \<noteq> None \<and> c = VTCACHE_CAN then Some (int res) else cache)))"

text \<open>The cache of \<open>vtree_get\<close> is a pointer to a string pointer, \<open>NULL\<close> when nothing is cached.\<close>

definition vtree_get_cachev ::
  "(vtree_chain \<Rightarrow> cstring option meth) \<Rightarrow> vtree_chain option \<Rightarrow> vtree_cacheable option \<Rightarrow>
     cstring option option \<Rightarrow> cstring list \<Rightarrow>
     (cstring option \<times> vtree_cacheable option \<times> cstring option option) option" where
  "vtree_get_cachev bpv_get vchain cc cache argv =
     (case live vchain of
        None \<Rightarrow> Some (None, cc, cache)
      | Some v \<Rightarrow>
          if cache \<noteq> None \<and> the cache \<noteq> None then Some (the cache, cc, cache)
          else case bpv_get v VTCACHE_CAN argv of
                 None \<Rightarrow> None
               | Some (res, c) \<Rightarrow>
                   Some (res, cc_lower cc c,
                         if cache \<noteq> None \<and> c = VTCACHE_CAN then Some res else cache))"

definition vtree_get_cache ::
  "(vtree_chain \<Rightarrow> cstring option meth) \<Rightarrow> vtree_chain option \<Rightarrow> vtree_cacheable option \<Rightarrow>
     cstring option option \<Rightarrow> cstring list \<Rightarrow>
     (cstring option \<times> vtree_cacheable option \<times> cstring option option) option" where
  "vtree_get_cache bpv_get vchain cc cache va =
     (case live vchain of
        None \<Rightarrow> Some (None, cc, cache)
      | Some v \<Rightarrow>
          if cache \<noteq> None \<and> the cache \<noteq> None then Some (the cache, cc, cache)
          else case vtree_args va of
                 None \<Rightarrow> None
               | Some argv \<Rightarrow>
                   (case bpv_get v VTCACHE_CAN argv of
                      None \<Rightarrow> None
                    | Some (res, c) \<Rightarrow>
                        Some (res, cc_lower cc c,
                              if cache \<noteq> None \<and> c = VTCACHE_CAN then Some res else cache)))"

text \<open>The cache of \<open>vtree_getint\<close> holds 0 when nothing is cached.\<close>

definition vtree_getint_cachev ::
  "(vtree_chain \<Rightarrow> cstring option meth) \<Rightarrow> vtree_chain option \<Rightarrow> vtree_cacheable option \<Rightarrow>
     int option \<Rightarrow> cstring list \<Rightarrow> (int \<times> vtree_cacheable option \<times> int option) option" where
  "vtree_getint_cachev bpv_get vchain cc cache argv =
     (case live vchain of
        None \<Rightarrow> Some (0, cc, cache)
      | Some v \<Rightarrow>
          if cache \<noteq> None \<and> the cache \<noteq> 0 then Some (the cache, cc, cache)
          else case bpv_get v VTCACHE_CAN argv of
                 None \<Rightarrow> None
               | Some (res, c) \<Rightarrow>
                   (let ri = (case res of Some s \<Rightarrow> atoi s | None \<Rightarrow> 0)
                    in Some (ri, cc_lower cc c,
                             if cache \<noteq> None \<and> c = VTCACHE_CAN then Some ri else cache)))"

definition vtree_getint_cache ::
  "(vtree_chain \<Rightarrow> cstring option meth) \<Rightarrow> vtree_chain option \<Rightarrow> vtree_cacheable option \<Rightarrow>
     int option \<Rightarrow> cstring list \<Rightarrow> (int \<times> vtree_cacheable option \<times> int option) option" where
  "vtree_getint_cache bpv_get vchain cc cache va =
     (case live vchain of
        None \<Rightarrow> Some (0, cc, cache)
      | Some v \<Rightarrow>
          if cache \<noteq> None \<and> the cache \<noteq> 0 then Some (the cache, cc, cache)
          else case vtree_args va of
                 None \<Rightarrow> None
               | Some argv \<Rightarrow>
                   (case bpv_get v VTCACHE_CAN argv of
                      None \<Rightarrow> None
                    | Some (res, c) \<Rightarrow>
                        (let ri = (case res of Some s \<Rightarrow> atoi s | None \<Rightarrow> 0)
                         in Some (ri, cc_lower cc c,
                                  if cache \<noteq> None \<and> c = VTCACHE_CAN then Some ri else cache))))"

text \<open>\<open>haskey\<close> returns 0 or 1; its cache holds a negative number when nothing is cached.\<close>

definition vtree_haskey_cachev ::
  "(vtree_chain \<Rightarrow> int meth) \<Rightarrow> vtree_chain option \<Rightarrow> vtree_cacheable option \<Rightarrow> int option \<Rightarrow>
     cstring list \<Rightarrow> (int \<times> vtree_cacheable option \<times> int option) option" where
  "vtree_haskey_cachev bpv_haskey vchain cc cache argv =
     (case live vchain of
        None \<Rightarrow> Some (0, cc, cache)
      | Some v \<Rightarrow>
          if cache \<noteq> None \<and> 0 \<le> the cache then Some (the cache, cc, cache)
          else case bpv_haskey v VTCACHE_CAN argv of
                 None \<Rightarrow> None
               | Some (res, c) \<Rightarrow>
                   Some (res, cc_lower cc c,
                         if cache \<noteq> None \<and> c = VTCACHE_CAN then Some res else cache))"

definition vtree_haskey_cache ::
  "(vtree_chain \<Rightarrow> int meth) \<Rightarrow> vtree_chain option \<Rightarrow> vtree_cacheable option \<Rightarrow> int option \<Rightarrow>
     cstring list \<Rightarrow> (int \<times> vtree_cacheable option \<times> int option) option" where
  "vtree_haskey_cache bpv_haskey vchain cc cache va =
     (case live vchain of
        None \<Rightarrow> Some (0, cc, cache)
      | Some v \<Rightarrow>
          if cache \<noteq> None \<and> 0 \<le> the cache then Some (the cache, cc, cache)
          else case vtree_args va of
                 None \<Rightarrow> None
               | Some argv \<Rightarrow>
                   (case bpv_haskey v VTCACHE_CAN argv of
                      None \<Rightarrow> None
                    | Some (res, c) \<Rightarrow>
                        Some (res, cc_lower cc c,
                              if cache \<noteq> None \<and> c = VTCACHE_CAN then Some res else cache)))"

text \<open>
  The loop variable a fetch fills is the list of its strings (or of its nodes); it is empty when
  it is cleared.
\<close>

definition vtree_fetch_keys_cachev ::
  "(vtree_chain \<Rightarrow> (cstring option list) meth) \<Rightarrow> vtree_chain option \<Rightarrow> vtree_cacheable option \<Rightarrow> cstring list \<Rightarrow>
     (cstring option list \<times> vtree_cacheable option) option" where
  "vtree_fetch_keys_cachev bpv_fetch_keys vchain cc argv =
     (case live vchain of
        None \<Rightarrow> Some ([], cc)
      | Some v \<Rightarrow>
          (case bpv_fetch_keys v VTCACHE_CAN argv of
             None \<Rightarrow> None
           | Some (loop, c) \<Rightarrow> Some (loop, cc_lower cc c)))"

definition vtree_fetch_keys_cache ::
  "(vtree_chain \<Rightarrow> (cstring option list) meth) \<Rightarrow> vtree_chain option \<Rightarrow> vtree_cacheable option \<Rightarrow> cstring list \<Rightarrow>
     (cstring option list \<times> vtree_cacheable option) option" where
  "vtree_fetch_keys_cache bpv_fetch_keys vchain cc va =
     (case live vchain of
        None \<Rightarrow> Some ([], cc)
      | Some v \<Rightarrow>
          (case vtree_args va of
             None \<Rightarrow> None
           | Some argv \<Rightarrow>
               (case bpv_fetch_keys v VTCACHE_CAN argv of
                  None \<Rightarrow> None
                | Some (loop, c) \<Rightarrow> Some (loop, cc_lower cc c))))"

definition vtree_fetch_values_cachev ::
  "(vtree_chain \<Rightarrow> (cstring option list) loop_meth) \<Rightarrow> vtree_chain option \<Rightarrow> vtree_cacheable option \<Rightarrow> varg list \<Rightarrow>
     (cstring option list \<times> vtree_cacheable option) option" where
  "vtree_fetch_values_cachev bpv_fetch_values vchain cc argv =
     (case live vchain of
        None \<Rightarrow> Some ([], cc)
      | Some v \<Rightarrow>
          (case bpv_fetch_values v VTCACHE_CAN argv of
             None \<Rightarrow> None
           | Some (loop, c) \<Rightarrow> Some (loop, cc_lower cc c)))"

definition vtree_fetch_values_cache ::
  "(vtree_chain \<Rightarrow> (cstring option list) loop_meth) \<Rightarrow> vtree_chain option \<Rightarrow> vtree_cacheable option \<Rightarrow> varg list \<Rightarrow>
     (cstring option list \<times> vtree_cacheable option) option" where
  "vtree_fetch_values_cache bpv_fetch_values vchain cc va =
     (case live vchain of
        None \<Rightarrow> Some ([], cc)
      | Some v \<Rightarrow>
          (case vtree_args va of
             None \<Rightarrow> None
           | Some argv \<Rightarrow>
               (case bpv_fetch_values v VTCACHE_CAN argv of
                  None \<Rightarrow> None
                | Some (loop, c) \<Rightarrow> Some (loop, cc_lower cc c))))"

definition vtree_fetch_keys_by_value_cachev ::
  "(vtree_chain \<Rightarrow> cstring \<Rightarrow> (cstring option list) loop_meth) \<Rightarrow> vtree_chain option \<Rightarrow> vtree_cacheable option \<Rightarrow> cstring \<Rightarrow> varg list \<Rightarrow>
     (cstring option list \<times> vtree_cacheable option) option" where
  "vtree_fetch_keys_by_value_cachev bpv_fetch_byval vchain cc value argv =
     (case live vchain of
        None \<Rightarrow> Some ([], cc)
      | Some v \<Rightarrow>
          (case bpv_fetch_byval v value VTCACHE_CAN argv of
             None \<Rightarrow> None
           | Some (loop, c) \<Rightarrow> Some (loop, cc_lower cc c)))"

definition vtree_fetch_keys_by_value_cache ::
  "(vtree_chain \<Rightarrow> cstring \<Rightarrow> (cstring option list) loop_meth) \<Rightarrow> vtree_chain option \<Rightarrow> vtree_cacheable option \<Rightarrow> cstring \<Rightarrow> varg list \<Rightarrow>
     (cstring option list \<times> vtree_cacheable option) option" where
  "vtree_fetch_keys_by_value_cache bpv_fetch_byval vchain cc value va =
     (case live vchain of
        None \<Rightarrow> Some ([], cc)
      | Some v \<Rightarrow>
          (case vtree_args va of
             None \<Rightarrow> None
           | Some argv \<Rightarrow>
               (case bpv_fetch_byval v value VTCACHE_CAN argv of
                  None \<Rightarrow> None
                | Some (loop, c) \<Rightarrow> Some (loop, cc_lower cc c))))"

definition vtree_fetch_nodes_cachev ::
  "(vtree_chain \<Rightarrow> (vtree_chain list) meth) \<Rightarrow> vtree_chain option \<Rightarrow> vtree_cacheable option \<Rightarrow> cstring list \<Rightarrow>
     (vtree_chain list \<times> vtree_cacheable option) option" where
  "vtree_fetch_nodes_cachev bpv_fetch_nodes vchain cc argv =
     (case live vchain of
        None \<Rightarrow> Some ([], cc)
      | Some v \<Rightarrow>
          (case bpv_fetch_nodes v VTCACHE_CAN argv of
             None \<Rightarrow> None
           | Some (loop, c) \<Rightarrow> Some (loop, cc_lower cc c)))"

definition vtree_fetch_nodes_cache ::
  "(vtree_chain \<Rightarrow> (vtree_chain list) meth) \<Rightarrow> vtree_chain option \<Rightarrow> vtree_cacheable option \<Rightarrow> cstring list \<Rightarrow>
     (vtree_chain list \<times> vtree_cacheable option) option" where
  "vtree_fetch_nodes_cache bpv_fetch_nodes vchain cc va =
     (case live vchain of
        None \<Rightarrow> Some ([], cc)
      | Some v \<Rightarrow>
          (case vtree_args va of
             None \<Rightarrow> None
           | Some argv \<Rightarrow>
               (case bpv_fetch_nodes v VTCACHE_CAN argv of
                  None \<Rightarrow> None
                | Some (loop, c) \<Rightarrow> Some (loop, cc_lower cc c))))"

text \<open>Clearing a \<open>vtree_keyvals\<close> leaves its type as it was; the type of an empty list is not read.\<close>

definition clear_vtree_loop_var :: vtree_keyvals where
  "clear_vtree_loop_var = Keyvals vktUnknown []"

definition vtree_fetch_keys_and_values_cachev ::
  "(vtree_chain \<Rightarrow> vtree_keyvals loop_meth) \<Rightarrow> vtree_chain option \<Rightarrow> vtree_cacheable option \<Rightarrow> varg list \<Rightarrow>
     (vtree_keyvals \<times> vtree_cacheable option) option" where
  "vtree_fetch_keys_and_values_cachev bpv_fetch_keys_and_values vchain cc argv =
     (case live vchain of
        None \<Rightarrow> Some (clear_vtree_loop_var, cc)
      | Some v \<Rightarrow>
          (case bpv_fetch_keys_and_values v VTCACHE_CAN argv of
             None \<Rightarrow> None
           | Some (loop, c) \<Rightarrow> Some (loop, cc_lower cc c)))"

definition vtree_fetch_keys_and_values_cache ::
  "(vtree_chain \<Rightarrow> vtree_keyvals loop_meth) \<Rightarrow> vtree_chain option \<Rightarrow> vtree_cacheable option \<Rightarrow> varg list \<Rightarrow>
     (vtree_keyvals \<times> vtree_cacheable option) option" where
  "vtree_fetch_keys_and_values_cache bpv_fetch_keys_and_values vchain cc va =
     (case live vchain of
        None \<Rightarrow> Some (clear_vtree_loop_var, cc)
      | Some v \<Rightarrow>
          (case vtree_args va of
             None \<Rightarrow> None
           | Some argv \<Rightarrow>
               (case bpv_fetch_keys_and_values v VTCACHE_CAN argv of
                  None \<Rightarrow> None
                | Some (loop, c) \<Rightarrow> Some (loop, cc_lower cc c))))"

text \<open>
  \<open>vtree_getnode\<close>: the node is written to \<open>*dst\<close>, which is freed before. \<open>dst\<close> in the result is
  what \<open>*dst\<close> holds afterwards, \<open>None\<close> when that was freed and not written again. The cache holds
  \<open>NULL\<close>, the marker -1 for a node that is not there (\<open>Some None\<close>), or the node.
\<close>

definition free_dst :: "vtree_chain \<Rightarrow> vtree_chain option" where
  "free_dst dst = (if dst = VT_null then Some VT_null else None)"

definition vtree_getnode_cachev ::
  "(vtree_chain \<Rightarrow> vtree_chain option meth) \<Rightarrow> vtree_chain option \<Rightarrow> vtree_cacheable option \<Rightarrow> vtree_chain \<Rightarrow>
     vtree_chain option option option \<Rightarrow> cstring list \<Rightarrow>
     (vtree_chain option \<times> vtree_cacheable option \<times> vtree_chain option option option \<times> vtree_chain option) option" where
  "vtree_getnode_cachev bpv_getnode vchain cc dst cache argv =
     (case live vchain of
        None \<Rightarrow> Some (None, cc, cache, Some dst)
      | Some v \<Rightarrow>
          (case cache of
             Some (Some cached) \<Rightarrow> Some (cached, cc, cache, Some dst)
           | _ \<Rightarrow>
               (case bpv_getnode v VTCACHE_CAN argv of
                  None \<Rightarrow> None
                | Some (res, c) \<Rightarrow>
                    Some (res, cc_lower cc c,
                          if cache \<noteq> None \<and> c = VTCACHE_CAN then Some (Some res) else cache,
                          case res of Some n \<Rightarrow> Some n | None \<Rightarrow> free_dst dst))))"

definition vtree_getnode_cache ::
  "(vtree_chain \<Rightarrow> vtree_chain option meth) \<Rightarrow> vtree_chain option \<Rightarrow> vtree_cacheable option \<Rightarrow> vtree_chain \<Rightarrow>
     vtree_chain option option option \<Rightarrow> cstring list \<Rightarrow>
     (vtree_chain option \<times> vtree_cacheable option \<times> vtree_chain option option option \<times> vtree_chain option) option" where
  "vtree_getnode_cache bpv_getnode vchain cc dst cache va =
     (case live vchain of
        None \<Rightarrow> Some (None, cc, cache, Some dst)
      | Some v \<Rightarrow>
          (case cache of
             Some (Some cached) \<Rightarrow> Some (cached, cc, cache, Some dst)
           | _ \<Rightarrow>
               (case vtree_args va of
                  None \<Rightarrow> None
                | Some argv \<Rightarrow>
                    (case bpv_getnode v VTCACHE_CAN argv of
                       None \<Rightarrow> None
                     | Some (res, c) \<Rightarrow>
                         Some (res, cc_lower cc c,
                               if cache \<noteq> None \<and> c = VTCACHE_CAN then Some (Some res) else cache,
                               case res of Some n \<Rightarrow> Some n | None \<Rightarrow> Some VT_null)))))"

section \<open>The shadow tree\<close>

text \<open>
  In each method \<open>subtree\<close> is the method of the subtree in \<open>data\<close>, \<open>next\<close> that of the chain below.
  A call through \<open>next\<close> is a crash when there is none. The operands of the sum in \<open>getlen\<close> are
  evaluated from left to right.
\<close>

definition call :: "(vtree_cacheable \<Rightarrow> 'b \<Rightarrow> 'a vres) option \<Rightarrow> vtree_cacheable \<Rightarrow> 'b \<Rightarrow> 'a vres" where
  "call m cc argv = (case m of None \<Rightarrow> None | Some f \<Rightarrow> f cc argv)"

definition shadow_vtree_getlen :: "nat meth option \<Rightarrow> nat meth option \<Rightarrow> nat meth" where
  "shadow_vtree_getlen subtree next cc argv =
     (let bottom = (\<lambda>cc. case call next cc argv of
                           None \<Rightarrow> None
                         | Some (res, cc') \<Rightarrow> Some (res, if res = 0 then VTCACHE_UNKNOWN else cc'))
      in case subtree of
           None \<Rightarrow> bottom cc
         | Some getlen \<Rightarrow>
             if argv = [] then
               (case getlen VTCACHE_CANT argv of
                  None \<Rightarrow> None
                | Some (l1, cc1) \<Rightarrow>
                    (case call next cc1 argv of
                       None \<Rightarrow> None
                     | Some (l2, cc2) \<Rightarrow> Some (l1 + l2, cc2)))
             else
               (case getlen cc argv of
                  None \<Rightarrow> None
                | Some (res, cc1) \<Rightarrow> if res \<noteq> 0 then Some (res, VTCACHE_CANT) else bottom cc1))"

definition shadow_vtree_get ::
  "cstring option meth option \<Rightarrow> cstring option meth option \<Rightarrow> cstring option meth" where
  "shadow_vtree_get subtree next cc argv =
     (let bottom = (\<lambda>cc. case next of
                           None \<Rightarrow> Some (None, VTCACHE_UNKNOWN)
                         | Some get \<Rightarrow>
                             (case get cc argv of
                                None \<Rightarrow> None
                              | Some (res, cc') \<Rightarrow>
                                  Some (res, if res = None then VTCACHE_UNKNOWN else cc')))
      in case subtree of
           None \<Rightarrow> bottom cc
         | Some get \<Rightarrow>
             if argv = [] then Some (None, cc)
             else
               (case get cc argv of
                  None \<Rightarrow> None
                | Some (res, cc1) \<Rightarrow> if res \<noteq> None then Some (res, VTCACHE_CANT) else bottom cc1))"

definition shadow_vtree_haskey :: "int meth option \<Rightarrow> int meth option \<Rightarrow> int meth" where
  "shadow_vtree_haskey subtree next cc argv =
     (let bottom = (\<lambda>cc. case call next cc argv of
                           None \<Rightarrow> None
                         | Some (res, cc') \<Rightarrow> Some (res, if res = 0 then VTCACHE_UNKNOWN else cc'))
      in case subtree of
           None \<Rightarrow> bottom cc
         | Some haskey \<Rightarrow>
             if argv = [] then Some (0, cc)
             else
               (case haskey cc argv of
                  None \<Rightarrow> None
                | Some (res, cc1) \<Rightarrow> if res \<noteq> 0 then Some (1, VTCACHE_CANT) else bottom cc1))"

text \<open>
  \<open>qsort\<close> with \<open>strcmpp\<close>, as a sort by insertion, and the merge loop, which stops at the end of
  the shorter list. \<open>strcmp\<close> reads through a key that is \<open>NULL\<close>: sorting compares each of at least two
  keys, the merge the first ones while both lists have some.
\<close>

fun insort_strcmp :: "('a \<Rightarrow> cstring) \<Rightarrow> 'a \<Rightarrow> 'a list \<Rightarrow> 'a list" where
  "insort_strcmp f x [] = [x]"
| "insort_strcmp f x (y # ys) =
     (if strcmp (f x) (f y) \<le> 0 then x # y # ys else y # insort_strcmp f x ys)"

definition qsort_strcmp :: "('a \<Rightarrow> cstring) \<Rightarrow> 'a list \<Rightarrow> 'a list" where
  "qsort_strcmp f xs = foldr (insort_strcmp f) xs []"

definition key_sort :: "cstring option list \<Rightarrow> cstring option list option" where
  "key_sort l =
     (if length l < 2 then Some l
      else if None \<in> set l then None
      else Some (qsort_strcmp the l))"

fun shadow_merge_keys :: "cstring option list \<Rightarrow> cstring option list \<Rightarrow> cstring option list option" where
  "shadow_merge_keys (x # xs) (y # ys) =
     (case (x, y) of
        (Some a, Some b) \<Rightarrow>
          if strcmp a b < 0 then map_option ((#) x) (shadow_merge_keys xs (y # ys))
          else if strcmp a b = 0 then map_option ((#) x) (shadow_merge_keys xs ys)
          else map_option ((#) y) (shadow_merge_keys (x # xs) ys)
      | _ \<Rightarrow> None)"
| "shadow_merge_keys _ _ = Some []"

definition shadow_vtree_fetch_keys ::
  "cstring option list meth option \<Rightarrow> cstring option list meth option \<Rightarrow> cstring option list meth" where
  "shadow_vtree_fetch_keys subtree next cc argv =
     (let bottom = (\<lambda>cc. case call next cc argv of
                           None \<Rightarrow> None
                         | Some (l, cc') \<Rightarrow> Some (l, if l = [] then VTCACHE_UNKNOWN else cc'))
      in case subtree of
           None \<Rightarrow> bottom cc
         | Some fetch \<Rightarrow>
             if argv = [] then
               (case fetch VTCACHE_CANT argv of
                  None \<Rightarrow> None
                | Some (l1, cc1) \<Rightarrow>
                    (case call next cc1 argv of
                       None \<Rightarrow> None
                     | Some (l2, cc2) \<Rightarrow>
                         (case (key_sort l1, key_sort l2) of
                            (Some k1, Some k2) \<Rightarrow> map_option (\<lambda>l. (l, cc2)) (shadow_merge_keys k1 k2)
                          | _ \<Rightarrow> None)))
             else
               (case fetch cc argv of
                  None \<Rightarrow> None
                | Some (l, cc1) \<Rightarrow> if l \<noteq> [] then Some (l, VTCACHE_CANT) else bottom cc1))"

definition shadow_vtree_fetch_values ::
  "cstring option list loop_meth option \<Rightarrow> cstring option list loop_meth option \<Rightarrow> cstring option list loop_meth" where
  "shadow_vtree_fetch_values subtree next cc argv =
     (let bottom = (\<lambda>cc. case call next cc argv of
                           None \<Rightarrow> None
                         | Some (l, cc') \<Rightarrow> Some (l, if l = [] then VTCACHE_UNKNOWN else cc'))
      in case subtree of
           None \<Rightarrow> bottom cc
         | Some fetch \<Rightarrow>
             (case fetch cc argv of
                None \<Rightarrow> None
              | Some (l, cc1) \<Rightarrow> if l \<noteq> [] then Some (l, VTCACHE_CANT) else bottom cc1))"

text \<open>The methods by value are already applied to the value that is searched.\<close>

definition shadow_vtree_fetch_keys_by_value ::
  "cstring option list loop_meth option \<Rightarrow> cstring option list loop_meth option \<Rightarrow> cstring option list loop_meth" where
  "shadow_vtree_fetch_keys_by_value subtree next cc argv =
     (let bottom = (\<lambda>cc. case call next cc argv of
                           None \<Rightarrow> None
                         | Some (l, cc') \<Rightarrow> Some (l, if l = [] then VTCACHE_UNKNOWN else cc'))
      in case subtree of
           None \<Rightarrow> bottom cc
         | Some fetch \<Rightarrow>
             (case fetch cc argv of
                None \<Rightarrow> None
              | Some (l, cc1) \<Rightarrow> if l \<noteq> [] then Some (l, VTCACHE_CANT) else bottom cc1))"

definition shadow_vtree_fetch_nodes ::
  "vtree_chain list meth option \<Rightarrow> vtree_chain list meth option \<Rightarrow> vtree_chain list meth" where
  "shadow_vtree_fetch_nodes subtree next cc argv =
     (let bottom = (\<lambda>cc. case call next cc argv of
                           None \<Rightarrow> None
                         | Some (l, cc') \<Rightarrow> Some (l, if l = [] then VTCACHE_UNKNOWN else cc'))
      in case subtree of
           None \<Rightarrow> bottom cc
         | Some fetch \<Rightarrow>
             (case fetch cc argv of
                None \<Rightarrow> None
              | Some (l, cc1) \<Rightarrow> if l \<noteq> [] then Some (l, VTCACHE_CANT) else bottom cc1))"

text \<open>\<open>self\<close> is the chain itself, copied to \<open>*dst\<close> for an empty vector.\<close>

definition shadow_vtree_getnode ::
  "vtree_chain \<Rightarrow> vtree_chain option meth option \<Rightarrow> vtree_chain option meth option \<Rightarrow> vtree_chain option meth" where
  "shadow_vtree_getnode self subtree next cc argv =
     (let bottom = (\<lambda>cc. case call next cc argv of
                           None \<Rightarrow> None
                         | Some (res, cc') \<Rightarrow> Some (res, if res = None then VTCACHE_UNKNOWN else cc'))
      in case subtree of
           None \<Rightarrow> bottom cc
         | Some getnode \<Rightarrow>
             if argv = [] then Some (Some self, cc)
             else
               (case getnode cc argv of
                  None \<Rightarrow> None
                | Some (res, cc1) \<Rightarrow> if res \<noteq> None then Some (res, VTCACHE_CANT) else bottom cc1))"

text \<open>
  \<open>shadow_vtree_fetch_keys_and_values\<close>. Sorting compares the keys of two elements, so a \<open>NULL\<close> key
  among at least two is read through. \<open>kv_merge\<close> is the merge loop over the elements left, with the
  types of the two lists, the type of the result and the length of the result so far.
\<close>

definition kv_sort :: "kv_elem list \<Rightarrow> kv_elem list option" where
  "kv_sort l =
     (if length l < 2 then Some l
      else if (\<exists>e \<in> set l. kv_key e = None) then None
      else Some (qsort_strcmp (\<lambda>e. the (kv_key e)) l))"

definition kv_rekey :: "vtree_keyvals_type \<Rightarrow> nat \<Rightarrow> kv_elem \<Rightarrow> kv_elem" where
  "kv_rekey type len e =
     (if type \<noteq> vktList \<and> kv_key e = None then Kv_elem (Some (dec_string len)) (kv_val e) else e)"

fun kv_merge :: "vtree_keyvals_type \<Rightarrow> vtree_keyvals_type \<Rightarrow> vtree_keyvals_type \<Rightarrow> nat \<Rightarrow>
    kv_elem list \<Rightarrow> kv_elem list \<Rightarrow> kv_elem list option" where
  "kv_merge t1 t2 type len [] [] = Some []"
| "kv_merge t1 t2 type len [] (y # ys) =
     map_option ((#) (kv_rekey type len y)) (kv_merge t1 t2 type (len + 1) [] ys)"
| "kv_merge t1 t2 type len (x # xs) [] =
     map_option ((#) (kv_rekey type len x)) (kv_merge t1 t2 type (len + 1) xs [])"
| "kv_merge t1 t2 type len (x # xs) (y # ys) =
     (let c = (if t1 = vktList then Some (-1)
               else if t2 = vktList then Some 1
               else (case (kv_key x, kv_key y) of (Some a, Some b) \<Rightarrow> Some (strcmp a b) | _ \<Rightarrow> None))
      in case c of
           None \<Rightarrow> None
         | Some c \<Rightarrow>
             if c < 0 then map_option ((#) (kv_rekey type len x)) (kv_merge t1 t2 type (len + 1) xs (y # ys))
             else if c = 0 then map_option ((#) (kv_rekey type len x)) (kv_merge t1 t2 type (len + 1) xs ys)
             else map_option ((#) (kv_rekey type len y)) (kv_merge t1 t2 type (len + 1) (x # xs) ys))"

definition shadow_vtree_fetch_keys_and_values ::
  "vtree_keyvals loop_meth option \<Rightarrow> vtree_keyvals loop_meth option \<Rightarrow> vtree_keyvals loop_meth" where
  "shadow_vtree_fetch_keys_and_values subtree next cc argv =
     (let bottom = (\<lambda>cc. case call next cc argv of
                           None \<Rightarrow> None
                         | Some (l, cc') \<Rightarrow> Some (l, if kv_list l = [] then VTCACHE_UNKNOWN else cc'))
      in if argv = [] then Some (Keyvals vktUnknown [], cc)
         else case subtree of
           None \<Rightarrow> bottom cc
         | Some fetch \<Rightarrow>
             if argv = [VTREE_LOOP] then
               (case fetch VTCACHE_CANT argv of
                  None \<Rightarrow> None
                | Some (l1, cc1) \<Rightarrow>
                    (case call next cc1 argv of
                       None \<Rightarrow> None
                     | Some (l2, cc2) \<Rightarrow>
                         (case (kv_sort (kv_list l1), kv_sort (kv_list l2)) of
                            (Some s1, Some s2) \<Rightarrow>
                              (let type = (if kv_type l1 = kv_type l2 then kv_type l1 else vktUnknown)
                               in case kv_merge (kv_type l1) (kv_type l2) type 0 s1 s2 of
                                    None \<Rightarrow> None
                                  | Some l \<Rightarrow> Some (Keyvals type l, cc2))
                          | _ \<Rightarrow> None)))
             else
               (case fetch cc argv of
                  None \<Rightarrow> None
                | Some (l, cc1) \<Rightarrow> if kv_list l \<noteq> [] then Some (l, VTCACHE_CANT) else bottom cc1))"

definition shadow_vtree_init :: "vtree_chain option \<Rightarrow> vtree_chain option \<Rightarrow> vtree_chain" where
  "shadow_vtree_init subtree bottom = VT_shadow subtree bottom"

section \<open>The prefix tree\<close>

text \<open>
  How the first key matches the prefix: it is the prefix, the prefix and a dot before the rest of
  the key, or neither.
\<close>

datatype prefix_arg = Pre_all | Pre_rest cstring | Pre_none

definition prefix_arg_of :: "cstring \<Rightarrow> cstring \<Rightarrow> prefix_arg" where
  "prefix_arg_of prefix a =
     (if take (length prefix) a = prefix then
        (case drop (length prefix) a of
           [] \<Rightarrow> Pre_all
         | c # r \<Rightarrow> if c = CHR ''.'' then Pre_rest r else Pre_none)
      else Pre_none)"

definition prefix_loop_arg :: "cstring \<Rightarrow> varg \<Rightarrow> prefix_arg" where
  "prefix_loop_arg prefix a = (case a of VTREE_LOOP \<Rightarrow> Pre_all | Key k \<Rightarrow> prefix_arg_of prefix k)"

definition prefix_vtree_getlen :: "cstring \<Rightarrow> nat meth option \<Rightarrow> nat meth" where
  "prefix_vtree_getlen prefix next cc argv =
     (case (next, argv) of
        (Some getlen, a # as) \<Rightarrow>
          (case prefix_arg_of prefix a of
             Pre_all \<Rightarrow> getlen cc as
           | Pre_rest r \<Rightarrow> getlen cc (r # as)
           | Pre_none \<Rightarrow> Some (0, cc))
      | _ \<Rightarrow> Some (0, cc))"

definition prefix_vtree_get :: "cstring \<Rightarrow> cstring option meth option \<Rightarrow> cstring option meth" where
  "prefix_vtree_get prefix next cc argv =
     (case (next, argv) of
        (Some get, a # as) \<Rightarrow>
          (case prefix_arg_of prefix a of
             Pre_all \<Rightarrow> get cc as
           | Pre_rest r \<Rightarrow> get cc (r # as)
           | Pre_none \<Rightarrow> Some (None, cc))
      | _ \<Rightarrow> Some (None, cc))"

definition prefix_vtree_haskey :: "cstring \<Rightarrow> int meth option \<Rightarrow> int meth" where
  "prefix_vtree_haskey prefix next cc argv =
     (case (next, argv) of
        (Some haskey, a # as) \<Rightarrow>
          (case prefix_arg_of prefix a of
             Pre_all \<Rightarrow> haskey cc as
           | Pre_rest r \<Rightarrow> haskey cc (r # as)
           | Pre_none \<Rightarrow> Some (0, cc))
      | _ \<Rightarrow> Some (0, cc))"

definition prefix_vtree_fetch_keys ::
  "cstring \<Rightarrow> cstring option list meth option \<Rightarrow> cstring option list meth" where
  "prefix_vtree_fetch_keys prefix next cc argv =
     (case argv of
        [] \<Rightarrow> Some ([Some prefix], cc)
      | a # as \<Rightarrow>
          (case prefix_arg_of prefix a of
             Pre_all \<Rightarrow> call next cc as
           | Pre_rest r \<Rightarrow> call next cc (r # as)
           | Pre_none \<Rightarrow> Some ([], cc)))"

definition prefix_vtree_fetch_values ::
  "cstring \<Rightarrow> cstring option list loop_meth option \<Rightarrow> cstring option list loop_meth" where
  "prefix_vtree_fetch_values prefix next cc argv =
     (case argv of
        [] \<Rightarrow> Some ([], cc)
      | a # as \<Rightarrow>
          (case prefix_loop_arg prefix a of
             Pre_all \<Rightarrow> call next cc as
           | Pre_rest r \<Rightarrow> call next cc (Key r # as)
           | Pre_none \<Rightarrow> Some ([], cc)))"

definition prefix_vtree_fetch_keys_by_value ::
  "cstring \<Rightarrow> cstring option list loop_meth option \<Rightarrow> cstring option list loop_meth" where
  "prefix_vtree_fetch_keys_by_value prefix next cc argv =
     (case argv of
        [] \<Rightarrow> Some ([], cc)
      | a # as \<Rightarrow>
          (case prefix_loop_arg prefix a of
             Pre_all \<Rightarrow> call next cc as
           | Pre_rest r \<Rightarrow> call next cc (Key r # as)
           | Pre_none \<Rightarrow> Some ([], cc)))"

definition prefix_vtree_getnode ::
  "vtree_chain \<Rightarrow> cstring \<Rightarrow> vtree_chain option meth option \<Rightarrow> vtree_chain option meth" where
  "prefix_vtree_getnode self prefix next cc argv =
     (case argv of
        [] \<Rightarrow> Some (Some self, cc)
      | a # as \<Rightarrow>
          (case prefix_arg_of prefix a of
             Pre_all \<Rightarrow> call next cc as
           | Pre_rest r \<Rightarrow> call next cc (r # as)
           | Pre_none \<Rightarrow> Some (None, cc)))"

text \<open>For an empty vector the chain below is copied, so it must be there.\<close>

definition prefix_vtree_fetch_nodes ::
  "cstring \<Rightarrow> vtree_chain option \<Rightarrow> vtree_chain list meth option \<Rightarrow> vtree_chain list meth" where
  "prefix_vtree_fetch_nodes prefix chain next cc argv =
     (case argv of
        [] \<Rightarrow> (case chain of None \<Rightarrow> None | Some v \<Rightarrow> Some ([v], cc))
      | a # as \<Rightarrow>
          (case prefix_arg_of prefix a of
             Pre_all \<Rightarrow> call next cc as
           | Pre_rest r \<Rightarrow> call next cc (r # as)
           | Pre_none \<Rightarrow> Some ([], cc)))"

definition prefix_vtree_fetch_keys_and_values ::
  "cstring \<Rightarrow> vtree_chain option \<Rightarrow> vtree_keyvals loop_meth option \<Rightarrow> vtree_keyvals loop_meth" where
  "prefix_vtree_fetch_keys_and_values prefix chain next cc argv =
     (if argv = [VTREE_LOOP] then
        (case chain of
           None \<Rightarrow> None
         | Some v \<Rightarrow> Some (Keyvals vktDict [Kv_elem (Some prefix) (vkvNode v)], cc))
      else
        (case argv of
           [] \<Rightarrow> Some (Keyvals vktUnknown [], cc)
         | a # as \<Rightarrow>
             (case prefix_loop_arg prefix a of
                Pre_all \<Rightarrow> call next cc as
              | Pre_rest r \<Rightarrow> call next cc (Key r # as)
              | Pre_none \<Rightarrow> Some (Keyvals vktUnknown [], cc))))"

definition prefix_vtree_init :: "cstring \<Rightarrow> vtree_chain option \<Rightarrow> vtree_chain" where
  "prefix_vtree_init prefix tree = VT_prefix prefix tree"

end
