(* ===== verification/BconfVtree.thy ===== *)
theory BconfVtree
  imports Vtree
begin

text \<open>
  The vtree methods over configuration trees, \<open>vtree/lib/bconf_vtree.c\<close>: over one node
  (\<open>bconf_api_node\<close>, the constructor \<open>VT_bconf_node\<close>) and over a pair of trees of which the one of
  high priority is asked first (\<open>bconf_api_vtree\<close>, the constructor \<open>VT_bconf\<close>).
\<close>

section \<open>Argument vectors\<close>

text \<open>
  \<open>bconf_vasget\<close> up to a sentinel: \<open>NULL\<close> is not in the vector, \<open>VTREE_LOOP\<close> may be. \<open>loop_rest\<close> is
  the vector after the position \<open>argoff\<close> of the marker, empty when there is none: the search below a
  child reads the vector up to a \<open>NULL\<close> and not up to \<open>argc\<close>, so the vectors of the model are those
  that a \<open>NULL\<close> closes at \<open>argc\<close>, as \<open>VTREE_ARGS_COPY\<close> makes them.
\<close>

definition vas_null :: "bconf_node option \<Rightarrow> cstring list \<Rightarrow> bconf_node option" where
  "vas_null node argv = bconf_vasget node (map Some argv)"

definition loop_elem :: "varg \<Rightarrow> cstring option" where
  "loop_elem a = (case a of Key k \<Rightarrow> Some k | VTREE_LOOP \<Rightarrow> None)"

definition vas_loop :: "bconf_node option \<Rightarrow> varg list \<Rightarrow> bconf_node option" where
  "vas_loop node argv = bconf_vasget node (map loop_elem argv)"

fun loop_rest :: "varg list \<Rightarrow> cstring list" where
  "loop_rest [] = []"
| "loop_rest (VTREE_LOOP # argv) = map (\<lambda>a. case a of Key k \<Rightarrow> k | VTREE_LOOP \<Rightarrow> []) argv"
| "loop_rest (Key k # argv) = loop_rest argv"

section \<open>Fetching from a node\<close>

definition bconf_children :: "bconf_node option \<Rightarrow> bconf_node list" where
  "bconf_children node = (case node of None \<Rightarrow> [] | Some n \<Rightarrow> bn_sub_nodes n)"

definition vtree_bconf_fetch_keys :: "bconf_node option \<Rightarrow> cstring list \<Rightarrow> cstring option list" where
  "vtree_bconf_fetch_keys node argv =
     map (\<lambda>c. bconf_key (Some c)) (bconf_children (vas_null node argv))"

definition vtree_bconf_fetch_values :: "bconf_node option \<Rightarrow> varg list \<Rightarrow> cstring option list" where
  "vtree_bconf_fetch_values node argv =
     map (\<lambda>c. case bconf_value (vas_null (Some c) (loop_rest argv)) of
                Some v \<Rightarrow> Some v | None \<Rightarrow> Some [])
       (bconf_children (vas_loop node argv))"

definition vtree_bconf_fetch_keys_by_value ::
  "bconf_node option \<Rightarrow> cstring \<Rightarrow> varg list \<Rightarrow> cstring option list" where
  "vtree_bconf_fetch_keys_by_value node val argv =
     map (\<lambda>c. bconf_key (Some c))
       (filter (\<lambda>c. case bconf_value (vas_null (Some c) (loop_rest argv)) of
                      Some v \<Rightarrow> strcmp val v = 0 | None \<Rightarrow> False)
          (bconf_children (vas_loop node argv)))"

definition vtree_bconf_fetch_nodes :: "bconf_node option \<Rightarrow> cstring list \<Rightarrow> vtree_chain list" where
  "vtree_bconf_fetch_nodes node argv =
     map (\<lambda>c. VT_bconf_node (Some c)) (bconf_children (vas_null node argv))"

definition vtree_bconf_fetch_keys_and_values :: "bconf_node option \<Rightarrow> varg list \<Rightarrow> vtree_keyvals" where
  "vtree_bconf_fetch_keys_and_values node argv =
     Keyvals vktUnknown
       (map (\<lambda>c. Kv_elem (bconf_key (Some c))
                  (case vas_null (Some c) (loop_rest argv) of
                     None \<Rightarrow> vkvNone
                   | Some n \<Rightarrow>
                       (case bconf_value (Some n) of
                          Some v \<Rightarrow> vkvValue v
                        | None \<Rightarrow> vkvNode (VT_bconf_node (Some n)))))
          (bconf_children (vas_loop node argv)))"

section \<open>One node\<close>

definition bconf_node_get :: "bconf_node option \<Rightarrow> cstring option meth" where
  "bconf_node_get data cc argv =
     (if data = None then Some (None, cc)
      else case vas_null data argv of
             None \<Rightarrow> Some (None, cc)
           | Some n \<Rightarrow> Some (bconf_value (Some n), cc))"

definition bconf_node_getlen :: "bconf_node option \<Rightarrow> nat meth" where
  "bconf_node_getlen data cc argv =
     (if data = None then Some (0, cc)
      else case vas_null data argv of
             None \<Rightarrow> Some (0, cc)
           | Some n \<Rightarrow> Some (bconf_count (Some n), cc))"

definition bconf_node_haskey :: "bconf_node option \<Rightarrow> int meth" where
  "bconf_node_haskey data cc argv =
     (if data = None then Some (0, cc)
      else case vas_null data argv of None \<Rightarrow> Some (0, cc) | Some n \<Rightarrow> Some (1, cc))"

definition bconf_node_fetch_keys :: "bconf_node option \<Rightarrow> cstring option list meth" where
  "bconf_node_fetch_keys data cc argv = Some (vtree_bconf_fetch_keys data argv, cc)"

definition bconf_node_fetch_values :: "bconf_node option \<Rightarrow> cstring option list loop_meth" where
  "bconf_node_fetch_values data cc argv = Some (vtree_bconf_fetch_values data argv, cc)"

definition bconf_node_fetch_byval :: "bconf_node option \<Rightarrow> cstring \<Rightarrow> cstring option list loop_meth" where
  "bconf_node_fetch_byval data val cc argv = Some (vtree_bconf_fetch_keys_by_value data val argv, cc)"

definition bconf_node_fetch_nodes :: "bconf_node option \<Rightarrow> vtree_chain list meth" where
  "bconf_node_fetch_nodes data cc argv = Some (vtree_bconf_fetch_nodes data argv, cc)"

definition bconf_node_fetch_keys_and_values :: "bconf_node option \<Rightarrow> vtree_keyvals loop_meth" where
  "bconf_node_fetch_keys_and_values data cc argv =
     Some (vtree_bconf_fetch_keys_and_values data argv, cc)"

definition bconf_node_getnode :: "bconf_node option \<Rightarrow> vtree_chain option meth" where
  "bconf_node_getnode data cc argv =
     (case vas_null data argv of
        None \<Rightarrow> Some (None, VTCACHE_CANT)
      | Some n \<Rightarrow> Some (Some (VT_bconf_node (Some n)), VTCACHE_CANT))"

section \<open>A tree of high and a tree of low priority\<close>

text \<open>The value of \<open>*cc\<close> when neither tree has the node.\<close>

definition missing_cc :: "vtree_cacheable \<Rightarrow> vtree_cacheable \<Rightarrow> vtree_cacheable" where
  "missing_cc level cc = (if level < VTCACHE_CAN then VTCACHE_UNKNOWN else cc)"

definition bconf_getlen ::
  "bconf_node option \<Rightarrow> bconf_node option \<Rightarrow> vtree_cacheable \<Rightarrow> nat meth" where
  "bconf_getlen lowprio highprio level cc argv =
     (case (if highprio \<noteq> None then vas_null highprio argv else None) of
        Some n \<Rightarrow> Some (bconf_count (Some n), level)
      | None \<Rightarrow>
          (case vas_null lowprio argv of
             Some n \<Rightarrow> Some (bconf_count (Some n), cc)
           | None \<Rightarrow> Some (0, missing_cc level cc)))"

definition bconf_vt_get ::
  "bconf_node option \<Rightarrow> bconf_node option \<Rightarrow> vtree_cacheable \<Rightarrow> cstring option meth" where
  "bconf_vt_get lowprio highprio level cc argv =
     (case (if highprio \<noteq> None then vas_null highprio argv else None) of
        Some n \<Rightarrow> Some (bconf_value (Some n), level)
      | None \<Rightarrow>
          (case vas_null lowprio argv of
             Some n \<Rightarrow> Some (bconf_value (Some n), cc)
           | None \<Rightarrow> Some (None, missing_cc level cc)))"

definition bconf_haskey ::
  "bconf_node option \<Rightarrow> bconf_node option \<Rightarrow> vtree_cacheable \<Rightarrow> int meth" where
  "bconf_haskey lowprio highprio level cc argv =
     (case (if highprio \<noteq> None then vas_null highprio argv else None) of
        Some n \<Rightarrow> Some (1, level)
      | None \<Rightarrow>
          (case vas_null lowprio argv of
             Some n \<Rightarrow> Some (1, cc)
           | None \<Rightarrow> Some (0, missing_cc level cc)))"

definition bconf_fetch_keys ::
  "bconf_node option \<Rightarrow> bconf_node option \<Rightarrow> vtree_cacheable \<Rightarrow> cstring option list meth" where
  "bconf_fetch_keys lowprio highprio level cc argv =
     (let high = vtree_bconf_fetch_keys highprio argv;
          low = vtree_bconf_fetch_keys lowprio argv
      in if highprio \<noteq> None \<and> high \<noteq> [] then Some (high, level)
         else Some (low, if low = [] then missing_cc level cc else cc))"

definition bconf_fetch_values ::
  "bconf_node option \<Rightarrow> bconf_node option \<Rightarrow> vtree_cacheable \<Rightarrow> cstring option list loop_meth" where
  "bconf_fetch_values lowprio highprio level cc argv =
     (let high = vtree_bconf_fetch_values highprio argv;
          low = vtree_bconf_fetch_values lowprio argv
      in if highprio \<noteq> None \<and> high \<noteq> [] then Some (high, level)
         else Some (low, if low = [] then missing_cc level cc else cc))"

definition bconf_fetch_keys_by_value ::
  "bconf_node option \<Rightarrow> bconf_node option \<Rightarrow> vtree_cacheable \<Rightarrow> cstring \<Rightarrow> cstring option list loop_meth" where
  "bconf_fetch_keys_by_value lowprio highprio level val cc argv =
     (let high = vtree_bconf_fetch_keys_by_value highprio val argv;
          low = vtree_bconf_fetch_keys_by_value lowprio val argv
      in if highprio \<noteq> None \<and> high \<noteq> [] then Some (high, level)
         else Some (low, if low = [] then missing_cc level cc else cc))"

definition bconf_fetch_nodes ::
  "bconf_node option \<Rightarrow> bconf_node option \<Rightarrow> vtree_cacheable \<Rightarrow> vtree_chain list meth" where
  "bconf_fetch_nodes lowprio highprio level cc argv =
     (let high = vtree_bconf_fetch_nodes highprio argv;
          low = vtree_bconf_fetch_nodes lowprio argv
      in if highprio \<noteq> None \<and> high \<noteq> [] then Some (high, level)
         else Some (low, if low = [] then missing_cc level cc else cc))"

definition bconf_fetch_keys_and_values ::
  "bconf_node option \<Rightarrow> bconf_node option \<Rightarrow> vtree_cacheable \<Rightarrow> vtree_keyvals loop_meth" where
  "bconf_fetch_keys_and_values lowprio highprio level cc argv =
     (let high = vtree_bconf_fetch_keys_and_values highprio argv;
          low = vtree_bconf_fetch_keys_and_values lowprio argv
      in if highprio \<noteq> None \<and> kv_list high \<noteq> [] then Some (high, level)
         else Some (low, if kv_list low = [] then missing_cc level cc else cc))"

definition bconf_getnode ::
  "bconf_node option \<Rightarrow> bconf_node option \<Rightarrow> vtree_cacheable \<Rightarrow> vtree_chain option meth" where
  "bconf_getnode lowprio highprio level cc argv =
     (case (if highprio \<noteq> None then vas_null highprio argv else None) of
        Some n \<Rightarrow> Some (Some (VT_bconf_node (Some n)), level)
      | None \<Rightarrow>
          (case vas_null lowprio argv of
             Some n \<Rightarrow> Some (Some (VT_bconf_node (Some n)), cc)
           | None \<Rightarrow> Some (None, missing_cc level cc)))"

section \<open>Construction\<close>

definition bconf_vtree_init ::
  "bconf_node option \<Rightarrow> bconf_node option \<Rightarrow> vtree_cacheable \<Rightarrow> vtree_chain" where
  "bconf_vtree_init lowprio highprio level =
     (if highprio \<noteq> None then VT_bconf lowprio highprio level else VT_bconf_node lowprio)"

definition bconf_vtree_app :: "bconf_node option \<Rightarrow> cstring \<Rightarrow> vtree_chain" where
  "bconf_vtree_app host_root app =
     bconf_vtree_init (bconf_get host_root (Some ''*'')) (bconf_get host_root (Some app)) VTCACHE_CAN"

definition bconf_vtree :: "bconf_node option \<Rightarrow> vtree_chain" where
  "bconf_vtree node = bconf_vtree_init node None VTCACHE_CAN"

definition bconf_vtree_own :: "bconf_node option \<Rightarrow> vtree_chain" where
  "bconf_vtree_own node = VT_bconf_node node"

end
