(* ===== verification/VtreeLiteral.thy ===== *)
theory VtreeLiteral
  imports Vtree
begin

text \<open>
  The vtree methods over an explicit list or dictionary (\<open>vtree/lib/vtree_literal.c\<close>, the
  constructor \<open>VT_literal\<close>) and over a single value (\<open>vtree/lib/vtree_value.c\<close>, the constructor
  \<open>VT_value\<close>). The methods of the nodes in a literal are arguments of its methods.
\<close>

section \<open>Finding an element\<close>

text \<open>
  \<open>get_index\<close>: the index of the element the first key names, -1 when there is none; \<open>None\<close> when the
  key of an element is \<open>NULL\<close> and compared. In a list the key is a number, converted to an \<open>int\<close>.
\<close>

fun find_key :: "cstring \<Rightarrow> int \<Rightarrow> kv_elem list \<Rightarrow> int option" where
  "find_key k idx [] = Some (-1)"
| "find_key k idx (e # es) =
     (case kv_key e of
        None \<Rightarrow> None
      | Some k' \<Rightarrow> if strcmp k k' = 0 then Some idx else find_key k (idx + 1) es)"

definition get_index :: "vtree_keyvals \<Rightarrow> cstring list \<Rightarrow> int option" where
  "get_index data argv =
     (case argv of
        [] \<Rightarrow> Some (-1)
      | k # _ \<Rightarrow>
          if kv_type data = vktList then
            (let (l, ep, _) = strtol10 k;
                 idx = signed_take_bit 31 l
             in if k = [] \<or> ep \<noteq> [] \<or> idx < 0 \<or> int (length (kv_list data)) \<le> idx then Some (-1)
                else Some idx)
          else find_key k 0 (kv_list data))"

text \<open>The value the first key of the vector names; \<open>Some None\<close> when there is none.\<close>

definition literal_at :: "vtree_keyvals \<Rightarrow> cstring list \<Rightarrow> kv_value option option" where
  "literal_at data argv =
     (case get_index data argv of
        None \<Rightarrow> None
      | Some idx \<Rightarrow> if idx < 0 then Some None else Some (Some (kv_val (kv_list data ! nat idx))))"

text \<open>The nodes in a literal: those are the chains its methods call.\<close>

definition kv_nodes :: "vtree_keyvals \<Rightarrow> vtree_chain set" where
  "kv_nodes data = {n. \<exists>e \<in> set (kv_list data). kv_val e = vkvNode n}"

section \<open>Methods of a literal\<close>

definition vtree_literal_getlen :: "(vtree_chain \<Rightarrow> nat meth) \<Rightarrow> vtree_keyvals \<Rightarrow> nat meth" where
  "vtree_literal_getlen getlen data cc argv =
     (if argv = [] then Some (length (kv_list data), VTCACHE_CANT)
      else case literal_at data argv of
             None \<Rightarrow> None
           | Some (Some (vkvNode n)) \<Rightarrow>
               (case vtree_getlen_cachev getlen (Some n) (Some VTCACHE_CANT) None (tl argv) of
                  None \<Rightarrow> None
                | Some (res, cc', _) \<Rightarrow> Some (nat res, the cc'))
           | Some _ \<Rightarrow> Some (0, VTCACHE_CANT))"

definition vtree_literal_get ::
  "(vtree_chain \<Rightarrow> cstring option meth) \<Rightarrow> vtree_keyvals \<Rightarrow> cstring option meth" where
  "vtree_literal_get get data cc argv =
     (case literal_at data argv of
        None \<Rightarrow> None
      | Some None \<Rightarrow> Some (None, VTCACHE_CANT)
      | Some (Some vkvNone) \<Rightarrow> Some (None, VTCACHE_CANT)
      | Some (Some (vkvValue v)) \<Rightarrow> Some (if length argv = 1 then Some v else None, VTCACHE_CANT)
      | Some (Some (vkvNode n)) \<Rightarrow>
          (case vtree_get_cachev get (Some n) (Some VTCACHE_CANT) None (tl argv) of
             None \<Rightarrow> None
           | Some (res, cc', _) \<Rightarrow> Some (res, the cc')))"

definition vtree_literal_haskey :: "(vtree_chain \<Rightarrow> int meth) \<Rightarrow> vtree_keyvals \<Rightarrow> int meth" where
  "vtree_literal_haskey haskey data cc argv =
     (case literal_at data argv of
        None \<Rightarrow> None
      | Some None \<Rightarrow> Some (0, VTCACHE_CANT)
      | Some (Some (vkvNode n)) \<Rightarrow>
          if length argv = 1 then Some (1, VTCACHE_CANT)
          else
            (case vtree_haskey_cachev haskey (Some n) (Some VTCACHE_CANT) None (tl argv) of
               None \<Rightarrow> None
             | Some (res, cc', _) \<Rightarrow> Some (res, the cc'))
      | Some (Some _) \<Rightarrow> Some (if length argv = 1 then 1 else 0, VTCACHE_CANT))"

definition literal_keys :: "vtree_keyvals \<Rightarrow> cstring option list" where
  "literal_keys data =
     (if kv_type data = vktList then map (\<lambda>i. Some (dec_string i)) [0..<length (kv_list data)]
      else map kv_key (kv_list data))"

definition vtree_literal_fetch_keys ::
  "(vtree_chain \<Rightarrow> cstring option list meth) \<Rightarrow> vtree_keyvals \<Rightarrow> cstring option list meth" where
  "vtree_literal_fetch_keys fetch_keys data cc argv =
     (if argv = [] then Some (literal_keys data, VTCACHE_CANT)
      else case literal_at data argv of
             None \<Rightarrow> None
           | Some (Some (vkvNode n)) \<Rightarrow>
               (case vtree_fetch_keys_cachev fetch_keys (Some n) (Some VTCACHE_CANT) (tl argv) of
                  None \<Rightarrow> None
                | Some (loop, cc') \<Rightarrow> Some (loop, the cc'))
           | Some _ \<Rightarrow> Some ([], VTCACHE_CANT))"

text \<open>The strings of a vector after the marker.\<close>

definition loop_keys :: "varg list \<Rightarrow> cstring list" where
  "loop_keys argv = map (\<lambda>a. case a of Key k \<Rightarrow> k | VTREE_LOOP \<Rightarrow> []) argv"

text \<open>The value of an element below the keys \<open>rest\<close>, as the loops over the elements read it.\<close>

definition elem_value ::
  "(vtree_chain \<Rightarrow> cstring option meth) \<Rightarrow> cstring list \<Rightarrow> kv_value \<Rightarrow> cstring option option" where
  "elem_value get rest v =
     (case v of
        vkvNone \<Rightarrow> Some None
      | vkvValue s \<Rightarrow> Some (if rest = [] then Some s else None)
      | vkvNode n \<Rightarrow>
          (case vtree_get_cachev get (Some n) (Some VTCACHE_CANT) None rest of
             None \<Rightarrow> None
           | Some (res, _, _) \<Rightarrow> Some res))"

definition vtree_literal_fetch_values ::
  "(vtree_chain \<Rightarrow> cstring option meth) \<Rightarrow> (vtree_chain \<Rightarrow> cstring option list loop_meth) \<Rightarrow>
     vtree_keyvals \<Rightarrow> cstring option list loop_meth" where
  "vtree_literal_fetch_values get fetch_values data cc argv =
     (case argv of
        [] \<Rightarrow> Some ([], VTCACHE_CANT)
      | VTREE_LOOP # as \<Rightarrow>
          map_option (\<lambda>l. (l, VTCACHE_CANT))
            (those (map (\<lambda>e. elem_value get (loop_keys as) (kv_val e)) (kv_list data)))
      | Key k # as \<Rightarrow>
          (case literal_at data [k] of
             None \<Rightarrow> None
           | Some (Some (vkvNode n)) \<Rightarrow>
               (case vtree_fetch_values_cachev fetch_values (Some n) (Some VTCACHE_CANT) as of
                  None \<Rightarrow> None
                | Some (loop, cc') \<Rightarrow> Some (loop, the cc'))
           | Some _ \<Rightarrow> Some ([], VTCACHE_CANT)))"

definition vtree_literal_fetch_keys_by_value ::
  "(vtree_chain \<Rightarrow> cstring option meth) \<Rightarrow> (vtree_chain \<Rightarrow> cstring \<Rightarrow> cstring option list loop_meth) \<Rightarrow>
     vtree_keyvals \<Rightarrow> cstring \<Rightarrow> cstring option list loop_meth" where
  "vtree_literal_fetch_keys_by_value get fetch_byval data val cc argv =
     (case argv of
        [] \<Rightarrow> Some ([], VTCACHE_CANT)
      | VTREE_LOOP # as \<Rightarrow>
          (case those (map (\<lambda>e. elem_value get (loop_keys as) (kv_val e)) (kv_list data)) of
             None \<Rightarrow> None
           | Some vs \<Rightarrow>
               Some (map snd (filter (\<lambda>(v, k). case v of Some s \<Rightarrow> strcmp val s = 0 | None \<Rightarrow> False)
                                (zip vs (literal_keys data))), VTCACHE_CANT))
      | Key k # as \<Rightarrow>
          (case literal_at data [k] of
             None \<Rightarrow> None
           | Some (Some (vkvNode n)) \<Rightarrow>
               (case vtree_fetch_keys_by_value_cachev fetch_byval (Some n) (Some VTCACHE_CANT) val as of
                  None \<Rightarrow> None
                | Some (loop, cc') \<Rightarrow> Some (loop, the cc'))
           | Some _ \<Rightarrow> Some ([], VTCACHE_CANT)))"

definition vtree_literal_getnode ::
  "(vtree_chain \<Rightarrow> vtree_chain option meth) \<Rightarrow> vtree_keyvals \<Rightarrow> vtree_chain option meth" where
  "vtree_literal_getnode getnode data cc argv =
     (if argv = [] then Some (Some (VT_literal data), VTCACHE_CANT)
      else case literal_at data argv of
             None \<Rightarrow> None
           | Some None \<Rightarrow> Some (None, VTCACHE_CANT)
           | Some (Some vkvNone) \<Rightarrow> Some (None, VTCACHE_CANT)
           | Some (Some (vkvValue v)) \<Rightarrow>
               Some (if length argv = 1 then Some (VT_value (Some v)) else None, VTCACHE_CANT)
           | Some (Some (vkvNode n)) \<Rightarrow>
               (case vtree_getnode_cachev getnode (Some n) (Some VTCACHE_CANT) VT_null None (tl argv) of
                  None \<Rightarrow> None
                | Some (res, cc', _, _) \<Rightarrow> Some (res, the cc')))"

definition kv_node :: "kv_value \<Rightarrow> vtree_chain" where
  "kv_node v =
     (case v of vkvNone \<Rightarrow> VT_null | vkvValue s \<Rightarrow> VT_value (Some s) | vkvNode n \<Rightarrow> n)"

definition vtree_literal_fetch_nodes ::
  "(vtree_chain \<Rightarrow> vtree_chain list meth) \<Rightarrow> vtree_keyvals \<Rightarrow> vtree_chain list meth" where
  "vtree_literal_fetch_nodes fetch_nodes data cc argv =
     (if argv = [] then Some (map (\<lambda>e. kv_node (kv_val e)) (kv_list data), VTCACHE_CANT)
      else case literal_at data argv of
             None \<Rightarrow> None
           | Some (Some (vkvNode n)) \<Rightarrow>
               (case vtree_fetch_nodes_cachev fetch_nodes (Some n) (Some VTCACHE_CANT) (tl argv) of
                  None \<Rightarrow> None
                | Some (loop, cc') \<Rightarrow> Some (loop, the cc'))
           | Some _ \<Rightarrow> Some ([], VTCACHE_CANT))"

text \<open>An element of the result of \<open>fetch_keys_and_values\<close> below the keys \<open>rest\<close>.\<close>

definition elem_below ::
  "(vtree_chain \<Rightarrow> cstring option meth) \<Rightarrow> (vtree_chain \<Rightarrow> vtree_chain option meth) \<Rightarrow>
     cstring list \<Rightarrow> kv_elem \<Rightarrow> kv_elem option" where
  "elem_below get getnode rest e =
     map_option (Kv_elem (kv_key e))
       (case kv_val e of
          vkvNone \<Rightarrow> Some vkvNone
        | vkvValue s \<Rightarrow> Some (if rest = [] then vkvValue s else vkvNone)
        | vkvNode n \<Rightarrow>
            (case vtree_getnode_cachev getnode (Some n) (Some VTCACHE_CANT) VT_null None rest of
               None \<Rightarrow> None
             | Some (None, _) \<Rightarrow> Some vkvNone
             | Some (Some node, _) \<Rightarrow>
                 (case vtree_get_cachev get (Some node) None None [] of
                    None \<Rightarrow> None
                  | Some (Some v, _) \<Rightarrow> Some (vkvValue v)
                  | Some (None, _) \<Rightarrow> Some (vkvNode node))))"

definition vtree_literal_fetch_keys_and_values ::
  "(vtree_chain \<Rightarrow> cstring option meth) \<Rightarrow> (vtree_chain \<Rightarrow> vtree_chain option meth) \<Rightarrow>
     (vtree_chain \<Rightarrow> vtree_keyvals loop_meth) \<Rightarrow> vtree_keyvals \<Rightarrow> vtree_keyvals loop_meth" where
  "vtree_literal_fetch_keys_and_values get getnode fetch data cc argv =
     (case argv of
        [] \<Rightarrow> Some (data, VTCACHE_CANT)
      | Key k # as \<Rightarrow>
          (case vtree_literal_getnode getnode data VTCACHE_CANT [k] of
             None \<Rightarrow> None
           | Some (None, cc') \<Rightarrow> Some (Keyvals vktUnknown [], cc')
           | Some (Some vnode, cc') \<Rightarrow> fetch vnode cc' as)
      | VTREE_LOOP # as \<Rightarrow>
          map_option (\<lambda>l. (Keyvals (kv_type data) l, VTCACHE_CANT))
            (those (map (elem_below get getnode (loop_keys as)) (kv_list data))))"

definition vtree_literal_create :: "vtree_keyvals \<Rightarrow> vtree_chain" where
  "vtree_literal_create data = VT_literal data"

text \<open>The new lists: the caller fills in the elements.\<close>

definition vtree_keyvals_create_list :: "kv_elem list \<Rightarrow> vtree_keyvals" where
  "vtree_keyvals_create_list elems = Keyvals vktList elems"

definition vtree_keyvals_create_dict :: "kv_elem list \<Rightarrow> vtree_keyvals" where
  "vtree_keyvals_create_dict elems = Keyvals vktDict elems"

section \<open>Methods of a value\<close>

definition vtree_value_getlen :: "cstring option \<Rightarrow> nat meth" where
  "vtree_value_getlen data cc argv = Some (0, cc)"

definition vtree_value_get :: "cstring option \<Rightarrow> cstring option meth" where
  "vtree_value_get data cc argv = Some (if argv \<noteq> [] then None else data, cc)"

definition vtree_value_haskey :: "cstring option \<Rightarrow> int meth" where
  "vtree_value_haskey data cc argv = Some (if argv = [] then 1 else 0, cc)"

definition vtree_value_fetch :: "cstring option \<Rightarrow> vtree_cacheable \<Rightarrow> 'b list \<Rightarrow> 'a list vres" where
  "vtree_value_fetch data cc argv = Some ([], cc)"

definition vtree_value_fetch_keys_by_value ::
  "cstring option \<Rightarrow> cstring \<Rightarrow> cstring option list loop_meth" where
  "vtree_value_fetch_keys_by_value data val cc argv = Some ([], cc)"

definition vtree_value_getnode :: "cstring option \<Rightarrow> vtree_chain option meth" where
  "vtree_value_getnode data cc argv =
     (if argv \<noteq> [] then Some (None, cc) else Some (Some (VT_value data), cc))"

definition vtree_value_fetch_keys_and_values :: "cstring option \<Rightarrow> vtree_keyvals loop_meth" where
  "vtree_value_fetch_keys_and_values data cc argv = Some (Keyvals vktUnknown [], cc)"

end
