(* ===== verification/BconfSpec.thy ===== *)
theory BconfSpec
  imports Bconf
begin

text \<open>
  What the public operations of \<open>vtree/lib/bconf.c\<close> do to the tree seen as a map from key
  vectors to values (\<open>root_view\<close>), and that they keep its invariant: additions update the map,
  a merge overrides it, a deletion removes everything below a path, a filter keeps the children
  whose key is in the filter. The invariant then holds of every tree the operations can build.
\<close>

section \<open>Roots\<close>

definition root_node :: "bconf_node option \<Rightarrow> bconf_node" where
  "root_node root = (case root of None \<Rightarrow> zero_node | Some n \<Rightarrow> n)"

lemma wf_root_node: "wf_root root \<Longrightarrow> wf_bconf (root_node root)"
  by (auto simp: wf_root_def root_node_def zero_node_key split: option.splits)

lemma view_root_node: "bconf_view (root_node root) = root_view root"
  by (auto simp: root_view_def root_node_def zero_node_key split: option.splits)

lemma wf_root_Some [simp]: "wf_root (Some n) = wf_bconf n"
  by (simp add: wf_root_def)

lemma wf_root_None [simp]: "wf_root None"
  by (simp add: wf_root_def)

lemma root_view_Some [simp]: "root_view (Some n) = bconf_view n"
  by (simp add: root_view_def)

lemma root_node_Some [simp]: "root_node (Some n) = n"
  by (simp add: root_node_def)

lemma lookup_addv_root: "bconf_lookup_addv root argv = lookup_addv_from (root_node root) argv"
  by (simp add: bconf_lookup_addv_def root_node_def)

section \<open>Additions\<close>

text \<open>The outcome of an addition that reports a conflict by its return value.\<close>

lemma add_datav_canfail_ok:
  assumes wf: "wf_root root" and ks: "\<forall>k \<in> set argv. nul_free k" and v: "nul_free v"
  shows "\<exists>n c. bconf_add_datav_canfail root argv v dup = Inr (n, c) \<and> wf_bconf n \<and>
    (if add_conflict (root_node root) argv then c = -1 \<and> bconf_view n = root_view root
     else (c = 0 \<or> c = 1) \<and> bconf_view n = (root_view root)(argv \<mapsto> v))"
proof -
  have ok: "data_ok v (length v) dup" using v by (simp add: data_ok_def)
  show ?thesis
    by (rule add_cases [OF wf_root_node [OF wf] ks ok, where pool = False])
      (auto simp: bconf_add_datav_canfail_def lookup_addv_root view_root_node add_conflict_def)
qed

text \<open>The same for an addition that ends the process on a conflict.\<close>

lemma add_datav_ok:
  assumes wf: "wf_root root" and ks: "\<forall>k \<in> set argv. nul_free k" and v: "nul_free v"
  shows "if add_conflict (root_node root) argv
    then bconf_add_datav root argv v dup \<in> {Inl Err_can_not_add, Inl Err_conflict}
    else \<exists>n c. bconf_add_datav root argv v dup = Inr (n, c) \<and> wf_bconf n \<and>
      bn_key n = bn_key (root_node root) \<and> bconf_view n = (root_view root)(argv \<mapsto> v) \<and>
      (c = 0 \<or> c = 1) \<and> (c = 1 \<longrightarrow> root_view root argv = Some v)"
proof -
  have ok: "data_ok v (length v) dup" using v by (simp add: data_ok_def)
  note wfn = wf_root_node [OF wf]
  have same: "root_view root argv = Some v"
    if "bn_type (target (root_node root) argv) = NODE_VAL" "bn_value (target (root_node root) argv) = Some v"
  proof -
    have "bn_vlen (target (root_node root) argv) = length v"
      using wf_value [OF wf_target [OF wfn ks]] that by (simp add: value_ok_def)
    with that have "bconf_view (target (root_node root) argv) [] = Some v" by simp
    then show ?thesis
      using view_target [of "root_node root" argv "[]"]
      by (simp add: view_root_node del: bconf_view.simps)
  qed
  show ?thesis
    by (rule add_cases [OF wfn ks ok, where pool = False])
      (auto simp: bconf_add_datav_def lookup_addv_root view_root_node add_conflict_def same)
qed

lemma add_bindatav_ok:
  assumes wf: "wf_root root" and ks: "\<forall>k \<in> set keyv. nul_free k" and v: "vlen \<le> length v"
  shows "if add_conflict (root_node root) keyv
    then bconf_add_bindatav root keyv (Some v) vlen \<in> {Inl Err_can_not_add, Inl Err_conflict}
    else \<exists>n. bconf_add_bindatav root keyv (Some v) vlen = Inr (Some n, 0) \<and> wf_bconf n \<and>
      bn_key n = bn_key (root_node root) \<and> bconf_view n = (root_view root)(keyv \<mapsto> take vlen v)"
proof -
  have ok: "data_ok v vlen BCONF_REF" using v by (simp add: data_ok_def)
  show ?thesis
    by (rule add_cases [OF wf_root_node [OF wf] ks ok, where pool = False])
      (auto simp: bconf_add_bindatav_def lookup_addv_root view_root_node add_conflict_def)
qed

lemma add_datav_Inr:
  assumes "wf_root root" "\<forall>k \<in> set argv. nul_free k" "nul_free v"
    "bconf_add_datav root argv v dup = Inr (n, c)"
  shows "\<not> add_conflict (root_node root) argv" "wf_bconf n" "bn_key n = bn_key (root_node root)"
    "bconf_view n = (root_view root)(argv \<mapsto> v)" "c = 0 \<or> c = 1" "c = 1 \<Longrightarrow> root_view root argv = Some v"
  using add_datav_ok [OF assms(1-3), of dup] assms(4) by (auto split: if_splits)

lemma add_bindatav_Inr:
  assumes "wf_root root" "\<forall>k \<in> set keyv. nul_free k" "vlen \<le> length v"
    "bconf_add_bindatav root keyv (Some v) vlen = Inr (r, c)"
  shows "\<exists>n. r = Some n \<and> c = 0 \<and> \<not> add_conflict (root_node root) keyv \<and> wf_bconf n \<and>
    bn_key n = bn_key (root_node root) \<and> bconf_view n = (root_view root)(keyv \<mapsto> take vlen v)"
  using add_bindatav_ok [OF assms(1-3)] assms(4) by (auto split: if_splits)

text \<open>The additions by dotted key are those by key vector, after splitting.\<close>

lemma add_data_canfail_split:
  "bconf_add_data_canfail root key v = bconf_add_datav_canfail root (split_key key) v BCONF_DUP"
  by (simp add: bconf_add_data_canfail_def bconf_add_datav_canfail_def lookup_add_split)

lemma add_data_split:
  "bconf_add_data root key v =
     (case bconf_add_datav root (split_key key) v BCONF_DUP of Inl e \<Rightarrow> Inl e | Inr (n, c) \<Rightarrow> Inr n)"
  by (auto simp: bconf_add_data_def bconf_add_datav_def lookup_add_split
      split: sum.splits option.splits)

lemma add_bindata_split:
  "bconf_add_bindata root key v vlen =
     (case bconf_add_bindatav root (split_key key) v vlen of Inl e \<Rightarrow> Inl e | Inr (n, c) \<Rightarrow> Inr n)"
  by (auto simp: bconf_add_bindata_def bconf_add_bindatav_def lookup_add_split
      split: sum.splits option.splits)

lemma add_data_pool_ok:
  assumes wf: "wf_root root" and key: "nul_free key" and v: "nul_free v"
  shows "if add_conflict (root_node root) (split_key key)
    then bconf_add_data_pool root key v \<in> {Inl Err_can_not_add, Inl Err_conflict}
    else \<exists>n. bconf_add_data_pool root key v = Inr n \<and> wf_bconf n \<and>
      bconf_view n = (root_view root)(split_key key \<mapsto> v)"
proof -
  have ok: "data_ok v (length v) BCONF_DUP" using v by (simp add: data_ok_def)
  show ?thesis
    by (rule add_cases [OF wf_root_node [OF wf] nul_free_split_key [OF key] ok, where pool = True])
      (auto simp: bconf_add_data_pool_def lookup_add_split lookup_addv_root view_root_node add_conflict_def)
qed

text \<open>An added list node leaves the values as they are.\<close>

lemma add_listnodev_ok:
  assumes wf: "wf_root root" and ks: "\<forall>k \<in> set keyv. nul_free k"
  shows "\<exists>root' r. bconf_add_listnodev root keyv = Inr (root', r) \<and> wf_root root' \<and>
    root_view root' = root_view root"
proof -
  from lookup_addv_from_ok [OF wf_root_node [OF wf] ks] obtain n r where
    "lookup_addv_from (root_node root) keyv = Inr (n, r) \<and> wf_bconf n \<and>
     bconf_view n = bconf_view (root_node root)" by blast
  with wf show ?thesis
    by (cases r) (auto simp: bconf_add_listnodev_def lookup_addv_root view_root_node)
qed

lemma add_listnode_split:
  "bconf_add_listnode root (Some key) = bconf_add_listnodev root (split_key key)"
  by (simp add: bconf_add_listnode_def bconf_add_listnodev_def lookup_add_split split_key_not_Nil)

section \<open>Merging\<close>

text \<open>
  The contract of a merge: the source overrides the destination, except below a path where the
  destination has a value. It fails when a value of the source has a list in its place in the
  destination or a value directly above it; a value further up hides the conflict.
\<close>

fun merge_view :: "(cstring list \<Rightarrow> cstring option) \<Rightarrow> (cstring list \<Rightarrow> cstring option) \<Rightarrow>
    cstring list \<Rightarrow> cstring option" where
  "merge_view m s [] = (case s [] of None \<Rightarrow> m [] | Some v \<Rightarrow> Some v)"
| "merge_view m s (k # q) =
     (if m [] \<noteq> None then m (k # q) else merge_view (\<lambda>q. m (k # q)) (\<lambda>q. s (k # q)) q)"

definition merge_clash :: "bconf_node \<Rightarrow> (cstring list \<Rightarrow> cstring option) \<Rightarrow> bool" where
  "merge_clash d s = (\<exists>p k. s (p @ [k]) \<noteq> None \<and> \<not> blocked d p \<and> add_conflict d (p @ [k]))"

text \<open>The values below a list of children.\<close>

definition subs_view :: "bconf_node list \<Rightarrow> cstring list \<Rightarrow> cstring option" where
  "subs_view sns q =
     (case q of
        [] \<Rightarrow> None
      | k # q' \<Rightarrow> (case find (\<lambda>c. bn_key c = k) sns of None \<Rightarrow> None | Some c \<Rightarrow> bconf_view c q'))"

lemma subs_view_node: "subs_view (bn_sub_nodes n) = (bconf_view n)([] := None)"
  by (auto simp: subs_view_def child_def fun_eq_iff split: list.splits)

lemma merge_view_empty [simp]: "merge_view m Map.empty = m"
proof
  show "merge_view m Map.empty q = m q" for q
    by (induction q arbitrary: m) auto
qed

lemma merge_view_leaf: "m [] \<noteq> None \<Longrightarrow> s [] = None \<Longrightarrow> merge_view m s = m"
proof
  show "merge_view m s q = m q" if "m [] \<noteq> None" "s [] = None" for q
    using that by (cases q) auto
qed

lemma merge_view_into_empty: "merge_view Map.empty s = s"
proof
  show "merge_view Map.empty s q = s q" for q
    by (induction q arbitrary: s) (auto split: option.splits)
qed

lemma merge_view_single: "m [] = None \<Longrightarrow>
    merge_view m (subs_view [sn]) = graft m [bn_key sn] (merge_view (\<lambda>q. m (bn_key sn # q)) (bconf_view sn))"
proof
  fix q
  assume "m [] = None"
  then show "merge_view m (subs_view [sn]) q =
      graft m [bn_key sn] (merge_view (\<lambda>q. m (bn_key sn # q)) (bconf_view sn)) q"
    using merge_view_empty by (cases q) (auto simp: subs_view_def graft_def)
qed

lemma merge_view_step:
  assumes "bn_key sn \<notin> bn_key ` set sns" "m [] = None"
  shows "merge_view (merge_view m (subs_view [sn])) (subs_view sns) = merge_view m (subs_view (sn # sns))"
proof
  fix q
  have "find (\<lambda>c. bn_key c = bn_key sn) sns = None" using assms(1) by (auto simp: find_None_iff image_iff)
  then show "merge_view (merge_view m (subs_view [sn])) (subs_view sns) q = merge_view m (subs_view (sn # sns)) q"
    using assms(2) merge_view_empty by (cases q) (auto simp: subs_view_def)
qed

lemma add_conflict_Cons: "add_conflict n (k # ks) \<longleftrightarrow> is_leaf n \<or> add_conflict (child_or_new n k) ks"
  by (auto simp: add_conflict_def child_or_new_blocked)

lemma merge_view_add:
  assumes "\<And>p q. s (p @ q) \<noteq> None \<Longrightarrow> q \<noteq> [] \<Longrightarrow> m p = None"
  shows "merge_view m s q = (m ++ s) q"
  using assms
proof (induction q arbitrary: m s)
  case Nil
  then show ?case by (simp add: map_add_def split: option.split)
next
  case (Cons k q)
  show ?case
  proof (cases "m [] = None")
    case True
    have "merge_view (\<lambda>q. m (k # q)) (\<lambda>q. s (k # q)) q = ((\<lambda>q. m (k # q)) ++ (\<lambda>q. s (k # q))) q"
    proof (rule Cons.IH)
      fix p r
      assume "s (k # p @ r) \<noteq> None" "r \<noteq> []"
      then show "m (k # p) = None" using Cons.prems [of "k # p" r] by simp
    qed
    with True show ?thesis by (simp add: map_add_def)
  next
    case False
    then have "s (k # q) = None" using Cons.prems [of "[]" "k # q"] by force
    with False show ?thesis by (simp add: map_add_def)
  qed
qed

section \<open>When a merge fails\<close>

lemma subs_view_Nil [simp]: "subs_view [] q = None"
  by (simp add: subs_view_def split: list.split)

lemma merge_clash_empty: "(\<And>q. s q = None) \<Longrightarrow> \<not> merge_clash d s"
  by (simp add: merge_clash_def)

lemma merge_clash_Cons:
  assumes "bn_key sn \<notin> bn_key ` set sns"
  shows "merge_clash d (subs_view (sn # sns)) \<longleftrightarrow> merge_clash d (subs_view [sn]) \<or> merge_clash d (subs_view sns)"
proof -
  have "find (\<lambda>c. bn_key c = bn_key sn) sns = None" using assms by (auto simp: find_None_iff image_iff)
  then have "subs_view (sn # sns) q \<noteq> None \<longleftrightarrow> subs_view [sn] q \<noteq> None \<or> subs_view sns q \<noteq> None" for q
    by (cases q) (auto simp: subs_view_def)
  then show ?thesis unfolding merge_clash_def by blast
qed

lemma merge_clash_value:
  assumes "bconf_view sn = [[] \<mapsto> v]"
  shows "merge_clash d (subs_view [sn]) \<longleftrightarrow> add_conflict d [bn_key sn]"
proof -
  have "subs_view [sn] q \<noteq> None \<longleftrightarrow> q = [bn_key sn]" for q
    using assms by (cases q) (auto simp: subs_view_def split: if_splits)
  then show ?thesis by (auto simp: merge_clash_def)
qed

lemma merge_clash_list:
  assumes "bconf_view sn [] = None"
  shows "merge_clash d (subs_view [sn]) \<longleftrightarrow> \<not> is_leaf d \<and> merge_clash (child_or_new d (bn_key sn)) (bconf_view sn)"
proof -
  have s: "subs_view [sn] (p @ [k]) \<noteq> None \<longleftrightarrow>
      (\<exists>p'. p = bn_key sn # p' \<and> bconf_view sn (p' @ [k]) \<noteq> None)" for p k
    using assms by (cases p) (auto simp: subs_view_def simp del: bconf_view.simps split: if_splits)
  have c: "\<not> blocked d (bn_key sn # p) \<and> add_conflict d ((bn_key sn # p) @ [k]) \<longleftrightarrow>
      \<not> is_leaf d \<and> \<not> blocked (child_or_new d (bn_key sn)) p \<and> add_conflict (child_or_new d (bn_key sn)) (p @ [k])" for p k
    by (auto simp: child_or_new_blocked add_conflict_Cons)
  show ?thesis unfolding merge_clash_def s using c by blast
qed

lemma merge_clash_cong:
  assumes "is_leaf d1 = is_leaf d" "\<And>k. k \<noteq> key \<Longrightarrow> child d1 k = child d k" "key \<notin> bn_key ` set sns"
  shows "merge_clash d1 (subs_view sns) = merge_clash d (subs_view sns)"
proof -
  have "blocked d1 p = blocked d p \<and> add_conflict d1 (p @ [k]) = add_conflict d (p @ [k])"
    if "subs_view sns (p @ [k]) \<noteq> None" for p k
  proof (cases "p @ [k]")
    case (Cons h t)
    have "h \<noteq> key"
    proof
      assume "h = key"
      then have "find (\<lambda>c. bn_key c = h) sns = None" using assms(3) by (auto simp: find_None_iff image_iff)
      with that Cons show False by (simp add: subs_view_def)
    qed
    then have c: "child d1 h = child d h" "child_or_new d1 h = child_or_new d h"
      using assms(2) by (simp_all add: child_or_new_def)
    have "blocked d1 p = blocked d p" using Cons assms(1) c(1) by (cases p) auto
    moreover have "add_conflict d1 (p @ [k]) = add_conflict d (p @ [k])"
      unfolding Cons add_conflict_Cons using assms(1) c(2) by simp
    ultimately show ?thesis ..
  qed simp
  then show ?thesis unfolding merge_clash_def by blast
qed

text \<open>An addition below a node leaves its other children alone.\<close>

lemma add_dataX_child:
  assumes "wf_bconf d" "nul_free k" "data_ok v vlen dup" "\<not> add_conflict d [k]" "k' \<noteq> k"
    "lookup_addv_from d [k] = Inr (n, Some p)" "bconf_add_dataX pool (node_at n p) (Some v) vlen dup = Inr (m, c)"
  shows "child (node_put n p m) k' = child d k'"
proof -
  have inner: "\<not> is_leaf d" and ty: "bn_type (child_or_new d k) \<noteq> NODE_LIST"
    using assms(4) by (auto simp: add_conflict_def)
  obtain d1 i where g: "bconf_get_node d k = Inr (d1, Some i)" "wf_bconf d1" "i < length (bn_sub_nodes d1)"
    "bn_sub_nodes d1 ! i = child_or_new d k" "\<And>k'. child d1 k' = (if k' = k then Some (child_or_new d k) else child d k')"
    by (rule get_node_inner [OF assms(1,2) inner]) (rule that)
  have np: "n = d1" "p = [i]" using assms(6) g(1) set_sub_same [of d1 i] by auto
  note wfc = wf_child_or_new [OF assms(1,2)]
  obtain m' c' where m: "bconf_add_dataX pool (child_or_new d k) (Some v) vlen dup = Inr (m', c')" "wf_bconf m'"
    "bn_key m' = bn_key (child_or_new d k)"
    by (rule add_dataX_ok [OF wfc [THEN conjunct1] assms(3) ty, of pool]) (rule that)
  have "m' = m" using m(1) assms(7) g(3,4) by (simp add: np)
  then show ?thesis
    using child_set_sub [OF g(2) m(2) g(3)] m(3) g(3-5) wfc assms(5) by (simp add: np)
qed

lemma add_datav_child:
  assumes "wf_bconf d" "nul_free k" "nul_free v" "bconf_add_datav (Some d) [k] v dup = Inr (d', r)" "k' \<noteq> k"
  shows "child d' k' = child d k'"
proof -
  have nc: "\<not> add_conflict d [k]" using add_datav_Inr(1) [OF _ _ assms(3,4)] assms(1,2) by simp
  have ok: "data_ok v (length v) dup" using assms(3) by (simp add: data_ok_def)
  show ?thesis using assms(4)
    by (auto simp: bconf_add_datav_def bconf_lookup_addv_def simp del: lookup_addv_from.simps
        split: sum.splits option.splits if_splits dest!: add_dataX_child [OF assms(1,2) ok nc assms(5)])
qed

lemma add_bindatav_child:
  assumes "wf_bconf d" "nul_free k" "vlen \<le> length v" "bconf_add_bindatav (Some d) [k] (Some v) vlen = Inr (Some d', r)" "k' \<noteq> k"
  shows "child d' k' = child d k'"
proof -
  have nc: "\<not> add_conflict d [k]" using add_bindatav_Inr [OF _ _ assms(3,4)] assms(1,2) by simp
  have ok: "data_ok v vlen BCONF_REF" using assms(3) by (simp add: data_ok_def)
  show ?thesis using assms(4)
    by (auto simp: bconf_add_bindatav_def bconf_lookup_addv_def simp del: lookup_addv_from.simps
        split: sum.splits option.splits if_splits dest!: add_dataX_child [OF assms(1,2) ok nc assms(5)])
qed

section \<open>The steps of a merge\<close>

text \<open>One child of the source: what a step of the merge loop does.\<close>

lemma merge_leaf_child:
  assumes "bn_sub_nodes sn = []" "m [] = None" "bconf_view sn [] = Some v"
    "\<And>q. q \<noteq> [] \<Longrightarrow> m (bn_key sn # q) = None"
  shows "merge_view m (subs_view [sn]) = m([bn_key sn] \<mapsto> v)"
proof -
  have "bconf_view sn = [[] \<mapsto> v]" using assms(1,3) by (auto simp: view_no_subs)
  moreover have "merge_view (\<lambda>q. m (bn_key sn # q)) [[] \<mapsto> v] q = [[] \<mapsto> v] q" for q
  proof (cases q)
    case (Cons k r)
    have "m (bn_key sn # k # r) = None" using assms(4) by blast
    moreover have "(\<lambda>q. [[] \<mapsto> v] (k # q)) = Map.empty" by auto
    ultimately show ?thesis using Cons merge_view_empty by (auto)
  qed simp
  ultimately have "merge_view (\<lambda>q. m (bn_key sn # q)) (bconf_view sn) = [[] \<mapsto> v]" by auto
  with assms(2,4) show ?thesis
    by (simp add: merge_view_single) (rule graft_leaf, simp)
qed

lemma conflict_single:
  assumes "\<not> add_conflict d [k]" "wf_bconf d" "nul_free k"
  shows "bconf_view d [] = None" "q \<noteq> [] \<Longrightarrow> bconf_view d (k # q) = None"
proof -
  have "\<not> is_leaf d" "bn_type (child_or_new d k) \<noteq> NODE_LIST"
    using assms(1) by (auto simp: add_conflict_def)
  then show "bconf_view d [] = None" using is_leaf_value [OF assms(2)] by simp
  have "bn_sub_nodes (child_or_new d k) = []"
    using wf_list [of "child_or_new d k"] wf_child_or_new [OF assms(2,3)]
      \<open>bn_type (child_or_new d k) \<noteq> NODE_LIST\<close> by blast
  then show "q \<noteq> [] \<Longrightarrow> bconf_view d (k # q) = None"
    by (simp add: child_or_new_view view_no_subs del: bconf_view.simps)
qed

definition step_ok :: "bconf_node \<Rightarrow> bconf_node \<Rightarrow> bconf_node \<Rightarrow> bool \<Rightarrow> bool" where
  "step_ok d sn d' r = (wf_bconf d' \<and> bn_key d' = bn_key d \<and>
     bconf_view d' = merge_view (bconf_view d) (subs_view [sn]) \<and> (r \<or> bconf_view d' = bconf_view d) \<and>
     (\<forall>k. k \<noteq> bn_key sn \<longrightarrow> child d' k = child d k) \<and> \<not> merge_clash d (subs_view [sn]))"

lemma step_leaf:
  assumes "wf_bconf d" "step_ok d sn d' r"
  shows "is_leaf d' = is_leaf d"
proof -
  have "bconf_view d' [] = merge_view (bconf_view d) (subs_view [sn]) []" using assms(2) by (simp add: step_ok_def del: bconf_view.simps)
  then have "bconf_view d' [] = bconf_view d []" by (simp add: subs_view_def del: bconf_view.simps)
  then have "bn_value d' = None \<longleftrightarrow> bn_value d = None" by (auto split: option.splits)
  with is_leaf_value [OF assms(1)] is_leaf_value [of d'] assms(2) show ?thesis by (simp add: step_ok_def)
qed

lemma step_val:
  assumes wf: "wf_bconf d" "wf_bconf sn" and ty: "bn_type sn = NODE_VAL" and v: "bn_value sn = Some v"
    and add: "bconf_add_datav (Some d) [bn_key sn] v BCONF_DUP = Inr (d', r)"
  shows "step_ok d sn d' (r = 0)"
proof -
  have vv: "nul_free v" "bn_vlen sn = length v"
    using wf_value [OF wf(2)] ty v by (auto simp: value_ok_def)
  have k: "nul_free (bn_key sn)" by (rule wf_key_nul_free [OF wf(2)])
  have nc: "\<not> add_conflict d [bn_key sn]" and d': "wf_bconf d'" "bn_key d' = bn_key d"
    "bconf_view d' = (bconf_view d)([bn_key sn] \<mapsto> v)" "r = 0 \<or> r = 1"
    "r = 1 \<Longrightarrow> bconf_view d [bn_key sn] = Some v"
    using add_datav_Inr [OF _ _ vv(1) add] wf(1) k by (simp_all del: bconf_view.simps)
  have "is_leaf sn" using ty by (simp add: is_leaf_def)
  then have subs: "bn_sub_nodes sn = []" by (rule leaf_no_subs [OF wf(2)])
  have "merge_view (bconf_view d) (subs_view [sn]) = (bconf_view d)([bn_key sn] \<mapsto> v)"
    by (rule merge_leaf_child [OF subs])
      (use conflict_single [OF nc wf(1) k] v vv in \<open>simp_all add: conflict_single(2) [OF nc wf(1) k]\<close>)
  moreover have "r = 0 \<or> bconf_view d' = bconf_view d"
    using d'(3-5) by (metis fun_upd_triv)
  moreover have "bconf_view sn = [[] \<mapsto> v]" using subs v vv by (auto simp: view_no_subs)
  moreover have "child d' k = child d k" if "k \<noteq> bn_key sn" for k
    using add_datav_child [OF wf(1) k vv(1) add that] .
  ultimately show ?thesis using d' nc by (simp add: step_ok_def merge_clash_value)
qed

lemma step_bin:
  assumes wf: "wf_bconf d" "wf_bconf sn" and ty: "bn_type sn = NODE_BIN"
    and add: "bconf_add_bindatav (Some d) [bn_key sn] (bn_value sn) (bn_vlen sn) = Inr (d', r)"
  shows "\<exists>x. d' = Some x \<and> step_ok d sn x (r = 0)"
proof -
  obtain v where v: "bn_value sn = Some v" "bn_vlen sn \<le> length v"
    using wf_value [OF wf(2)] ty by (auto simp: value_ok_def split: option.splits)
  have k: "nul_free (bn_key sn)" by (rule wf_key_nul_free [OF wf(2)])
  obtain x where nc: "\<not> add_conflict d [bn_key sn]" and x: "d' = Some x" "r = 0" "wf_bconf x"
    "bn_key x = bn_key d" "bconf_view x = (bconf_view d)([bn_key sn] \<mapsto> take (bn_vlen sn) v)"
    using add_bindatav_Inr [OF _ _ v(2) add [unfolded v(1)]] wf(1) k by auto
  have "is_leaf sn" using ty by (simp add: is_leaf_def)
  then have subs: "bn_sub_nodes sn = []" by (rule leaf_no_subs [OF wf(2)])
  have "merge_view (bconf_view d) (subs_view [sn]) = (bconf_view d)([bn_key sn] \<mapsto> take (bn_vlen sn) v)"
    by (rule merge_leaf_child [OF subs])
      (use conflict_single [OF nc wf(1) k] v in \<open>simp_all add: conflict_single(2) [OF nc wf(1) k]\<close>)
  moreover have "bconf_view sn = [[] \<mapsto> take (bn_vlen sn) v]" using subs v by (auto simp: view_no_subs)
  moreover have "child x k = child d k" if "k \<noteq> bn_key sn" for k
    using add_bindatav_child [OF wf(1) k v(2) add [unfolded v(1) x(1)] that] .
  ultimately show ?thesis using x nc by (simp add: step_ok_def merge_clash_value)
qed

lemma step_list:
  assumes wf: "wf_bconf d" "wf_bconf sn" and ty: "bn_type sn = NODE_LIST"
    and get: "bconf_get_node d (bn_key sn) = Inr (d1, Some i)"
    and dn: "wf_bconf dn" "bn_key dn = bn_key (bn_sub_nodes d1 ! i)"
      "bconf_view dn = merge_view (bconf_view (bn_sub_nodes d1 ! i)) (subs_view (bn_sub_nodes sn))"
      "r \<or> bconf_view dn = bconf_view (bn_sub_nodes d1 ! i)" "\<not> merge_clash (bn_sub_nodes d1 ! i) (subs_view (bn_sub_nodes sn))"
  shows "step_ok d sn (set_sub d1 i dn) r"
proof -
  have k: "nul_free (bn_key sn)" by (rule wf_key_nul_free [OF wf(2)])
  have inner: "\<not> is_leaf d" using get by (auto simp: get_node_leaf)
  let ?c = "child_or_new d (bn_key sn)"
  obtain n' j where g: "bconf_get_node d (bn_key sn) = Inr (n', Some j)" "wf_bconf n'"
    "j < length (bn_sub_nodes n')" "bn_sub_nodes n' ! j = ?c"
    "\<And>k'. child n' k' = (if k' = bn_key sn then Some ?c else child d k')"
    "bn_type n' = NODE_LIST" "bn_key n' = bn_key d" "bn_value n' = bn_value d"
    by (rule get_node_inner [OF wf(1) k inner]) (rule that)
  with get have eq: "n' = d1" "j = i" by auto
  note g = g [unfolded eq]
  have wfc: "wf_bconf ?c" "bn_key ?c = bn_key sn" using wf_child_or_new [OF wf(1) k] by auto
  have nov: "bn_value d = None" using inner is_leaf_value [OF wf(1)] by simp
  have "\<not> is_leaf sn" using ty by (simp add: is_leaf_def)
  then have "bn_value sn = None" using is_leaf_value [OF wf(2)] by simp
  then have sv: "subs_view (bn_sub_nodes sn) = bconf_view sn"
    by (simp add: subs_view_node fun_upd_idem)
  have view: "bconf_view (set_sub d1 i dn) = graft (bconf_view d) [bn_key sn] (bconf_view dn)"
    using g dn(1,2) wfc nov by (intro view_set_sub [OF g(2,3)]) auto
  have cv: "bconf_view ?c = (\<lambda>q. bconf_view d (bn_key sn # q))"
    by (simp add: child_or_new_view fun_eq_iff del: bconf_view.simps)
  have "wf_bconf (set_sub d1 i dn)" using dn(2) by (intro wf_set_sub [OF g(2) dn(1) g(3)])
  moreover have "merge_view (bconf_view d) (subs_view [sn]) = graft (bconf_view d) [bn_key sn] (bconf_view dn)"
    using dn(3) nov by (simp add: merge_view_single g(4) sv cv)
  moreover have "graft (bconf_view d) [bn_key sn] (bconf_view ?c) = bconf_view d"
    using graft_same [of "bconf_view d" "[bn_key sn]"] by (simp add: cv)
  moreover have "child (set_sub d1 i dn) k = child d k" if "k \<noteq> bn_key sn" for k
    using child_set_sub [OF g(2) dn(1) g(3) dn(2)] that g(4,5) dn(2) wfc(2) by simp
  moreover have "\<not> merge_clash d (subs_view [sn])"
    using dn(5) \<open>bn_value sn = None\<close> by (simp add: merge_clash_list g(4) sv)
  ultimately show ?thesis
    using view dn(4) g(4,7) by (auto simp: step_ok_def)
qed

lemma view_none_type: "wf_bconf n \<Longrightarrow> bn_type n = NODE_NONE \<Longrightarrow> bconf_view n = Map.empty"
proof -
  assume wf: "wf_bconf n" and ty: "bn_type n = NODE_NONE"
  have "bn_sub_nodes n = []" using wf_list [OF wf] ty by force
  moreover have "bn_value n = None" using wf_value [OF wf] ty by (auto simp: value_ok_def split: option.splits)
  ultimately show ?thesis by (simp add: view_no_subs fun_upd_idem)
qed

lemma step_none:
  assumes "wf_bconf d" "wf_bconf sn" "bn_type sn = NODE_NONE"
  shows "step_ok d sn d r"
proof -
  have "subs_view [sn] = Map.empty"
    using view_none_type [OF assms(2,3)] by (auto simp: subs_view_def fun_eq_iff split: list.splits)
  with assms show ?thesis by (simp add: step_ok_def merge_clash_empty)
qed

lemma step_skip:
  assumes "wf_bconf d" "bconf_get_node d k = Inr (d', None)"
  shows "d' = d \<and> is_leaf d"
  using assms by (auto simp: bconf_get_node_def is_leaf_def split: if_splits option.splits sum.splits)
    (metis node_type.exhaust)+

lemma get_node_child:
  assumes "wf_bconf d" "nul_free k" "bconf_get_node d k = Inr (d1, Some i)"
  shows "wf_bconf (bn_sub_nodes d1 ! i)" "bn_sub_nodes d1 ! i = child_or_new d k" "\<not> is_leaf d"
proof -
  have inner: "\<not> is_leaf d" using assms(3) by (auto simp: get_node_leaf)
  have "bn_sub_nodes d1 ! i = child_or_new d k"
    by (rule get_node_inner [OF assms(1,2) inner]) (use assms(3) in auto)
  then show "wf_bconf (bn_sub_nodes d1 ! i)" "bn_sub_nodes d1 ! i = child_or_new d k" "\<not> is_leaf d"
    using inner wf_child_or_new [OF assms(1,2)] by auto
qed

definition merge_ok :: "bconf_node \<Rightarrow> bconf_node list \<Rightarrow> bool \<Rightarrow> bconf_node \<Rightarrow> bool \<Rightarrow> bool" where
  "merge_ok d sns ret d' r = (wf_bconf d' \<and> bn_key d' = bn_key d \<and>
     bconf_view d' = merge_view (bconf_view d) (subs_view sns) \<and>
     (\<not> r \<longrightarrow> \<not> ret \<and> bconf_view d' = bconf_view d))"

lemma merge_ok_Nil: "wf_bconf d \<Longrightarrow> merge_ok d [] ret d ret"
proof -
  assume "wf_bconf d"
  moreover have "subs_view [] = Map.empty" by (auto simp: subs_view_def fun_eq_iff split: list.splits)
  ultimately show ?thesis by (simp add: merge_ok_def)
qed

text \<open>A step and the rest of the loop; below a value nothing is added, so the order is the same.\<close>

lemma merge_ok_Cons:
  assumes step: "step_ok d sn d1 r1" and rest: "merge_ok d1 sns (ret \<or> r1) d' r"
    and distinct: "bn_key sn \<notin> bn_key ` set sns"
  shows "merge_ok d (sn # sns) ret d' r"
proof -
  have "merge_view (merge_view (bconf_view d) (subs_view [sn])) (subs_view sns) =
      merge_view (bconf_view d) (subs_view (sn # sns))"
  proof (cases "bconf_view d [] = None")
    case True
    then show ?thesis by (rule merge_view_step [OF distinct])
  next
    case False
    have "subs_view xs [] = None" for xs by (simp add: subs_view_def)
    with False show ?thesis using merge_view_leaf [of "bconf_view d"] by simp
  qed
  with step rest show ?thesis by (auto simp: merge_ok_def step_ok_def)
qed

lemma merge_ok_skip:
  assumes "is_leaf d" "wf_bconf d" "merge_ok d sns ret d' r"
  shows "merge_ok d (sn # sns) ret d' r"
proof -
  have "bconf_view d [] \<noteq> None" using is_leaf_value [OF assms(2)] assms(1) by simp
  moreover have "subs_view xs [] = None" for xs by (simp add: subs_view_def)
  ultimately show ?thesis using assms(3) by (simp add: merge_ok_def merge_view_leaf)
qed

text \<open>The only errors of a merge are the two conflicts of an addition, when there is one.\<close>

abbreviation conflict_error :: "bconf_error \<Rightarrow> bool" where
  "conflict_error e \<equiv> e = Err_can_not_add \<or> e = Err_conflict"

definition merge_res ::
  "bconf_node \<Rightarrow> bconf_node list \<Rightarrow> bool \<Rightarrow> bconf_error + bconf_node \<times> bool \<Rightarrow> bool" where
  "merge_res d sns ret res =
     (case res of
        Inl e \<Rightarrow> conflict_error e \<and> merge_clash d (subs_view sns)
      | Inr (d', r) \<Rightarrow> merge_ok d sns ret d' r \<and> \<not> merge_clash d (subs_view sns))"

lemma merge_res_Cons:
  assumes "wf_bconf d" "step_ok d sn d1 r1" "bn_key sn \<notin> bn_key ` set sns" "merge_res d1 sns (ret \<or> r1) res"
  shows "merge_res d (sn # sns) ret res"
proof -
  have "merge_clash d1 (subs_view sns) = merge_clash d (subs_view sns)"
    using step_leaf [OF assms(1,2)] assms(2,3) by (intro merge_clash_cong [where key = "bn_key sn"]) (auto simp: step_ok_def)
  moreover have "\<not> merge_clash d (subs_view [sn])" using assms(2) by (simp add: step_ok_def)
  ultimately show ?thesis
    using assms(4) merge_ok_Cons [OF assms(2) _ assms(3)]
    by (auto simp: merge_res_def merge_clash_Cons [OF assms(3)] split: sum.splits)
qed

lemma merge_res_skip:
  assumes "is_leaf d" "wf_bconf d" "wf_bconf sn" "bn_type sn = NODE_LIST" "bn_key sn \<notin> bn_key ` set sns" "merge_res d sns ret res"
  shows "merge_res d (sn # sns) ret res"
proof -
  have "\<not> is_leaf sn" using assms(4) by (simp add: is_leaf_def)
  then have "bn_value sn = None" using is_leaf_value [OF assms(3)] by simp
  then have "\<not> merge_clash d (subs_view [sn])" using assms(1) by (simp add: merge_clash_list)
  then show ?thesis
    using assms(6) merge_ok_skip [OF assms(1,2)]
    by (auto simp: merge_res_def merge_clash_Cons [OF assms(5)] split: sum.splits)
qed

lemma merge_res_clash:
  assumes "bn_key sn \<notin> bn_key ` set sns" "conflict_error e" "merge_clash d (subs_view [sn])"
  shows "merge_res d (sn # sns) ret (Inl e)"
  using assms(2,3) by (simp add: merge_res_def merge_clash_Cons [OF assms(1)])

lemma get_node_no_error:
  assumes "wf_bconf d" "nul_free k"
  obtains d1 ri where "bconf_get_node d k = Inr (d1, ri)"
proof (cases "is_leaf d")
  case False
  then show ?thesis by (rule get_node_inner [OF assms]) (rule that)
next
  case True
  then show ?thesis by (rule that [OF get_node_leaf])
qed

text \<open>The sum of the cases of a value child.\<close>

lemma leaf_view: "wf_bconf n \<Longrightarrow> is_leaf n \<Longrightarrow> bn_value n = Some v \<Longrightarrow> bconf_view n = [[] \<mapsto> take (bn_vlen n) v]"
  using leaf_no_subs [of n] by (auto simp: view_no_subs)

lemma val_cases:
  assumes wf: "wf_bconf d" "wf_bconf sn" and ty: "bn_type sn = NODE_VAL"
  obtains v e where "bn_value sn = Some v" "bconf_add_datav (Some d) [bn_key sn] v BCONF_DUP = Inl e"
      "conflict_error e" "merge_clash d (subs_view [sn])"
  | v d1 r1 where "bn_value sn = Some v" "bconf_add_datav (Some d) [bn_key sn] v BCONF_DUP = Inr (d1, r1)"
      "step_ok d sn d1 (r1 = 0)" "wf_bconf d1"
proof -
  obtain v where v: "bn_value sn = Some v" "nul_free v"
    using wf_value [OF wf(2)] ty by (auto simp: value_ok_def split: option.splits)
  show thesis
  proof (cases "bconf_add_datav (Some d) [bn_key sn] v BCONF_DUP")
    case (Inl e)
    have e: "conflict_error e" "add_conflict d [bn_key sn]"
      using add_datav_ok [of "Some d" "[bn_key sn]" v BCONF_DUP] Inl wf wf_key_nul_free [OF wf(2)] v(2)
      by (auto split: if_splits)
    have "merge_clash d (subs_view [sn])"
      using e(2) by (simp add: merge_clash_value [OF leaf_view [OF wf(2) _ v(1)]] is_leaf_def ty)
    with Inl v e(1) that(1) show ?thesis by blast
  next
    case (Inr p)
    then obtain d1 r1 where add: "bconf_add_datav (Some d) [bn_key sn] v BCONF_DUP = Inr (d1, r1)"
      by (cases p) simp
    note step = step_val [OF wf ty v(1) add]
    then have "wf_bconf d1" by (simp add: step_ok_def)
    with that(2) [OF v(1) add step] show ?thesis by blast
  qed
qed

lemma bin_cases:
  assumes wf: "wf_bconf d" "wf_bconf sn" and ty: "bn_type sn = NODE_BIN"
  obtains e where "bconf_add_bindatav (Some d) [bn_key sn] (bn_value sn) (bn_vlen sn) = Inl e"
      "conflict_error e" "merge_clash d (subs_view [sn])"
  | y r1 where "bconf_add_bindatav (Some d) [bn_key sn] (bn_value sn) (bn_vlen sn) = Inr (Some y, r1)"
      "step_ok d sn y (r1 = 0)" "wf_bconf y"
proof (cases "bconf_add_bindatav (Some d) [bn_key sn] (bn_value sn) (bn_vlen sn)")
  case (Inl e)
  obtain v where v: "bn_value sn = Some v" "bn_vlen sn \<le> length v"
    using wf_value [OF wf(2)] ty by (auto simp: value_ok_def split: option.splits)
  have e: "conflict_error e" "add_conflict d [bn_key sn]"
    using add_bindatav_ok [of "Some d" "[bn_key sn]" "bn_vlen sn" v] Inl wf wf_key_nul_free [OF wf(2)] v
    by (auto split: if_splits)
  have "merge_clash d (subs_view [sn])"
    using e(2) by (simp add: merge_clash_value [OF leaf_view [OF wf(2) _ v(1)]] is_leaf_def ty)
  with Inl e(1) that(1) show ?thesis by blast
next
  case (Inr p)
  then obtain x r1 where add:
    "bconf_add_bindatav (Some d) [bn_key sn] (bn_value sn) (bn_vlen sn) = Inr (x, r1)"
    by (cases p) simp
  from step_bin [OF wf ty add] add that(2) show ?thesis by (auto simp: step_ok_def)
qed

lemma merge_correct:
  "wf_root dst \<Longrightarrow> wf_root src \<Longrightarrow>
     merge_res (root_node dst) (bn_sub_nodes (root_node src)) False (bconf_merge dst src)"
  and merge_subs_correct:
  "wf_bconf d \<Longrightarrow> \<forall>s \<in> set sns. wf_bconf s \<Longrightarrow> distinct (map bn_key sns) \<Longrightarrow>
     merge_res d sns ret (merge_subs d sns ret)"
proof (induction dst src and d sns ret rule: bconf_merge_merge_subs.induct)
  case (1 dst src)
  have "bconf_merge dst src = merge_subs (root_node dst) (bn_sub_nodes (root_node src)) False"
    by (cases src) (simp_all add: bconf_merge.simps root_node_def zero_node_key)
  then show ?case
    using "1.IH" wf_root_node [OF "1.prems"(1)] wf_root_node [OF "1.prems"(2)] wf_keys_distinct [of "root_node src"]
    by (cases src) (auto simp: root_node_def zero_node_key dest: wf_sub)
next
  case (2 d ret)
  then show ?case by (simp add: merge_subs.simps merge_res_def merge_ok_Nil merge_clash_empty)
next
  case (3 d sn sns ret)
  have wfs: "wf_bconf sn" and rest: "\<forall>s \<in> set sns. wf_bconf s" "distinct (map bn_key sns)"
    and new: "bn_key sn \<notin> bn_key ` set sns" using "3.prems" by auto
  have klen: "take (bn_klen sn) (bn_key sn) = bn_key sn" using wf_klen [OF wfs] by simp
  show ?case
  proof (cases "bn_type sn")
    case NODE_NONE
    from "3.IH"(1) [OF NODE_NONE "3.prems"(1) rest] show ?thesis
      using merge_res_Cons [OF "3.prems"(1) step_none [OF "3.prems"(1) wfs NODE_NONE, of False] new] NODE_NONE
      by (simp add: merge_subs.simps)
  next
    case NODE_VAL
    show ?thesis
    proof (cases rule: val_cases [OF "3.prems"(1) wfs NODE_VAL])
      case (1 v e)
      with NODE_VAL new show ?thesis by (simp add: merge_subs.simps merge_res_clash)
    next
      case (2 v d1 r1)
      with "3.IH"(2) [OF NODE_VAL 2(1,2) refl 2(4) rest] merge_res_Cons [OF "3.prems"(1) 2(3) new] NODE_VAL
      show ?thesis by (simp add: merge_subs.simps)
    qed
  next
    case NODE_LIST
    obtain d1 ri where get: "bconf_get_node d (bn_key sn) = Inr (d1, ri)"
      by (rule get_node_no_error [OF "3.prems"(1) wf_key_nul_free [OF wfs]])
    then have get': "bconf_get_node d (take (bn_klen sn) (bn_key sn)) = Inr (d1, ri)" by (simp add: klen)
    show ?thesis
    proof (cases ri)
      case None
      have "d1 = d" "is_leaf d" using step_skip [OF "3.prems"(1) get [unfolded None]] by auto
      with "3.IH"(3) [OF NODE_LIST get' refl None _ rest] "3.prems"(1) get' None NODE_LIST wfs new
      show ?thesis by (simp add: merge_subs.simps merge_res_skip)
    next
      case (Some i)
      note get = get [unfolded Some] and get' = get' [unfolded Some]
      have "wf_bconf (bn_sub_nodes d1 ! i)"
        by (rule get_node_child(1) [OF "3.prems"(1) wf_key_nul_free [OF wfs] get])
      with "3.IH"(4) [OF NODE_LIST get' refl refl] wfs
      have rec: "merge_res (bn_sub_nodes d1 ! i) (bn_sub_nodes sn) False
          (bconf_merge (Some (bn_sub_nodes d1 ! i)) (Some sn))" by simp
      show ?thesis
      proof (cases "bconf_merge (Some (bn_sub_nodes d1 ! i)) (Some sn)")
        case (Inl e)
        have "\<not> is_leaf sn" using NODE_LIST by (simp add: is_leaf_def)
        then have nov: "bn_value sn = None" using is_leaf_value [OF wfs] by simp
        then have "subs_view (bn_sub_nodes sn) = bconf_view sn" by (simp add: subs_view_node fun_upd_idem)
        then have "merge_clash d (subs_view [sn])"
          using rec Inl nov get_node_child [OF "3.prems"(1) wf_key_nul_free [OF wfs] get]
          by (simp add: merge_clash_list merge_res_def)
        moreover have "conflict_error e" using rec Inl by (simp add: merge_res_def)
        ultimately have "merge_res d (sn # sns) ret (Inl e)" by (intro merge_res_clash [OF new])
        with Inl NODE_LIST get' show ?thesis by (simp add: merge_subs.simps)
      next
        case (Inr p)
        obtain dn r1 where p: "p = (dn, r1)" by (cases p)
        with rec Inr have step: "step_ok d sn (set_sub d1 i dn) r1"
          by (intro step_list [OF "3.prems"(1) wfs NODE_LIST get]) (auto simp: merge_res_def merge_ok_def)
        then have "wf_bconf (set_sub d1 i dn)" by (simp add: step_ok_def)
        with "3.IH"(5) [OF NODE_LIST get' refl refl Inr p [symmetric] this rest] merge_res_Cons [OF "3.prems"(1) step new]
          NODE_LIST get' Inr p
        show ?thesis by (simp add: merge_subs.simps)
      qed
    qed
  next
    case NODE_BIN
    show ?thesis
    proof (cases rule: bin_cases [OF "3.prems"(1) wfs NODE_BIN])
      case (1 e)
      with NODE_BIN new show ?thesis by (simp add: merge_subs.simps merge_res_clash)
    next
      case (2 y r1)
      with "3.IH"(6) [OF NODE_BIN 2(1) refl _ rest] merge_res_Cons [OF "3.prems"(1) 2(2) new] NODE_BIN
      show ?thesis by (simp add: merge_subs.simps)
    qed
  qed
qed

lemma no_conflict_above: "wf_bconf n \<Longrightarrow> \<not> add_conflict n (p @ q) \<Longrightarrow> q \<noteq> [] \<Longrightarrow> bconf_view n p = None"
proof (induction p arbitrary: n)
  case Nil
  then have "\<not> is_leaf n" by (cases q) (auto simp: add_conflict_Cons)
  with is_leaf_value [OF Nil(1)] show ?case by simp
next
  case (Cons k p)
  then have nc: "\<not> add_conflict (child_or_new n k) (p @ q)" by (simp add: add_conflict_Cons)
  show ?case
  proof (cases "child n k")
    case (Some c)
    then have "wf_bconf c" "child_or_new n k = c" using wf_child [OF Cons.prems(1)] by (auto simp: child_or_new_def)
    with Cons.IH [of c] nc Cons.prems(3) Some show ?thesis by simp
  qed simp
qed

lemma merge_prefix_ok:
  assumes wf: "wf_root dst" "wf_root src" and k: "nul_free prefix"
  shows "case bconf_merge_prefix dst prefix src of
      Inl e \<Rightarrow> conflict_error e
    | Inr (root, r) \<Rightarrow> wf_root root \<and>
        (root_view dst [] = None \<longrightarrow>
          root_view root = graft (root_view dst) [prefix]
            (merge_view (\<lambda>q. root_view dst (prefix # q)) ((root_view src)([] := None))))"
proof (cases src)
  case None
  have "graft (root_view dst) [prefix] (merge_view (\<lambda>q. root_view dst (prefix # q)) ((root_view src)([] := None)))
      = root_view dst"
    using None graft_same [of "root_view dst" "[prefix]"] by (simp add: root_view_def fun_upd_idem)
  with None wf show ?thesis by (simp add: bconf_merge_prefix_def)
next
  case (Some s)
  let ?d = "root_node dst"
  note wfd = wf_root_node [OF wf(1)]
  have eq: "bconf_merge_prefix dst prefix src =
      (case bconf_get_node ?d prefix of
         Inl e \<Rightarrow> Inl e
       | Inr (d, None) \<Rightarrow> Inr (Some d, False)
       | Inr (d, Some i) \<Rightarrow>
           (case bconf_merge (Some (bn_sub_nodes d ! i)) src of
              Inl e \<Rightarrow> Inl e
            | Inr (dn, r) \<Rightarrow> Inr (Some (set_sub d i dn), r)))"
    unfolding bconf_merge_prefix_def root_node_def Some by simp
  show ?thesis
  proof (cases "is_leaf ?d")
    case True
    then have "root_view dst [] \<noteq> None"
      using is_leaf_value [OF wfd] by (simp flip: view_root_node)
    with True wfd show ?thesis by (auto simp: eq get_node_leaf)
  next
    case False
    let ?c = "child_or_new ?d prefix"
    obtain d1 i where g: "bconf_get_node ?d prefix = Inr (d1, Some i)" "wf_bconf d1"
      "i < length (bn_sub_nodes d1)" "bn_sub_nodes d1 ! i = ?c"
      "\<And>k'. child d1 k' = (if k' = prefix then Some ?c else child ?d k')"
      "bn_type d1 = NODE_LIST" "bn_key d1 = bn_key ?d" "bn_value d1 = bn_value ?d"
      by (rule get_node_inner [OF wfd k False]) (rule that)
    have wfc: "wf_bconf ?c" "bn_key ?c = prefix" using wf_child_or_new [OF wfd k] by auto
    have nov: "bn_value ?d = None" using False is_leaf_value [OF wfd] by simp
    have cv: "bconf_view ?c = (\<lambda>q. root_view dst (prefix # q))"
      by (simp add: child_or_new_view fun_eq_iff flip: view_root_node del: bconf_view.simps)
    have sv: "subs_view (bn_sub_nodes s) = (root_view src)([] := None)"
      using Some by (simp add: subs_view_node)
    have res: "merge_res ?c (bn_sub_nodes s) False (bconf_merge (Some ?c) src)"
      using merge_correct [of "Some ?c" src] wfc wf Some by simp
    show ?thesis
    proof (cases "bconf_merge (Some ?c) src")
      case (Inl e)
      with res g(1,4) show ?thesis by (simp add: eq merge_res_def)
    next
      case (Inr p)
      obtain dn r where p: "p = (dn, r)" by (cases p)
      with Inr res have dn: "wf_bconf dn" "bn_key dn = prefix"
        "bconf_view dn = merge_view (bconf_view ?c) (subs_view (bn_sub_nodes s))"
        using wfc(2) by (auto simp: merge_res_def merge_ok_def)
      have "bconf_view (set_sub d1 i dn) = graft (bconf_view ?d) [prefix] (bconf_view dn)"
        using g dn wfc nov by (intro view_set_sub [OF g(2,3)]) auto
      moreover have "wf_bconf (set_sub d1 i dn)"
        using dn wfc g(4) by (intro wf_set_sub [OF g(2) dn(1) g(3)]) simp
      ultimately show ?thesis
        using Inr p g(1,4) dn(3) by (simp add: eq sv cv view_root_node)
    qed
  qed
qed

section \<open>Deleting and filtering\<close>

lemma remove_sub_simps [simp]:
  "bn_key (remove_sub n i) = bn_key n" "bn_value (remove_sub n i) = bn_value n"
  "bn_vlen (remove_sub n i) = bn_vlen n" "bn_type (remove_sub n i) = bn_type n"
  by (simp_all add: remove_sub_def)

lemma remove_sub_set:
  assumes "wf_bconf n" "i < length (bn_sub_nodes n)"
  shows "set (bn_sub_nodes (remove_sub n i)) = set (bn_sub_nodes n) - {bn_sub_nodes n ! i}"
proof -
  let ?xs = "bn_sub_nodes n"
  have "distinct ?xs" using wf_keys_distinct [OF assms(1)] by (simp add: distinct_map)
  moreover have xs: "?xs = take i ?xs @ ?xs ! i # drop (i + 1) ?xs"
    using id_take_nth_drop [OF assms(2)] by simp
  ultimately have "?xs ! i \<notin> set (take i ?xs)" "?xs ! i \<notin> set (drop (i + 1) ?xs)"
    by (metis distinct_append distinct.simps(2) not_distinct_conv_prefix disjoint_insert(1) insert_disjoint(1) list.simps(15))+
  moreover have "set ?xs = set (take i ?xs) \<union> insert (?xs ! i) (set (drop (i + 1) ?xs))"
    using arg_cong [OF xs, of set] by simp
  ultimately show ?thesis by (auto simp: remove_sub_def)
qed

lemma wf_remove_sub:
  assumes "wf_bconf n" "i < length (bn_sub_nodes n)"
  shows "wf_bconf (remove_sub n i)"
proof (rule wfI)
  let ?xs = "map bn_key (bn_sub_nodes n)"
  note set = remove_sub_set [OF assms]
  have "take i ?xs @ ?xs ! i # drop (i + 1) ?xs = ?xs"
    using id_take_nth_drop [of i ?xs] assms(2) by simp
  with wf_sorted [OF assms(1)]
  have "sorted_wrt (\<lambda>a b. keycmp a b < 0) (take i ?xs @ ?xs ! i # drop (i + 1) ?xs)" by (simp only:)
  then have "sorted_wrt (\<lambda>a b. keycmp a b < 0) (take i ?xs @ drop (i + 1) ?xs)"
    unfolding sorted_wrt_append by simp
  then show "sorted_wrt (\<lambda>a b. keycmp a b < 0) (map bn_key (bn_sub_nodes (remove_sub n i)))"
    by (simp add: remove_sub_def take_map drop_map)
  have star: "''*'' \<in> bn_key ` set (bn_sub_nodes (remove_sub n i)) \<longleftrightarrow>
      ''*'' \<in> bn_key ` set (bn_sub_nodes n) \<and> bn_key (bn_sub_nodes n ! i) \<noteq> ''*''"
    using wf_keys_distinct [OF assms(1)] assms(2) unfolding set
    by (auto simp: distinct_map inj_on_def)
  show "bn_star (remove_sub n i) =
      (if ''*'' \<in> bn_key ` set (bn_sub_nodes (remove_sub n i)) then Some ''*'' else None)"
    unfolding star using wf_star [OF assms(1)] by (auto simp: remove_sub_def)
  show "wf_bconf c" if "c \<in> set (bn_sub_nodes (remove_sub n i))" for c
    using that wf_sub [OF assms(1)] unfolding set by blast
  show "bn_type (remove_sub n i) = NODE_LIST"
    using wf_list [OF assms(1)] assms(2) by (cases "bn_sub_nodes n") auto
  then show "bn_sublen (remove_sub n i) = 0" if "bn_type (remove_sub n i) = NODE_NONE"
    using that by simp
  show "length (bn_sub_nodes (remove_sub n i)) \<le> bn_sublen (remove_sub n i)"
    using wf_sublen [OF assms(1)] assms(2) by (simp add: remove_sub_def)
qed (use wf_klen [OF assms(1)] wf_key_nul_free [OF assms(1)] wf_value [OF assms(1)] in
      \<open>simp_all add: remove_sub_def\<close>)

lemma child_remove_sub:
  assumes "wf_bconf n" "i < length (bn_sub_nodes n)"
  shows "child (remove_sub n i) k = (if k = bn_key (bn_sub_nodes n ! i) then None else child n k)"
proof (cases "k = bn_key (bn_sub_nodes n ! i)")
  case True
  have "k \<notin> bn_key ` set (bn_sub_nodes (remove_sub n i))"
    using wf_keys_distinct [OF assms(1)] assms(2) True
    unfolding remove_sub_set [OF assms] by (auto simp: distinct_map inj_on_def)
  with True show ?thesis by (simp add: child_None)
next
  case False
  then have "child (remove_sub n i) k = child n k"
    by (intro child_eqI [OF wf_remove_sub [OF assms] assms(1)]) (auto simp: remove_sub_set [OF assms])
  with False show ?thesis by simp
qed

lemma delete_from_ok:
  assumes "wf_bconf n" "nul_free key"
  shows "\<forall>j < i. j < length (bn_sub_nodes n) \<longrightarrow> bn_key (bn_sub_nodes n ! j) \<noteq> key \<Longrightarrow>
    delete_from n key i = (case child n key of
       None \<Rightarrow> (n, False)
     | Some c \<Rightarrow> (remove_sub n (the (node_search n key)), True))"
  using assms
proof (induction n key i rule: delete_from.induct)
  case (1 n key i)
  show ?case
  proof (cases "i < length (bn_sub_nodes n)")
    case False
    with 1(2) have "key \<notin> bn_key ` set (bn_sub_nodes n)" by (auto simp: sub_key_nth)
    then have "child n key = None" by (simp add: child_None)
    with False show ?thesis by (subst delete_from.simps) simp
  next
    case True
    have cmp: "strcmp key (bn_key (bn_sub_nodes n ! i)) = 0 \<longleftrightarrow> bn_key (bn_sub_nodes n ! i) = key"
      using wf_sub [OF 1(3)] True by (subst strcmp_eq [OF 1(4)]) (auto simp: wf_key_nul_free)
    show ?thesis
    proof (cases "bn_key (bn_sub_nodes n ! i) = key")
      case eq: True
      with True have "node_search n key = Some i" by (simp add: node_search_iff [OF 1(3,4)])
      moreover have "child n key = Some (bn_sub_nodes n ! i)" using child_nth [OF 1(3) True] eq by simp
      ultimately show ?thesis using True eq cmp by (subst delete_from.simps) auto
    next
      case ne: False
      with 1(2) have "\<forall>j < i + 1. j < length (bn_sub_nodes n) \<longrightarrow> bn_key (bn_sub_nodes n ! j) \<noteq> key"
        by (auto simp: less_Suc_eq)
      with 1(1) [OF True] 1(3,4) True ne cmp show ?thesis by (subst delete_from.simps) auto
    qed
  qed
qed

text \<open>The view without everything at and below a path.\<close>

definition prune :: "(cstring list \<Rightarrow> cstring option) \<Rightarrow> cstring list \<Rightarrow> cstring list \<Rightarrow> cstring option" where
  "prune m ks = graft m ks Map.empty"

lemma graft_prune:
  "(\<And>q. m' q = m (ks @ q)) \<Longrightarrow> graft m ks (prune m' [k]) = prune m (ks @ [k])"
proof
  fix q
  assume m': "\<And>q. m' q = m (ks @ q)"
  show "graft m ks (prune m' [k]) q = prune m (ks @ [k]) q"
  proof (cases "take (length ks) q = ks")
    case True
    then obtain r where "q = ks @ r" by (metis append_take_drop_id)
    with m' show ?thesis by (cases r) (auto simp: graft_def prune_def)
  next
    case False
    have "take (length ks) q = ks" if "take (Suc (length ks)) q = ks @ [k]"
      using arg_cong [OF that, of "take (length ks)"] by (simp add: min_def)
    with False show ?thesis by (auto simp: graft_def prune_def)
  qed
qed

lemma blocked_view: "wf_bconf n \<Longrightarrow> blocked n ks \<Longrightarrow> r \<noteq> [] \<Longrightarrow> bconf_view n (ks @ r) = None"
proof (induction ks arbitrary: n)
  case (Cons k ks)
  show ?case
  proof (cases "is_leaf n")
    case True
    with leaf_no_subs [OF Cons.prems(1)] show ?thesis by (simp add: child_def)
  next
    case False
    with Cons show ?thesis by (auto dest: wf_child split: option.splits)
  qed
qed simp

lemma prune_blocked:
  assumes "wf_bconf n" "blocked n ks"
  shows "prune (bconf_view n) (ks @ [k]) = bconf_view n"
proof
  fix q
  show "prune (bconf_view n) (ks @ [k]) q = bconf_view n q"
  proof (cases "take (length (ks @ [k])) q = ks @ [k]")
    case True
    then obtain r where "q = ks @ k # r" by (metis append_take_drop_id append.assoc append_Cons append_Nil)
    with blocked_view [OF assms, of "k # r"] show ?thesis by (auto simp: prune_def graft_def)
  qed (simp add: prune_def graft_def)
qed

lemma delete_from_view:
  assumes wf: "wf_bconf n" "nul_free key"
  shows "\<exists>n' b. delete_from n key 0 = (n', b) \<and> wf_bconf n' \<and> bn_key n' = bn_key n \<and>
    bconf_view n' = prune (bconf_view n) [key] \<and> (b \<longleftrightarrow> child n key \<noteq> None)"
proof (cases "child n key")
  case None
  have "prune (bconf_view n) [key] = bconf_view n"
    using graft_same [of "bconf_view n" "[key]"] None by (simp add: prune_def)
  with None delete_from_ok [OF wf, of 0] wf show ?thesis by auto
next
  case (Some c)
  then have "\<exists>i. node_search n key = Some i" using node_search_child [OF wf] by (cases "node_search n key") auto
  then obtain i where i: "node_search n key = Some i" ..
  then have il: "i < length (bn_sub_nodes n)" "bn_key (bn_sub_nodes n ! i) = key"
    by (simp_all add: node_search_iff [OF wf])
  have "bconf_view (remove_sub n i) q = prune (bconf_view n) [key] q" for q
    using il child_remove_sub [OF wf(1) il(1)] by (cases q) (auto simp: prune_def graft_def)
  moreover have "delete_from n key 0 = (remove_sub n i, True)"
    using delete_from_ok [OF wf, of 0] Some i by simp
  ultimately show ?thesis using wf_remove_sub [OF wf(1) il(1)] Some by auto
qed

lemma filter_from_subs:
  "\<exists>n' r. filter_from flt n i ret = (n', r) \<and>
     bn_sub_nodes n' = take i (bn_sub_nodes n) @
       filter (\<lambda>c. bconf_get flt (Some (bn_key c)) \<noteq> None) (drop i (bn_sub_nodes n)) \<and>
     r + length (bn_sub_nodes n') = ret + length (bn_sub_nodes n) \<and>
     (wf_bconf n \<longrightarrow> wf_bconf n' \<and> bn_key n' = bn_key n \<and> bn_value n' = bn_value n \<and> bn_vlen n' = bn_vlen n)"
proof (induction flt n i ret rule: filter_from.induct)
  case (1 flt n i ret)
  let ?P = "\<lambda>c. bconf_get flt (Some (bn_key c)) \<noteq> None"
  show ?case
  proof (cases "i < length (bn_sub_nodes n)")
    case False
    then show ?thesis by (subst filter_from.simps) simp
  next
    case True
    have nth: "bconf_key (bconf_byindex (Some n) i) = Some (bn_key (bn_sub_nodes n ! i))"
      using True by (simp add: bconf_key_def bconf_byindex_def)
    have split: "drop i (bn_sub_nodes n) = bn_sub_nodes n ! i # drop (i + 1) (bn_sub_nodes n)"
      using Cons_nth_drop_Suc [OF True] by simp
    show ?thesis
    proof (cases "?P (bn_sub_nodes n ! i)")
      case keep: True
      with 1(1) True nth have "\<exists>n' r. filter_from flt n (i + 1) ret = (n', r) \<and>
          bn_sub_nodes n' = take (i + 1) (bn_sub_nodes n) @ filter ?P (drop (i + 1) (bn_sub_nodes n)) \<and>
          r + length (bn_sub_nodes n') = ret + length (bn_sub_nodes n) \<and>
          (wf_bconf n \<longrightarrow> wf_bconf n' \<and> bn_key n' = bn_key n \<and> bn_value n' = bn_value n \<and> bn_vlen n' = bn_vlen n)"
        by simp
      moreover have "filter_from flt n i ret = filter_from flt n (i + 1) ret"
        using True keep nth by (subst filter_from.simps) simp
      ultimately show ?thesis
        using keep split True by (auto simp: take_Suc_conv_app_nth)
    next
      case drop: False
      let ?n = "remove_sub n i"
      have "bn_sub_nodes ?n = take i (bn_sub_nodes n) @ drop (i + 1) (bn_sub_nodes n)"
        by (simp add: remove_sub_def)
      then have subs: "take i (bn_sub_nodes ?n) = take i (bn_sub_nodes n)"
        "drop i (bn_sub_nodes ?n) = drop (i + 1) (bn_sub_nodes n)"
        "length (bn_sub_nodes ?n) + 1 = length (bn_sub_nodes n)" using True by auto
      from 1(2) [OF True] drop nth obtain n' r where n': "filter_from flt ?n i (ret + 1) = (n', r)"
        "bn_sub_nodes n' = take i (bn_sub_nodes ?n) @ filter ?P (drop i (bn_sub_nodes ?n))"
        "r + length (bn_sub_nodes n') = ret + 1 + length (bn_sub_nodes ?n)"
        "wf_bconf ?n \<longrightarrow> wf_bconf n' \<and> bn_key n' = bn_key ?n \<and> bn_value n' = bn_value ?n \<and> bn_vlen n' = bn_vlen ?n"
        by auto
      moreover have "filter_from flt n i ret = filter_from flt ?n i (ret + 1)"
        using True drop nth by (subst filter_from.simps) simp
      ultimately show ?thesis
        using drop split subs wf_remove_sub [OF _ True] by auto
    qed
  qed
qed

section \<open>Checking for a conflict\<close>

lemma target_key_node: "bn_type (target (key_node k) ks) = NODE_NONE"
  by (induction ks arbitrary: k) (auto simp: child_or_new_def child_def)

lemma add_conflict_key_node: "\<not> add_conflict (key_node k) ks"
  by (simp add: add_conflict_def target_key_node)

lemma add_conflict_Nil: "add_conflict n [] \<longleftrightarrow> bn_type n = NODE_LIST"
  by (simp add: add_conflict_def)

lemma child_or_new_search:
  assumes "wf_bconf n" "nul_free k"
  shows "child_or_new n k = (case node_search n k of None \<Rightarrow> key_node k | Some i \<Rightarrow> bn_sub_nodes n ! i)"
  using node_search_child [OF assms] by (cases "node_search n k") (auto simp: child_or_new_def split: option.splits)

lemma validate_from_iff:
  "wf_bconf n \<Longrightarrow> \<forall>k \<in> set (split_key key). nul_free k \<Longrightarrow>
     validate_from n key =
       (if add_conflict n (split_key key) \<or> bn_type (target n (split_key key)) = NODE_BIN then -1 else 0)"
proof (induction n key rule: validate_from.induct)
  case (1 n key)
  from "1.prems"(2) have h: "nul_free (key_head key)" by (subst (asm) split_key.simps) simp
  have leaf: "bn_type n \<noteq> NODE_NONE \<and> bn_type n \<noteq> NODE_LIST \<longleftrightarrow> is_leaf n"
    by (cases "bn_type n") (auto simp: is_leaf_def)
  note cn = child_or_new_search [OF "1.prems"(1) h]
  show ?case
  proof (cases "is_leaf n")
    case True
    then have "add_conflict n (split_key key)" by (subst split_key.simps) (simp add: add_conflict_Cons)
    with True leaf show ?thesis by (subst validate_from.simps) simp
  next
    case inner: False
    show ?thesis
    proof (cases "node_search n (key_head key)")
      case None
      then show ?thesis
        by (subst validate_from.simps, subst (1 2) split_key.simps)
          (use inner leaf cn in \<open>auto simp: add_conflict_Cons add_conflict_key_node target_key_node\<close>)
    next
      case (Some i)
      let ?c = "bn_sub_nodes n ! i"
      have wfc: "wf_bconf ?c" using wf_child_or_new [OF "1.prems"(1) h] cn Some by simp
      show ?thesis
      proof (cases "key_rest key")
        case Nil
        have "bn_type ?c \<noteq> NODE_NONE \<and> bn_type ?c \<noteq> NODE_VAL \<longleftrightarrow> bn_type ?c = NODE_LIST \<or> bn_type ?c = NODE_BIN"
          by (cases "bn_type ?c") auto
        with Nil Some inner leaf cn show ?thesis
          by (subst validate_from.simps, subst (1 2) split_key.simps)
            (auto simp: add_conflict_Cons add_conflict_Nil)
      next
        case (Cons d r)
        have "\<forall>k \<in> set (split_key r). nul_free k"
          using "1.prems"(2) Cons by (subst (asm) split_key.simps) simp
        with "1.IH" [OF _ Some refl Cons wfc] Some Cons inner leaf cn show ?thesis
          by (subst validate_from.simps, subst (1 2) split_key.simps)
            (auto simp: add_conflict_Cons)
      qed
    qed
  qed
qed

section \<open>Trees built by the operations\<close>

datatype bconf_op =
    Op_add_data cstring cstring
  | Op_add_data_canfail cstring cstring
  | Op_add_data_pool cstring cstring
  | Op_add_bindata cstring "cstring option" nat
  | Op_add_bindatav "cstring list" "cstring option" nat
  | Op_add_datav "cstring list" cstring bconf_dup
  | Op_add_datav_canfail "cstring list" cstring bconf_dup
  | Op_add_listnode "cstring option"
  | Op_add_listnodev "cstring list"
  | Op_merge "bconf_node option"
  | Op_merge_prefix cstring "bconf_node option"
  | Op_deletev "cstring list"
  | Op_filter_to_keys "bconf_node option"

fun bconf_exec :: "bconf_op \<Rightarrow> bconf_node option \<Rightarrow> bconf_error + bconf_node option" where
  "bconf_exec (Op_add_data key v) root = map_sum id Some (bconf_add_data root key v)"
| "bconf_exec (Op_add_data_canfail key v) root =
     map_sum id (Some \<circ> fst) (bconf_add_data_canfail root key v)"
| "bconf_exec (Op_add_data_pool key v) root = map_sum id Some (bconf_add_data_pool root key v)"
| "bconf_exec (Op_add_bindata key v l) root = bconf_add_bindata root key v l"
| "bconf_exec (Op_add_bindatav ks v l) root = map_sum id fst (bconf_add_bindatav root ks v l)"
| "bconf_exec (Op_add_datav ks v dup) root = map_sum id (Some \<circ> fst) (bconf_add_datav root ks v dup)"
| "bconf_exec (Op_add_datav_canfail ks v dup) root =
     map_sum id (Some \<circ> fst) (bconf_add_datav_canfail root ks v dup)"
| "bconf_exec (Op_add_listnode key) root = map_sum id fst (bconf_add_listnode root key)"
| "bconf_exec (Op_add_listnodev ks) root = map_sum id fst (bconf_add_listnodev root ks)"
| "bconf_exec (Op_merge src) root = map_sum id (Some \<circ> fst) (bconf_merge root src)"
| "bconf_exec (Op_merge_prefix k src) root = map_sum id fst (bconf_merge_prefix root k src)"
| "bconf_exec (Op_deletev ks) root = map_sum id (Some \<circ> fst) (bconf_deletev root ks)"
| "bconf_exec (Op_filter_to_keys flt) root = Inr (fst (bconf_filter_to_keys root flt))"

text \<open>
  What C guarantees of the arguments: keys and texts are C strings, a buffer has the bytes its
  length claims, a path to delete is not empty.
\<close>

fun op_ok :: "bconf_op \<Rightarrow> bool" where
  "op_ok (Op_add_data key v) = (nul_free key \<and> nul_free v)"
| "op_ok (Op_add_data_canfail key v) = (nul_free key \<and> nul_free v)"
| "op_ok (Op_add_data_pool key v) = (nul_free key \<and> nul_free v)"
| "op_ok (Op_add_bindata key v l) = (nul_free key \<and> (case v of None \<Rightarrow> True | Some b \<Rightarrow> l \<le> length b))"
| "op_ok (Op_add_bindatav ks v l) =
     (list_all nul_free ks \<and> (case v of None \<Rightarrow> True | Some b \<Rightarrow> l \<le> length b))"
| "op_ok (Op_add_datav ks v dup) = (list_all nul_free ks \<and> nul_free v)"
| "op_ok (Op_add_datav_canfail ks v dup) = (list_all nul_free ks \<and> nul_free v)"
| "op_ok (Op_add_listnode key) = (case key of None \<Rightarrow> True | Some k \<Rightarrow> nul_free k)"
| "op_ok (Op_add_listnodev ks) = list_all nul_free ks"
| "op_ok (Op_merge src) = True"
| "op_ok (Op_merge_prefix k src) = nul_free k"
| "op_ok (Op_deletev ks) = (ks \<noteq> [] \<and> list_all nul_free ks)"
| "op_ok (Op_filter_to_keys flt) = True"

text \<open>The other tree an operation reads.\<close>

fun op_sources :: "bconf_op \<Rightarrow> bconf_node option list" where
  "op_sources (Op_merge src) = [src]"
| "op_sources (Op_merge_prefix k src) = [src]"
| "op_sources (Op_filter_to_keys flt) = [flt]"
| "op_sources _ = []"

inductive bconf_reachable :: "bconf_node option \<Rightarrow> bool" where
  reach_null: "bconf_reachable None"
| reach_step: "bconf_reachable root \<Longrightarrow> op_ok op \<Longrightarrow>
    (\<And>src. src \<in> set (op_sources op) \<Longrightarrow> bconf_reachable src) \<Longrightarrow>
    bconf_exec op root = Inr root' \<Longrightarrow> bconf_reachable root'"

inductive_cases bconf_reachable_cases: "bconf_reachable root"

lemma add_data_ok:
  assumes "wf_root root" "nul_free key" "nul_free v"
  shows "case bconf_add_data root key v of Inl e \<Rightarrow> conflict_error e | Inr n \<Rightarrow> wf_bconf n"
  using add_datav_ok [OF assms(1) nul_free_split_key [OF assms(2)] assms(3), of BCONF_DUP]
  by (auto simp: add_data_split split: if_splits sum.splits)

lemma add_bindatav_safe:
  assumes "wf_root root" "\<forall>k \<in> set ks. nul_free k" "case v of None \<Rightarrow> True | Some b \<Rightarrow> l \<le> length b"
  shows "case bconf_add_bindatav root ks v l of Inl e \<Rightarrow> conflict_error e | Inr (r, c) \<Rightarrow> wf_root r"
proof (cases v)
  case None
  with assms(1) show ?thesis by (simp add: bconf_add_bindatav_def)
next
  case (Some b)
  with add_bindatav_ok [OF assms(1,2), of l b] assms(3) show ?thesis by (auto split: if_splits)
qed

lemma descend_snoc:
  "wf_bconf n \<Longrightarrow> descend n (ks @ [k]) \<noteq> None \<longleftrightarrow> \<not> blocked n ks \<and> child (target n ks) k \<noteq> None"
proof (induction ks arbitrary: n)
  case Nil
  then show ?case by (auto split: option.splits)
next
  case (Cons k' ks)
  have new: "child (target (key_node k') ks) k = None"
    using wf_target target_key_node by (induction ks arbitrary: k') (auto simp: child_def child_or_new_def)
  show ?case
  proof (cases "child n k'")
    case None
    with new show ?thesis by (simp add: child_or_new_def)
  next
    case (Some c)
    then have "\<not> is_leaf n" using leaf_no_subs [OF Cons.prems] by (auto simp: child_def)
    with Some Cons.IH [of c] wf_child [OF Cons.prems Some] show ?thesis by (simp add: child_or_new_def)
  qed
qed

lemma deletev_ok:
  assumes wf: "wf_root root" and ks: "\<forall>k \<in> set argv. nul_free k" "argv \<noteq> []"
  shows "\<exists>n b. bconf_deletev root argv = Inr (n, b) \<and> wf_bconf n \<and>
    bconf_view n = prune (root_view root) argv \<and>
    (b \<longleftrightarrow> \<not> blocked (root_node root) (butlast argv) \<and> child (target (root_node root) (butlast argv)) (last argv) \<noteq> None)"
proof -
  let ?n = "root_node root" and ?ks = "butlast argv" and ?k = "last argv"
  note wfn = wf_root_node [OF wf]
  have ks': "\<forall>k \<in> set ?ks. nul_free k" and k: "nul_free ?k"
    using ks by (auto dest: in_set_butlastD)
  have argv: "argv = ?ks @ [?k]" using ks(2) by simp
  from lookup_addv_from_ok [OF wfn ks'] obtain n' r where
    "lookup_addv_from ?n ?ks = Inr (n', r) \<and> wf_bconf n' \<and> bconf_view n' = bconf_view ?n \<and>
     bn_key n' = bn_key ?n \<and> (r = None \<longleftrightarrow> blocked ?n ?ks) \<and> (\<forall>p. r = Some p \<longrightarrow> points_to ?n ?ks n' p)"
    by (elim exE)
  then have lk: "lookup_addv_from ?n ?ks = Inr (n', r)" "wf_bconf n'" "bconf_view n' = bconf_view ?n"
    "r = None \<longleftrightarrow> blocked ?n ?ks" and pt: "\<And>p. r = Some p \<Longrightarrow> points_to ?n ?ks n' p" by simp_all
  have graft: "graft (root_view root) ?ks (prune (bconf_view (target ?n ?ks)) [?k]) = prune (root_view root) argv"
    by (subst (3) argv) (rule graft_prune, simp add: view_target view_root_node)
  show ?thesis
  proof (cases r)
    case None
    with lk(4) have "blocked ?n ?ks" by simp
    then have "prune (root_view root) argv = root_view root"
      by (subst argv) (simp add: prune_blocked [OF wfn] flip: view_root_node)
    with None lk show ?thesis by (auto simp: bconf_deletev_def lookup_addv_root view_root_node)
  next
    case (Some p)
    note P = points_toD [OF pt [OF Some]]
    obtain m b where m: "delete_from (target ?n ?ks) ?k 0 = (m, b)" "wf_bconf m"
      "bn_key m = bn_key (target ?n ?ks)" "bconf_view m = prune (bconf_view (target ?n ?ks)) [?k]"
      "b \<longleftrightarrow> child (target ?n ?ks) ?k \<noteq> None"
      using delete_from_view [OF wf_target [OF wfn ks'] k] by blast
    from P(2,4) [OF m(2,3)] m P(1) lk Some graft show ?thesis
      by (auto simp: bconf_deletev_def lookup_addv_root view_root_node)
  qed
qed

lemma exec_safe:
  assumes wf: "wf_root root" "\<forall>src \<in> set (op_sources op). wf_root src" and ok: "op_ok op"
  shows "case bconf_exec op root of Inl e \<Rightarrow> conflict_error e | Inr root' \<Rightarrow> wf_root root'"
proof (cases op)
  case (Op_add_data key v)
  with add_data_ok [of root key v] wf ok show ?thesis by (auto split: sum.splits)
next
  case (Op_add_data_canfail key v)
  with add_datav_canfail_ok [OF wf(1) nul_free_split_key, of key v BCONF_DUP] ok show ?thesis
    by (auto simp: add_data_canfail_split)
next
  case (Op_add_data_pool key v)
  with add_data_pool_ok [OF wf(1), of key v] ok show ?thesis by (auto split: if_splits)
next
  case (Op_add_bindata key v l)
  with add_bindatav_safe [OF wf(1) nul_free_split_key, of key l v] ok show ?thesis
    by (auto simp: add_bindata_split split: sum.splits)
next
  case (Op_add_bindatav ks v l)
  with add_bindatav_safe [OF wf(1), of ks l v] ok show ?thesis
    by (auto simp: list_all_iff split: sum.splits)
next
  case (Op_add_datav ks v dup)
  with add_datav_ok [OF wf(1), of ks v dup] ok show ?thesis by (auto simp: list_all_iff split: if_splits)
next
  case (Op_add_datav_canfail ks v dup)
  with add_datav_canfail_ok [OF wf(1), of ks v dup] ok show ?thesis by (auto simp: list_all_iff)
next
  case (Op_add_listnode key)
  with add_listnodev_ok [OF wf(1) nul_free_split_key] ok wf show ?thesis
    by (cases key) (auto simp: bconf_add_listnode_def [of root None] add_listnode_split split: sum.splits, fastforce+)
next
  case (Op_add_listnodev ks)
  with add_listnodev_ok [OF wf(1), of ks] ok show ?thesis by (auto simp: list_all_iff)
next
  case (Op_merge src)
  with merge_correct [OF wf(1), of src] wf(2) show ?thesis
    by (auto simp: merge_res_def merge_ok_def split: sum.splits)
next
  case (Op_merge_prefix k src)
  with merge_prefix_ok [OF wf(1), of src k] wf(2) ok show ?thesis by (auto split: sum.splits)
next
  case (Op_deletev ks)
  with deletev_ok [OF wf(1), of ks] ok show ?thesis by (auto simp: list_all_iff)
next
  case (Op_filter_to_keys flt)
  with filter_from_subs [of flt "root_node root" 0 0] wf show ?thesis
    by (cases root) (auto simp: bconf_filter_to_keys_def)
qed

lemma reachable_wf: "bconf_reachable root \<Longrightarrow> wf_root root"
proof (induction rule: bconf_reachable.induct)
  case (reach_step root op root')
  then show ?case using exec_safe [of root op] by auto
qed simp

section \<open>Properties of the tree\<close>

text \<open>
  C1: Whatever sequence of public operations built a tree (merges and filters with other such
  trees included), the tree satisfies the invariant (children strictly sorted by \<open>keycomp\<close>, so
  without duplicates, lengths and the wildcard pointer right), and the next operation keeps it or
  ends the process with one of the two documented conflict messages: the duplicate key abort of
  \<open>node_insert\<close> and a read through a \<open>NULL\<close> value never happen.
\<close>

theorem bconf_reachable_safe:
  assumes "bconf_reachable root" "op_ok op" "\<forall>src \<in> set (op_sources op). bconf_reachable src"
  shows "wf_root root \<and>
    (case bconf_exec op root of Inl e \<Rightarrow> conflict_error e | Inr root' \<Rightarrow> wf_root root')"
  using assms exec_safe [of root op] by (auto simp: reachable_wf)


text \<open>A small tree for the examples: \<open>a.b = 1\<close>, \<open>a.* = 2\<close> and \<open>c = 3\<close>.\<close>

definition sample_root :: "bconf_node option" where
  "sample_root =
     (case bconf_add_data None ''a.b'' ''1'' of
        Inl _ \<Rightarrow> None
      | Inr n1 \<Rightarrow>
          (case bconf_add_data (Some n1) ''a.*'' ''2'' of
             Inl _ \<Rightarrow> None
           | Inr n2 \<Rightarrow>
               (case bconf_add_data (Some n2) ''c'' ''3'' of Inl _ \<Rightarrow> None | Inr n3 \<Rightarrow> Some n3)))"

definition sample_node :: bconf_node where
  "sample_node =
     Bconf_node None [] 0 0 NODE_LIST
       [Bconf_node None ''a'' 1 0 NODE_LIST
          [Bconf_node (Some ''2'') ''*'' 1 1 NODE_VAL [] None 0,
           Bconf_node (Some ''1'') ''b'' 1 1 NODE_VAL [] None 0] (Some ''*'') 2,
        Bconf_node (Some ''3'') ''c'' 1 1 NODE_VAL [] None 0] None 2"

lemma sample_root_eq: "sample_root = Some sample_node"
  by code_simp

lemma wf_sample: "wf_root sample_root"
  by code_simp

lemma reach_add_data:
  "bconf_reachable root \<Longrightarrow> bconf_add_data root key v = Inr n \<Longrightarrow> nul_free key \<Longrightarrow> nul_free v \<Longrightarrow>
     bconf_reachable (Some n)"
  by (rule reach_step [of root "Op_add_data key v"]) auto

lemma sample_reachable: "bconf_reachable sample_root"
proof -
  obtain n1 n2 n3 where n: "bconf_add_data None ''a.b'' ''1'' = Inr n1"
      "bconf_add_data (Some n1) ''a.*'' ''2'' = Inr n2" "bconf_add_data (Some n2) ''c'' ''3'' = Inr n3"
      "sample_root = Some n3"
    using sample_root_eq by (auto simp: sample_root_def split: sum.splits)
  have strs: "nul_free ''a.b''" "nul_free ''a.*''" "nul_free ''c''"
    "nul_free ''1''" "nul_free ''2''" "nul_free ''3''" by code_simp+
  have "bconf_reachable (Some n1)" by (rule reach_add_data [OF reach_null n(1) strs(1,4)])
  then have "bconf_reachable (Some n2)" by (rule reach_add_data [OF _ n(2) strs(2,5)])
  then have "bconf_reachable (Some n3)" by (rule reach_add_data [OF _ n(3) strs(3,6)])
  with n(4) show ?thesis by simp
qed

theorem bconf_reachable_safe_witness:
  "wf_root sample_root \<and>
   (case bconf_exec (Op_merge_prefix ''x'' sample_root) sample_root of
      Inl e \<Rightarrow> conflict_error e | Inr root' \<Rightarrow> wf_root root')"
  by (rule bconf_reachable_safe) (use sample_reachable in \<open>auto simp: nul_free_def uchar_def\<close>)

text \<open>
  C2: On a tree that satisfies the invariant, \<open>bconf_add_datav_canfail\<close> always returns. When a
  value is in the way of the path, or the path is a list, it returns -1 and no value of the tree
  changes. Otherwise it returns 0 or 1 and the tree, as a map from key vectors to values, is the
  old map with exactly this path updated to the value. The invariant holds afterwards.
\<close>

theorem bconf_add_map_update:
  assumes "wf_root root" "\<forall>k \<in> set argv. nul_free k" "nul_free v"
  shows "\<exists>n c. bconf_add_datav_canfail root argv v dup = Inr (n, c) \<and> wf_bconf n \<and>
    (if add_conflict (root_node root) argv then c = -1 \<and> root_view (Some n) = root_view root
     else (c = 0 \<or> c = 1) \<and> root_view (Some n) = (root_view root)(argv \<mapsto> v))"
  unfolding root_view_Some by (rule add_datav_canfail_ok [OF assms])

theorem bconf_add_map_update_witness:
  "\<exists>n c. bconf_add_datav_canfail sample_root [''a'', ''b''] ''7'' BCONF_DUP = Inr (n, c) \<and> wf_bconf n \<and>
    (if add_conflict (root_node sample_root) [''a'', ''b''] then c = -1 \<and> root_view (Some n) = root_view sample_root
     else (c = 0 \<or> c = 1) \<and> root_view (Some n) = (root_view sample_root)([''a'', ''b''] \<mapsto> ''7''))"
  by (rule bconf_add_map_update [OF wf_sample]) (auto simp: nul_free_def uchar_def)

text \<open>
  C4: A value added under a dotted key is what \<open>bconf_get_string\<close> returns for that key, whatever
  wildcards the tree has, unless the node held binary data before (whose buffer is reused).
\<close>

theorem bconf_add_get:
  assumes wf: "wf_root root" and key: "nul_free key" and v: "nul_free v"
    and nobin: "bn_type (target (root_node root) (split_key key)) \<noteq> NODE_BIN"
    and add: "bconf_add_data root key v = Inr n"
  shows "bconf_get_string (Some n) key = Some v"
proof -
  let ?ks = "split_key key"
  note ks = nul_free_split_key [OF key]
  have ok: "data_ok v (length v) BCONF_DUP" using v by (simp add: data_ok_def)
  obtain m where m: "descend n ?ks = Some m" "bn_value m = Some v" "wf_bconf n"
    by (rule add_cases [OF wf_root_node [OF wf] ks ok, where pool = False])
      (use add nobin in \<open>auto simp: bconf_add_data_def lookup_add_split lookup_addv_root\<close>)
  have "bconf_get (Some n) (Some key) = Some m"
    by (simp add: bconf_get_wild [OF m(3) key] descend_wild [OF m(1)])
  with m(2) show ?thesis by (simp add: bconf_get_string_def bconf_value_def)
qed

theorem bconf_add_get_witness:
  "\<exists>n. bconf_add_data sample_root ''a.q'' ''7'' = Inr n \<and> bconf_get_string (Some n) ''a.q'' = Some ''7''"
proof -
  have "\<not> isl (bconf_add_data sample_root ''a.q'' ''7'')" by code_simp
  then obtain n where add: "bconf_add_data sample_root ''a.q'' ''7'' = Inr n"
    by (cases "bconf_add_data sample_root ''a.q'' ''7''") auto
  have "bn_type (target (root_node sample_root) (split_key ''a.q'')) \<noteq> NODE_BIN" by code_simp
  then have "bconf_get_string (Some n) ''a.q'' = Some ''7''"
    using add by (intro bconf_add_get [OF wf_sample]) (auto simp: nul_free_def uchar_def)
  with add show ?thesis by blast
qed

text \<open>
  C5: \<open>bconf_get\<close> walks the segments of a dotted key and takes at every level the child of that
  exact key if there is one, and else the child with the key \<open>*\<close>; the binary search and the
  cached wildcard pointer compute just that.
\<close>

theorem bconf_get_wildcard:
  assumes "wf_bconf n" "nul_free key"
  shows "bconf_get (Some n) (Some key) = wild_descend n (split_key key)"
  by (rule bconf_get_wild [OF assms])

theorem bconf_get_wildcard_witness:
  "wf_bconf sample_node \<and> nul_free ''a.zz'' \<and>
   bconf_get (Some sample_node) (Some ''a.zz'') = wild_descend sample_node (split_key ''a.zz'') \<and>
   map_option bn_value (wild_descend sample_node (split_key ''a.zz'')) = Some (Some ''2'')"
proof -
  have "wf_bconf sample_node" "nul_free ''a.zz''" by code_simp+
  moreover from this have "bconf_get (Some sample_node) (Some ''a.zz'') =
      wild_descend sample_node (split_key ''a.zz'')" by (rule bconf_get_wildcard)
  moreover have "map_option bn_value (wild_descend sample_node (split_key ''a.zz'')) = Some (Some ''2'')"
    by code_simp
  ultimately show ?thesis by simp
qed

text \<open>
  The halving search of \<open>node_search\<close> over the children of a node returns the same child as a
  linear search for the key.
\<close>

lemma node_search_linear:
  assumes "wf_bconf n" "nul_free key"
  shows "map_option (\<lambda>i. bn_sub_nodes n ! i) (node_search n key) =
         find (\<lambda>c. bn_key c = key) (bn_sub_nodes n)"
  using node_search_child [OF assms] by (simp add: child_def)

text \<open>
  C3: A merge fails, with one of the two conflict messages, exactly when a value of the source has a
  list in its place in the destination or a value directly above it. Otherwise it has overridden the
  destination with the values of the source, except two or more levels below a value of the
  destination, where the source is skipped without a message; it reports no change only when no value
  changed, and the invariant holds afterwards. When no value of the source conflicts with the
  destination, the effect is that of adding every value of the source.
\<close>

theorem bconf_merge_overrides:
  assumes "wf_root dst" "wf_root src"
  shows "case bconf_merge dst src of
      Inl e \<Rightarrow> conflict_error e \<and> merge_clash (root_node dst) (root_view src)
    | Inr (d, changed) \<Rightarrow> \<not> merge_clash (root_node dst) (root_view src) \<and> wf_bconf d \<and>
        root_view (Some d) = merge_view (root_view dst) ((root_view src)([] := None)) \<and>
        (changed \<or> root_view (Some d) = root_view dst) \<and>
        ((\<forall>q. q \<noteq> [] \<and> root_view src q \<noteq> None \<longrightarrow> \<not> add_conflict (root_node dst) q) \<longrightarrow>
           root_view (Some d) = root_view dst ++ (root_view src)([] := None))"
proof -
  have sv: "subs_view (bn_sub_nodes (root_node src)) = (root_view src)([] := None)"
    by (simp add: subs_view_node view_root_node)
  have clash: "merge_clash (root_node dst) ((root_view src)([] := None)) = merge_clash (root_node dst) (root_view src)"
    by (simp add: merge_clash_def)
  have "merge_view (root_view dst) ((root_view src)([] := None)) q = (root_view dst ++ (root_view src)([] := None)) q"
    if free: "\<forall>q. q \<noteq> [] \<and> root_view src q \<noteq> None \<longrightarrow> \<not> add_conflict (root_node dst) q" for q
  proof (rule merge_view_add)
    fix p r
    assume "((root_view src)([] := None)) (p @ r) \<noteq> None" "r \<noteq> []"
    then have "\<not> add_conflict (root_node dst) (p @ r)" using free by (auto split: if_splits)
    from no_conflict_above [OF wf_root_node [OF assms(1)] this \<open>r \<noteq> []\<close>] show "root_view dst p = None"
      by (simp add: view_root_node)
  qed
  then have "(\<forall>q. q \<noteq> [] \<and> root_view src q \<noteq> None \<longrightarrow> \<not> add_conflict (root_node dst) q) \<longrightarrow>
      merge_view (root_view dst) ((root_view src)([] := None)) = root_view dst ++ (root_view src)([] := None)" by blast
  with merge_correct [OF assms] show ?thesis
    by (auto simp: merge_res_def merge_ok_def view_root_node sv clash split: sum.splits)
qed

theorem bconf_merge_overrides_witness:
  "case bconf_merge (Some (key_node [])) sample_root of
      Inl e \<Rightarrow> False
    | Inr (d, changed) \<Rightarrow> wf_bconf d \<and> root_view (Some d) = (root_view sample_root)([] := None)"
proof -
  have nc: "\<not> add_conflict (root_node (Some (key_node []))) q" for q by (simp add: add_conflict_key_node)
  then have "\<not> merge_clash (root_node (Some (key_node []))) (root_view sample_root)" by (simp add: merge_clash_def)
  moreover have "root_view (Some (key_node [])) = Map.empty" by (simp add: root_view_def view_none_type)
  ultimately show ?thesis
    using bconf_merge_overrides [of "Some (key_node [])" sample_root] wf_sample nc
    by (auto split: sum.splits)
qed

text \<open>
  C6: \<open>bconf_deletev\<close> removes everything at and below the given path and no other value, returns
  true exactly when there was a node at the path, and keeps the invariant, the wildcard pointer
  included.
\<close>

theorem bconf_deletev_prunes:
  assumes "wf_root root" "\<forall>k \<in> set argv. nul_free k" "argv \<noteq> []"
  shows "\<exists>n b. bconf_deletev root argv = Inr (n, b) \<and> wf_bconf n \<and>
    root_view (Some n) = (\<lambda>q. if take (length argv) q = argv then None else root_view root q) \<and>
    (b \<longleftrightarrow> descend (root_node root) argv \<noteq> None)"
proof -
  have "(\<not> blocked (root_node root) (butlast argv) \<and>
      child (target (root_node root) (butlast argv)) (last argv) \<noteq> None) \<longleftrightarrow>
      descend (root_node root) argv \<noteq> None"
    using descend_snoc [OF wf_root_node [OF assms(1)], of "butlast argv" "last argv"] assms(3) by simp
  with deletev_ok [OF assms] show ?thesis by (simp add: prune_def graft_def [abs_def])
qed

theorem bconf_deletev_prunes_witness:
  "\<exists>n b. bconf_deletev sample_root [''a'', ''*''] = Inr (n, b) \<and> wf_bconf n \<and>
    root_view (Some n) = (\<lambda>q. if take (length [''a'', ''*'']) q = [''a'', ''*''] then None else root_view sample_root q) \<and>
    (b \<longleftrightarrow> descend (root_node sample_root) [''a'', ''*''] \<noteq> None)"
  by (rule bconf_deletev_prunes [OF wf_sample]) (auto simp: nul_free_def uchar_def)

text \<open>
  C7: \<open>bconf_filter_to_keys\<close> keeps, in order, exactly the children whose key the filter has (by
  \<open>bconf_get\<close>, so a wildcard in the filter keeps all), returns how many it removed, and keeps the
  invariant.
\<close>

theorem bconf_filter_keeps:
  assumes "wf_bconf n" "bn_type n = NODE_LIST"
  shows "\<exists>n' r. bconf_filter_to_keys (Some n) flt = (Some n', r) \<and> wf_bconf n' \<and>
    bn_sub_nodes n' = filter (\<lambda>c. bconf_get flt (Some (bn_key c)) \<noteq> None) (bn_sub_nodes n) \<and>
    r = length (filter (\<lambda>c. bconf_get flt (Some (bn_key c)) = None) (bn_sub_nodes n))"
proof -
  let ?P = "\<lambda>c. bconf_get flt (Some (bn_key c)) \<noteq> None"
  from filter_from_subs [of flt n 0 0] obtain n' r where
    "filter_from flt n 0 0 = (n', r)" "bn_sub_nodes n' = filter ?P (bn_sub_nodes n)"
    "r + length (bn_sub_nodes n') = length (bn_sub_nodes n)" "wf_bconf n'"
    using assms(1) by auto
  moreover have "length (filter ?P xs) + length (filter (\<lambda>c. \<not> ?P c) xs) = length xs" for xs
    by (rule sum_length_filter_compl)
  ultimately show ?thesis using assms(2) by (simp add: bconf_filter_to_keys_def) (metis add_right_cancel add.commute)
qed

theorem bconf_filter_keeps_witness:
  "\<exists>n' r. bconf_filter_to_keys (Some sample_node) (Some (key_node ''k'')) = (Some n', r) \<and> wf_bconf n' \<and>
    bn_sub_nodes n' = filter (\<lambda>c. bconf_get (Some (key_node ''k'')) (Some (bn_key c)) \<noteq> None) (bn_sub_nodes sample_node) \<and>
    r = length (filter (\<lambda>c. bconf_get (Some (key_node ''k'')) (Some (bn_key c)) = None) (bn_sub_nodes sample_node))"
  by (rule bconf_filter_keeps) code_simp+

text \<open>
  C8: \<open>bconf_validate_key_conflict\<close> predicts \<open>bconf_add_data_canfail\<close>: when it returns 0 the
  addition succeeds, and when it returns -1 the addition is refused or overwrites binary data.
\<close>

theorem bconf_validate_predicts:
  assumes "wf_root root" "nul_free key" "nul_free v"
  shows "\<exists>n c. bconf_add_data_canfail root key v = Inr (n, c) \<and>
    (bconf_validate_key_conflict root key = 0 \<longleftrightarrow>
       c \<noteq> -1 \<and> bn_type (target (root_node root) (split_key key)) \<noteq> NODE_BIN) \<and>
    (bconf_validate_key_conflict root key = -1 \<longleftrightarrow>
       c = -1 \<or> bn_type (target (root_node root) (split_key key)) = NODE_BIN)"
proof -
  note ks = nul_free_split_key [OF assms(2)]
  from add_datav_canfail_ok [OF assms(1) ks assms(3), of BCONF_DUP] obtain n c where
    add: "bconf_add_data_canfail root key v = Inr (n, c)"
    and c: "c = -1 \<longleftrightarrow> add_conflict (root_node root) (split_key key)"
    unfolding add_data_canfail_split by (auto split: if_splits)
  have "bconf_validate_key_conflict root key =
      (if add_conflict (root_node root) (split_key key) \<or> bn_type (target (root_node root) (split_key key)) = NODE_BIN
       then -1 else 0)"
    using validate_from_iff [of _ key] ks assms(1)
    by (cases root) (auto simp: bconf_validate_key_conflict_def root_node_def zero_node_key
        add_conflict_key_node target_key_node)
  with add c show ?thesis by auto
qed

theorem bconf_validate_predicts_witness:
  "\<exists>n c. bconf_add_data_canfail sample_root ''c.d'' ''1'' = Inr (n, c) \<and>
    (bconf_validate_key_conflict sample_root ''c.d'' = 0 \<longleftrightarrow>
       c \<noteq> -1 \<and> bn_type (target (root_node sample_root) (split_key ''c.d'')) \<noteq> NODE_BIN) \<and>
    (bconf_validate_key_conflict sample_root ''c.d'' = -1 \<longleftrightarrow>
       c = -1 \<or> bn_type (target (root_node sample_root) (split_key ''c.d'')) = NODE_BIN)"
  by (rule bconf_validate_predicts [OF wf_sample]) (auto simp: nul_free_def uchar_def)

section \<open>JSON text of a value\<close>

text \<open>
  The strings of RFC 8259, with the escapes for code points below 256: a byte stands for itself
  unless it is a quote, a backslash or a control character, and a backslash starts an escape. \<open>None\<close>
  is a text that is not the inside of such a string.
\<close>

definition is_hex :: "char \<Rightarrow> bool" where
  "is_hex c = (48 \<le> uchar c \<and> uchar c \<le> 57 \<or> 97 \<le> uchar c \<and> uchar c \<le> 102 \<or> 65 \<le> uchar c \<and> uchar c \<le> 70)"

definition hex_value :: "char \<Rightarrow> int" where
  "hex_value c = (if uchar c \<le> 57 then uchar c - 48 else if uchar c \<le> 70 then uchar c - 55 else uchar c - 87)"

definition json_simple :: "char \<Rightarrow> char option" where
  "json_simple d =
     map_of [(CHR 0x22, CHR 0x22), (CHR 0x5C, CHR 0x5C), (CHR ''/'', CHR ''/''), (CHR ''b'', CHR 0x08),
             (CHR ''f'', CHR 0x0C), (CHR ''n'', CHR 0x0A), (CHR ''r'', CHR 0x0D), (CHR ''t'', CHR 0x09)] d"

fun json_unescape :: "cstring \<Rightarrow> cstring option" where
  "json_unescape [] = Some []"
| "json_unescape (c # s) =
     (if c = CHR 0x5C then
        (case s of
           d # t \<Rightarrow>
             (case json_simple d of
                Some e \<Rightarrow> map_option ((#) e) (json_unescape t)
              | None \<Rightarrow>
                  if d = CHR ''u'' then
                    (case t of
                       z1 # z2 # h # l # t' \<Rightarrow>
                         if z1 = CHR ''0'' \<and> z2 = CHR ''0'' \<and> is_hex h \<and> is_hex l
                         then map_option ((#) (char_of (nat (16 * hex_value h + hex_value l)))) (json_unescape t')
                         else None
                     | _ \<Rightarrow> None)
                  else None)
         | [] \<Rightarrow> None)
      else if uchar c < 0x20 \<or> c = CHR 0x22 then None
      else map_option ((#) c) (json_unescape s))"

lemma hex_value_digit: "0 \<le> d \<Longrightarrow> d < 16 \<Longrightarrow> hex_value (hex_digit d) = d"
  by (auto simp: hex_value_def hex_digit_def uchar_def nat_eq_iff)

lemma is_hex_digit: "0 \<le> d \<Longrightarrow> d < 16 \<Longrightarrow> is_hex (hex_digit d)"
  by (auto simp: is_hex_def hex_digit_def uchar_def)

lemma json_unescape_escape:
  assumes "\<not> json_plain c"
  shows "json_unescape (json_escape c @ s) = map_option ((#) c) (json_unescape s)"
proof (cases "c = CHR 0x22 \<or> c = CHR 0x5C \<or> c = CHR 0x0A")
  case True
  then show ?thesis by (auto simp: json_escape_def json_simple_def)
next
  case False
  with assms have u: "0 < uchar c" "uchar c < 32" by (auto simp: json_plain_def)
  then have "16 * hex_value (hex_digit (uchar c div 16)) + hex_value (hex_digit (uchar c mod 16)) = uchar c"
    by (simp add: hex_value_digit)
  moreover have "char_of (nat (uchar c)) = c" by (simp add: uchar_def)
  moreover have "is_hex (hex_digit (uchar c div 16))" "is_hex (hex_digit (uchar c mod 16))"
    using u by (simp_all add: is_hex_digit)
  ultimately show ?thesis using False by (simp add: json_escape_def json_simple_def)
qed

lemma json_unescape_plain:
  "\<forall>c \<in> set p. json_plain c \<Longrightarrow> nul_free p \<Longrightarrow> json_unescape (p @ s) = map_option ((@) p) (json_unescape s)"
proof (induction p)
  case (Cons c p)
  then have "c \<noteq> CHR 0x5C" "c \<noteq> CHR 0x22" "\<not> uchar c < 0x20" by (auto simp: json_plain_def)
  with Cons show ?case by (simp add: option.map_comp comp_def)
qed (cases "json_unescape s"; simp)

lemma json_unescape_value: "nul_free v \<Longrightarrow> json_unescape (concat (map snd (json_value_from v))) = Some v"
proof (induction v rule: json_value_from.induct)
  case (1 p)
  show ?case
  proof (cases "dropWhile json_plain p")
    case Nil
    then have all: "\<forall>c \<in> set p. json_plain c" "takeWhile json_plain p = p" by (auto simp: dropWhile_eq_Nil_conv takeWhile_eq_all_conv)
    show ?thesis using json_unescape_plain [OF all(1) "1.prems", of "[]"]
      by (subst json_value_from.simps) (simp add: Nil all(2))
  next
    case (Cons c r)
    then have "p \<noteq> []" by auto
    have np: "\<not> json_plain c" using Cons hd_dropWhile [of json_plain p] by auto
    have p: "p = takeWhile json_plain p @ c # r" using takeWhile_dropWhile_id [of json_plain p] Cons by simp
    then have nf: "nul_free (takeWhile json_plain p)" "nul_free r"
      using "1.prems" by (metis nul_free_append, metis nul_free_append nul_free_Cons)
    have "json_unescape (concat (map snd (json_value_from r))) = Some r" by (rule "1.IH" [OF \<open>p \<noteq> []\<close> Cons nf(2)])
    moreover have "json_unescape (takeWhile json_plain p @ s) = map_option ((@) (takeWhile json_plain p)) (json_unescape s)" for s
      by (rule json_unescape_plain [OF _ nf(1)]) (auto dest: set_takeWhileD)
    ultimately show ?thesis using p \<open>p \<noteq> []\<close> Cons json_unescape_escape [OF np]
      by (subst json_value_from.simps) simp
  qed
qed

lemma json_value_depth: "\<forall>x \<in> set (json_value_from v). fst x = 0"
proof (induction v rule: json_value_from.induct)
  case (1 p)
  show ?case
  proof (cases "dropWhile json_plain p")
    case Nil
    show ?thesis by (subst json_value_from.simps) (simp add: Nil)
  next
    case (Cons c r)
    then have "p \<noteq> []" by auto
    from 1 [OF this Cons] this show ?thesis by (subst json_value_from.simps) (simp add: Cons)
  qed
qed

lemma bscat_flat: "\<forall>x \<in> set xs. fst x = 0 \<Longrightarrow> foldl bconf_json_bscat d xs = d @ concat (map snd xs)"
  by (induction xs arbitrary: d) (auto simp: bconf_json_bscat_def)

text \<open>
  C9: The text \<open>bconf_json_value\<close> prints for a value, collected by \<open>bconf_json_bscat\<close>, is a quoted
  string in the syntax of JSON: between the quotes, bytes below 0x20, quotes and backslashes occur
  only as escapes, and a decoder that follows the JSON grammar gives the value back.
\<close>

theorem bconf_json_value_roundtrip:
  assumes "nul_free v"
  shows "\<exists>body. foldl bconf_json_bscat [] (bconf_json_value v) = [CHR 0x22] @ body @ [CHR 0x22] \<and>
     json_unescape body = Some v"
proof (intro exI conjI)
  show "foldl bconf_json_bscat [] (bconf_json_value v) =
      [CHR 0x22] @ concat (map snd (json_value_from v)) @ [CHR 0x22]"
    using json_value_depth [of v] by (subst bscat_flat) (auto simp: bconf_json_value_def)
qed (rule json_unescape_value [OF assms])

theorem bconf_json_value_roundtrip_witness:
  "\<exists>body. foldl bconf_json_bscat [] (bconf_json_value [CHR ''a'', CHR 0x22, CHR 0x01, CHR 0x5C]) = [CHR 0x22] @ body @ [CHR 0x22] \<and>
     json_unescape body = Some [CHR ''a'', CHR 0x22, CHR 0x01, CHR 0x5C]"
  by (rule bconf_json_value_roundtrip) (simp add: uchar_def)

end
