(* ===== verification/VtreeDispatch.thy ===== *)
theory VtreeDispatch
  imports BconfVtree VtreeLiteral BconfSpec
begin

text \<open>
  The dispatch tables of the vtree implementations: \<open>bpv_get\<close> and its companions call the method of
  the table a chain has, as the macros of the same names in \<open>vtree/lib/vtree.c\<close> do, which ties the
  methods that call those of other chains. The lemmas are about whole chains.
\<close>

section \<open>Termination: the chains a method calls are smaller\<close>

lemma find_key_bound: "0 \<le> i \<Longrightarrow> find_key k i es = Some j \<Longrightarrow> j < i + int (length es)"
proof (induction k i es rule: find_key.induct)
  case (2 k idx e es)
  then show ?case by (cases "kv_key e") (auto split: if_splits)
qed simp

lemma get_index_bound:
  assumes "get_index data argv = Some idx"
  shows "idx < 0 \<or> nat idx < length (kv_list data)"
proof (cases argv)
  case Nil
  with assms show ?thesis by (simp add: get_index_def)
next
  case (Cons k as)
  obtain l ep r where st: "strtol10 k = (l, ep, r)" by (cases "strtol10 k")
  show ?thesis
  proof (cases "kv_type data = vktList")
    case True
    with assms Cons st have "idx = -1 \<or> idx < int (length (kv_list data))"
      by (auto simp: get_index_def Let_def split: if_splits)
    then show ?thesis by linarith
  next
    case False
    with assms Cons have "find_key k 0 (kv_list data) = Some idx" by (simp add: get_index_def)
    from find_key_bound [OF _ this] show ?thesis by linarith
  qed
qed

lemma literal_at_elem:
  "literal_at data argv = Some (Some v) \<Longrightarrow> \<exists>e \<in> set (kv_list data). kv_val e = v"
  using get_index_bound [of data argv] by (auto simp: literal_at_def split: option.splits if_splits)

lemma literal_at_node: "literal_at data argv = Some (Some (vkvNode n)) \<Longrightarrow> n \<in> kv_nodes data"
  using literal_at_elem [of data argv] by (auto simp: kv_nodes_def)

lemma kv_nodes_size:
  assumes "n \<in> kv_nodes data"
  shows "size n < size (VT_literal data)"
proof -
  obtain e where e: "e \<in> set (kv_list data)" "kv_val e = vkvNode n"
    using assms by (auto simp: kv_nodes_def)
  have "size n < size e" using e(2) by (cases e) simp
  also have "size e \<le> size_list size (kv_list data)"
    using size_list_estimation' [OF e(1), of "size e" size] by simp
  finally show ?thesis by (cases data) simp
qed

text \<open>An entry point called on a chain depends on the methods of that chain only.\<close>

lemma cachev_cong:
  "f n = g n \<Longrightarrow> vtree_getlen_cachev f (Some n) = vtree_getlen_cachev g (Some n)"
  "f1 n = g1 n \<Longrightarrow> vtree_get_cachev f1 (Some n) = vtree_get_cachev g1 (Some n)"
  "f2 n = g2 n \<Longrightarrow> vtree_haskey_cachev f2 (Some n) = vtree_haskey_cachev g2 (Some n)"
  "f3 n = g3 n \<Longrightarrow> vtree_fetch_keys_cachev f3 (Some n) = vtree_fetch_keys_cachev g3 (Some n)"
  "f4 n = g4 n \<Longrightarrow> vtree_fetch_values_cachev f4 (Some n) = vtree_fetch_values_cachev g4 (Some n)"
  "f5 n = g5 n \<Longrightarrow> vtree_fetch_keys_by_value_cachev f5 (Some n) = vtree_fetch_keys_by_value_cachev g5 (Some n)"
  "f6 n = g6 n \<Longrightarrow> vtree_getnode_cachev f6 (Some n) = vtree_getnode_cachev g6 (Some n)"
  "f7 n = g7 n \<Longrightarrow> vtree_fetch_nodes_cachev f7 (Some n) = vtree_fetch_nodes_cachev g7 (Some n)"
  by (intro ext, simp add: live_def vtree_getlen_cachev_def vtree_get_cachev_def
      vtree_haskey_cachev_def vtree_fetch_keys_cachev_def vtree_fetch_values_cachev_def
      vtree_fetch_keys_by_value_cachev_def vtree_getnode_cachev_def vtree_fetch_nodes_cachev_def cong: option.case_cong)+

lemma vtree_literal_getlen_cong [fundef_cong]:
  assumes "data = data'" "\<And>n. n \<in> kv_nodes data' \<Longrightarrow> f n = g n"
  shows "vtree_literal_getlen f data = vtree_literal_getlen g data'"
proof (intro ext)
  fix cc argv
  have "f n = g n" if "literal_at data' argv = Some (Some (vkvNode n))" for n
    using assms(2) [OF literal_at_node [OF that]] .
  then show "vtree_literal_getlen f data cc argv = vtree_literal_getlen g data' cc argv"
    unfolding assms(1) vtree_literal_getlen_def
    by (auto simp: cachev_cong(1) [of f _ g] split: option.splits kv_value.splits list.splits varg.splits)
qed

lemma vtree_literal_get_cong [fundef_cong]:
  assumes "data = data'" "\<And>n. n \<in> kv_nodes data' \<Longrightarrow> f n = g n"
  shows "vtree_literal_get f data = vtree_literal_get g data'"
proof (intro ext)
  fix cc argv
  have "f n = g n" if "literal_at data' argv = Some (Some (vkvNode n))" for n
    using assms(2) [OF literal_at_node [OF that]] .
  then show "vtree_literal_get f data cc argv = vtree_literal_get g data' cc argv"
    unfolding assms(1) vtree_literal_get_def
    by (auto simp: cachev_cong(2) [of f _ g] split: option.splits kv_value.splits list.splits varg.splits)
qed

lemma vtree_literal_haskey_cong [fundef_cong]:
  assumes "data = data'" "\<And>n. n \<in> kv_nodes data' \<Longrightarrow> f n = g n"
  shows "vtree_literal_haskey f data = vtree_literal_haskey g data'"
proof (intro ext)
  fix cc argv
  have "f n = g n" if "literal_at data' argv = Some (Some (vkvNode n))" for n
    using assms(2) [OF literal_at_node [OF that]] .
  then show "vtree_literal_haskey f data cc argv = vtree_literal_haskey g data' cc argv"
    unfolding assms(1) vtree_literal_haskey_def
    by (auto simp: cachev_cong(3) [of f _ g] split: option.splits kv_value.splits list.splits varg.splits)
qed

lemma vtree_literal_fetch_keys_cong [fundef_cong]:
  assumes "data = data'" "\<And>n. n \<in> kv_nodes data' \<Longrightarrow> f n = g n"
  shows "vtree_literal_fetch_keys f data = vtree_literal_fetch_keys g data'"
proof (intro ext)
  fix cc argv
  have "f n = g n" if "literal_at data' argv = Some (Some (vkvNode n))" for n
    using assms(2) [OF literal_at_node [OF that]] .
  then show "vtree_literal_fetch_keys f data cc argv = vtree_literal_fetch_keys g data' cc argv"
    unfolding assms(1) vtree_literal_fetch_keys_def
    by (auto simp: cachev_cong(4) [of f _ g] split: option.splits kv_value.splits list.splits varg.splits)
qed

lemma vtree_literal_fetch_values_cong [fundef_cong]:
  assumes "data = data'" "\<And>n. n \<in> kv_nodes data' \<Longrightarrow> f n = g n"
  shows "vtree_literal_fetch_values h f data = vtree_literal_fetch_values h g data'"
proof (intro ext)
  fix cc argv
  have "f n = g n" if "literal_at data' ks = Some (Some (vkvNode n))" for n ks
    using assms(2) [OF literal_at_node [OF that]] .
  then show "vtree_literal_fetch_values h f data cc argv = vtree_literal_fetch_values h g data' cc argv"
    unfolding assms(1) vtree_literal_fetch_values_def
    by (auto simp: cachev_cong(5) [of f _ g] split: option.splits kv_value.splits list.splits varg.splits)
qed

lemma vtree_literal_fetch_keys_by_value_cong [fundef_cong]:
  assumes "data = data'" "\<And>n. n \<in> kv_nodes data' \<Longrightarrow> f n = g n"
  shows "vtree_literal_fetch_keys_by_value h f data = vtree_literal_fetch_keys_by_value h g data'"
proof (intro ext)
  fix val cc argv
  have "f n = g n" if "literal_at data' ks = Some (Some (vkvNode n))" for n ks
    using assms(2) [OF literal_at_node [OF that]] .
  then show "vtree_literal_fetch_keys_by_value h f data val cc argv = vtree_literal_fetch_keys_by_value h g data' val cc argv"
    unfolding assms(1) vtree_literal_fetch_keys_by_value_def
    by (auto simp: cachev_cong(6) [of f _ g] split: option.splits kv_value.splits list.splits varg.splits)
qed

lemma vtree_literal_getnode_cong [fundef_cong]:
  assumes "data = data'" "\<And>n. n \<in> kv_nodes data' \<Longrightarrow> f n = g n"
  shows "vtree_literal_getnode f data = vtree_literal_getnode g data'"
proof (intro ext)
  fix cc argv
  have "f n = g n" if "literal_at data' argv = Some (Some (vkvNode n))" for n
    using assms(2) [OF literal_at_node [OF that]] .
  then show "vtree_literal_getnode f data cc argv = vtree_literal_getnode g data' cc argv"
    unfolding assms(1) vtree_literal_getnode_def
    by (auto simp: cachev_cong(7) [of f _ g] split: option.splits kv_value.splits list.splits varg.splits)
qed

lemma vtree_literal_fetch_nodes_cong [fundef_cong]:
  assumes "data = data'" "\<And>n. n \<in> kv_nodes data' \<Longrightarrow> f n = g n"
  shows "vtree_literal_fetch_nodes f data = vtree_literal_fetch_nodes g data'"
proof (intro ext)
  fix cc argv
  have "f n = g n" if "literal_at data' argv = Some (Some (vkvNode n))" for n
    using assms(2) [OF literal_at_node [OF that]] .
  then show "vtree_literal_fetch_nodes f data cc argv = vtree_literal_fetch_nodes g data' cc argv"
    unfolding assms(1) vtree_literal_fetch_nodes_def
    by (auto simp: cachev_cong(8) [of f _ g] split: option.splits kv_value.splits list.splits varg.splits)
qed

lemma sub_size:
  "c = Some v \<Longrightarrow> size v < size (VT_shadow c d)" "d = Some v \<Longrightarrow> size v < size (VT_shadow c d)"
  "c = Some v \<Longrightarrow> size v < size (VT_prefix p c)"
  by simp_all

section \<open>Dispatch\<close>

function bpv_getlen :: "vtree_chain \<Rightarrow> nat meth" where
  "bpv_getlen VT_null = (\<lambda>cc argv. None)"
| "bpv_getlen (VT_bconf_node n) = bconf_node_getlen n"
| "bpv_getlen (VT_bconf lo hi l) = bconf_getlen lo hi l"
| "bpv_getlen (VT_shadow t nx) = shadow_vtree_getlen (sub_meth bpv_getlen t) (sub_meth bpv_getlen nx)"
| "bpv_getlen (VT_prefix p nx) = prefix_vtree_getlen p (sub_meth bpv_getlen nx)"
| "bpv_getlen (VT_literal d) = vtree_literal_getlen bpv_getlen d"
| "bpv_getlen (VT_value v) = vtree_value_getlen v"
  by pat_completeness auto
termination
  by (relation "measure size") (auto simp: sub_size kv_nodes_size simp del: vtree_chain.size)

function bpv_get :: "vtree_chain \<Rightarrow> cstring option meth" where
  "bpv_get VT_null = (\<lambda>cc argv. None)"
| "bpv_get (VT_bconf_node n) = bconf_node_get n"
| "bpv_get (VT_bconf lo hi l) = bconf_vt_get lo hi l"
| "bpv_get (VT_shadow t nx) = shadow_vtree_get (sub_meth bpv_get t) (sub_meth bpv_get nx)"
| "bpv_get (VT_prefix p nx) = prefix_vtree_get p (sub_meth bpv_get nx)"
| "bpv_get (VT_literal d) = vtree_literal_get bpv_get d"
| "bpv_get (VT_value v) = vtree_value_get v"
  by pat_completeness auto
termination
  by (relation "measure size") (auto simp: sub_size kv_nodes_size simp del: vtree_chain.size)

function bpv_haskey :: "vtree_chain \<Rightarrow> int meth" where
  "bpv_haskey VT_null = (\<lambda>cc argv. None)"
| "bpv_haskey (VT_bconf_node n) = bconf_node_haskey n"
| "bpv_haskey (VT_bconf lo hi l) = bconf_haskey lo hi l"
| "bpv_haskey (VT_shadow t nx) = shadow_vtree_haskey (sub_meth bpv_haskey t) (sub_meth bpv_haskey nx)"
| "bpv_haskey (VT_prefix p nx) = prefix_vtree_haskey p (sub_meth bpv_haskey nx)"
| "bpv_haskey (VT_literal d) = vtree_literal_haskey bpv_haskey d"
| "bpv_haskey (VT_value v) = vtree_value_haskey v"
  by pat_completeness auto
termination
  by (relation "measure size") (auto simp: sub_size kv_nodes_size simp del: vtree_chain.size)

function bpv_fetch_keys :: "vtree_chain \<Rightarrow> cstring option list meth" where
  "bpv_fetch_keys VT_null = (\<lambda>cc argv. None)"
| "bpv_fetch_keys (VT_bconf_node n) = bconf_node_fetch_keys n"
| "bpv_fetch_keys (VT_bconf lo hi l) = bconf_fetch_keys lo hi l"
| "bpv_fetch_keys (VT_shadow t nx) = shadow_vtree_fetch_keys (sub_meth bpv_fetch_keys t) (sub_meth bpv_fetch_keys nx)"
| "bpv_fetch_keys (VT_prefix p nx) = prefix_vtree_fetch_keys p (sub_meth bpv_fetch_keys nx)"
| "bpv_fetch_keys (VT_literal d) = vtree_literal_fetch_keys bpv_fetch_keys d"
| "bpv_fetch_keys (VT_value v) = vtree_value_fetch v"
  by pat_completeness auto
termination
  by (relation "measure size") (auto simp: sub_size kv_nodes_size simp del: vtree_chain.size)

function bpv_fetch_values :: "vtree_chain \<Rightarrow> cstring option list loop_meth" where
  "bpv_fetch_values VT_null = (\<lambda>cc argv. None)"
| "bpv_fetch_values (VT_bconf_node n) = bconf_node_fetch_values n"
| "bpv_fetch_values (VT_bconf lo hi l) = bconf_fetch_values lo hi l"
| "bpv_fetch_values (VT_shadow t nx) = shadow_vtree_fetch_values (sub_meth bpv_fetch_values t) (sub_meth bpv_fetch_values nx)"
| "bpv_fetch_values (VT_prefix p nx) = prefix_vtree_fetch_values p (sub_meth bpv_fetch_values nx)"
| "bpv_fetch_values (VT_literal d) = vtree_literal_fetch_values bpv_get bpv_fetch_values d"
| "bpv_fetch_values (VT_value v) = vtree_value_fetch v"
  by pat_completeness auto
termination
  by (relation "measure size") (auto simp: sub_size kv_nodes_size simp del: vtree_chain.size)

function bpv_fetch_byval :: "vtree_chain \<Rightarrow> cstring \<Rightarrow> cstring option list loop_meth" where
  "bpv_fetch_byval VT_null = (\<lambda>val cc argv. None)"
| "bpv_fetch_byval (VT_bconf_node n) = bconf_node_fetch_byval n"
| "bpv_fetch_byval (VT_bconf lo hi l) = bconf_fetch_keys_by_value lo hi l"
| "bpv_fetch_byval (VT_shadow t nx) = (\<lambda>val. shadow_vtree_fetch_keys_by_value (map_option (\<lambda>m. m val) (sub_meth bpv_fetch_byval t)) (map_option (\<lambda>m. m val) (sub_meth bpv_fetch_byval nx)))"
| "bpv_fetch_byval (VT_prefix p nx) = (\<lambda>val. prefix_vtree_fetch_keys_by_value p (map_option (\<lambda>m. m val) (sub_meth bpv_fetch_byval nx)))"
| "bpv_fetch_byval (VT_literal d) = vtree_literal_fetch_keys_by_value bpv_get bpv_fetch_byval d"
| "bpv_fetch_byval (VT_value v) = vtree_value_fetch_keys_by_value v"
  by pat_completeness auto
termination
  by (relation "measure size") (auto simp: sub_size kv_nodes_size simp del: vtree_chain.size)

function bpv_getnode :: "vtree_chain \<Rightarrow> vtree_chain option meth" where
  "bpv_getnode VT_null = (\<lambda>cc argv. None)"
| "bpv_getnode (VT_bconf_node n) = bconf_node_getnode n"
| "bpv_getnode (VT_bconf lo hi l) = bconf_getnode lo hi l"
| "bpv_getnode (VT_shadow t nx) = shadow_vtree_getnode (VT_shadow t nx) (sub_meth bpv_getnode t) (sub_meth bpv_getnode nx)"
| "bpv_getnode (VT_prefix p nx) = prefix_vtree_getnode (VT_prefix p nx) p (sub_meth bpv_getnode nx)"
| "bpv_getnode (VT_literal d) = vtree_literal_getnode bpv_getnode d"
| "bpv_getnode (VT_value v) = vtree_value_getnode v"
  by pat_completeness auto
termination
  by (relation "measure size") (auto simp: sub_size kv_nodes_size simp del: vtree_chain.size)

function bpv_fetch_nodes :: "vtree_chain \<Rightarrow> vtree_chain list meth" where
  "bpv_fetch_nodes VT_null = (\<lambda>cc argv. None)"
| "bpv_fetch_nodes (VT_bconf_node n) = bconf_node_fetch_nodes n"
| "bpv_fetch_nodes (VT_bconf lo hi l) = bconf_fetch_nodes lo hi l"
| "bpv_fetch_nodes (VT_shadow t nx) = shadow_vtree_fetch_nodes (sub_meth bpv_fetch_nodes t) (sub_meth bpv_fetch_nodes nx)"
| "bpv_fetch_nodes (VT_prefix p nx) = prefix_vtree_fetch_nodes p nx (sub_meth bpv_fetch_nodes nx)"
| "bpv_fetch_nodes (VT_literal d) = vtree_literal_fetch_nodes bpv_fetch_nodes d"
| "bpv_fetch_nodes (VT_value v) = vtree_value_fetch v"
  by pat_completeness auto
termination
  by (relation "measure size") (auto simp: sub_size kv_nodes_size simp del: vtree_chain.size)

text \<open>The node an empty vector leads to is not larger than the chain.\<close>

lemma getnode_self_size: "bpv_getnode c cc [] = Some (Some n, cc') \<Longrightarrow> size n \<le> size c"
proof (induction c arbitrary: cc cc' n rule: bpv_getnode.induct)
  case (4 t nx)
  show ?case
  proof (cases "sub_meth bpv_getnode t")
    case None
    then obtain v where v: "nx = Some v" "v \<noteq> VT_null" "\<exists>cc''. bpv_getnode v cc [] = Some (Some n, cc'')"
      using 4(3) by (auto simp: shadow_vtree_getnode_def call_def sub_meth_def split: option.splits if_splits)
    with 4(2) have "size n \<le> size v" by auto
    with v(1) show ?thesis by simp
  next
    case (Some m)
    with 4(3) show ?thesis by (auto simp: shadow_vtree_getnode_def)
  qed
qed (auto simp: bconf_node_getnode_def bconf_getnode_def prefix_vtree_getnode_def
    vtree_literal_getnode_def vtree_value_getnode_def split: option.splits if_splits)

lemma literal_getnode_size:
  assumes "vtree_literal_getnode bpv_getnode d cc [k] = Some (Some n, cc')"
  shows "size n < size (VT_literal d)"
proof -
  obtain v where v: "literal_at d [k] = Some (Some v)"
    using assms by (auto simp: vtree_literal_getnode_def split: option.splits)
  show ?thesis
  proof (cases v)
    case (vkvNode m)
    with v have m: "m \<in> kv_nodes d" by (auto intro: literal_at_node)
    from vkvNode v assms have "\<exists>c c'. bpv_getnode m c [] = Some (Some n, c')"
      by (auto simp: vtree_literal_getnode_def vtree_getnode_cachev_def live_def split: option.splits if_splits)
    with getnode_self_size have "size n \<le> size m" by blast
    with kv_nodes_size [OF m] show ?thesis by simp
  qed (use v assms in \<open>auto simp: vtree_literal_getnode_def\<close>)
qed

lemma vtree_literal_fetch_keys_and_values_cong [fundef_cong]:
  assumes "d = d'"
    "\<And>n k cc'. vtree_literal_getnode h d' VTCACHE_CANT [k] = Some (Some n, cc') \<Longrightarrow> f n = g n"
  shows "vtree_literal_fetch_keys_and_values get h f d = vtree_literal_fetch_keys_and_values get h g d'"
  unfolding assms(1) vtree_literal_fetch_keys_and_values_def
  by (intro ext) (auto dest: assms(2) split: list.splits varg.splits option.splits)

function bpv_fetch_keys_and_values :: "vtree_chain \<Rightarrow> vtree_keyvals loop_meth" where
  "bpv_fetch_keys_and_values VT_null = (\<lambda>cc argv. None)"
| "bpv_fetch_keys_and_values (VT_bconf_node n) = bconf_node_fetch_keys_and_values n"
| "bpv_fetch_keys_and_values (VT_bconf lo hi l) = bconf_fetch_keys_and_values lo hi l"
| "bpv_fetch_keys_and_values (VT_shadow t nx) =
     shadow_vtree_fetch_keys_and_values (sub_meth bpv_fetch_keys_and_values t)
       (sub_meth bpv_fetch_keys_and_values nx)"
| "bpv_fetch_keys_and_values (VT_prefix p nx) =
     prefix_vtree_fetch_keys_and_values p nx (sub_meth bpv_fetch_keys_and_values nx)"
| "bpv_fetch_keys_and_values (VT_literal d) =
     vtree_literal_fetch_keys_and_values bpv_get bpv_getnode bpv_fetch_keys_and_values d"
| "bpv_fetch_keys_and_values (VT_value v) = vtree_value_fetch_keys_and_values v"
  by pat_completeness auto
termination
  by (relation "measure size") (auto simp: sub_size literal_getnode_size simp del: vtree_chain.size)

section \<open>Sorted listings of keys\<close>

lemma insort_map: "insort_strcmp f (g x) (map g ys) = map g (insort_strcmp (f \<circ> g) x ys)"
  by (induction ys) auto

lemma qsort_map: "qsort_strcmp f (map g xs) = map g (qsort_strcmp (f \<circ> g) xs)"
  by (induction xs) (simp_all add: qsort_strcmp_def insort_map comp_def)

lemma key_sort_keys: "key_sort (map Some l) = Some (map Some (qsort_strcmp id l))"
proof (cases "length l < 2")
  case True
  then have "l = [] \<or> (\<exists>k. l = [k])" by (cases l) auto
  then show ?thesis by (auto simp: key_sort_def qsort_strcmp_def)
next
  case False
  have "the \<circ> Some = (id :: cstring \<Rightarrow> cstring)" by auto
  with False show ?thesis by (auto simp: key_sort_def qsort_map)
qed

lemma insort_strcmp_set: "set (insort_strcmp f x ys) = insert x (set ys)"
  by (induction ys) auto

lemma qsort_strcmp_set: "set (qsort_strcmp f xs) = set xs"
  by (induction xs) (auto simp: qsort_strcmp_def insort_strcmp_set)

end
