(* ===== verification/VtreeProps.thy ===== *)
theory VtreeProps
  imports VtreeDispatch
begin

text \<open>
  What holds of the vtree methods: on chains whose links are set no method reads through a \<open>NULL\<close>
  pointer, a shadow tree is the overlay of its two trees, a node cursor reads what the full path
  reads, the caches of the entry points keep only what was reported as cacheable, and which argument counts
  \<open>VTREE_ARGS_COPY\<close> handles.
\<close>

section \<open>No reads through NULL\<close>

inductive safe_chain :: "vtree_chain \<Rightarrow> bool" where
  safe_bconf_node: "safe_chain (VT_bconf_node n)"
| safe_bconf: "safe_chain (VT_bconf lo hi l)"
| safe_value: "safe_chain (VT_value v)"
| safe_shadow: "safe_chain nx \<Longrightarrow> (\<And>c. t = Some c \<Longrightarrow> c = VT_null \<or> safe_chain c) \<Longrightarrow>
    safe_chain (VT_shadow t (Some nx))"
| safe_prefix: "safe_chain nx \<Longrightarrow> safe_chain (VT_prefix p (Some nx))"
| safe_literal: "(\<And>n. n \<in> kv_nodes d \<Longrightarrow> n = VT_null \<or> safe_chain n) \<Longrightarrow>
    (kv_type d \<noteq> vktList \<Longrightarrow> \<forall>e \<in> set (kv_list d). kv_key e \<noteq> None) \<Longrightarrow> safe_chain (VT_literal d)"

inductive_cases safe_null [elim!]: "safe_chain VT_null"

lemma sub_meth_safe: "safe_chain c \<Longrightarrow> sub_meth f (Some c) = Some (f c)"
  by (auto simp: sub_meth_def)

lemma find_key_some: "\<forall>e \<in> set es. kv_key e \<noteq> None \<Longrightarrow> \<exists>i. find_key k j es = Some i"
  by (induction k j es rule: find_key.induct) auto

lemma literal_at_some:
  assumes "kv_type d \<noteq> vktList \<Longrightarrow> \<forall>e \<in> set (kv_list d). kv_key e \<noteq> None"
  obtains r where "literal_at d argv = Some r"
proof -
  have "\<exists>i. get_index d argv = Some i"
    using assms find_key_some [of "kv_list d"]
    by (cases argv; cases "kv_type d = vktList") (auto simp: get_index_def Let_def split: prod.splits)
  then obtain i where i: "get_index d argv = Some i" ..
  show thesis by (cases "i < 0") (use i that in \<open>auto simp: literal_at_def\<close>)
qed

lemma live_cases: "live (Some n) = (if n = VT_null then None else Some n)"
  by (simp add: live_def)

text \<open>A method that never reads through \<open>NULL\<close>, as a function into the results.\<close>

definition total :: "('a \<Rightarrow> 'b \<Rightarrow> 'r option) \<Rightarrow> bool" where
  "total m = (\<forall>cc argv. m cc argv \<noteq> None)"

lemma totalE:
  assumes "total m"
  obtains g where "m = (\<lambda>cc argv. Some (g cc argv))"
proof
  show "m = (\<lambda>cc argv. Some (the (m cc argv)))" using assms by (auto simp: total_def fun_eq_iff)
qed

lemma sub_total:
  assumes "\<And>c. t = Some c \<Longrightarrow> c \<noteq> VT_null \<Longrightarrow> total (f c)"
  shows "sub_meth f t = None \<or> (\<exists>g. sub_meth f t = Some (\<lambda>cc argv. Some (g cc argv)))"
proof (cases "sub_meth f t")
  case (Some m)
  then obtain c where "t = Some c" "c \<noteq> VT_null" "m = f c"
    by (auto simp: sub_meth_def split: option.splits if_splits)
  with assms [of c] Some totalE [of m] show ?thesis by metis
qed simp

named_theorems total_intros \<open>methods built from methods that never read through NULL\<close>

lemma total_shadow_vtree_getlen [total_intros]:
  "s = None \<or> (\<exists>g. s = Some (\<lambda>cc argv. Some (g cc argv))) \<Longrightarrow> total m \<Longrightarrow> total (shadow_vtree_getlen s (Some m))"
  by (erule totalE) (auto simp: total_def shadow_vtree_getlen_def call_def Let_def split: prod.splits)

lemma total_shadow_vtree_get [total_intros]:
  "s = None \<or> (\<exists>g. s = Some (\<lambda>cc argv. Some (g cc argv))) \<Longrightarrow> total m \<Longrightarrow> total (shadow_vtree_get s (Some m))"
  by (erule totalE) (auto simp: total_def shadow_vtree_get_def call_def Let_def split: prod.splits)

lemma total_shadow_vtree_haskey [total_intros]:
  "s = None \<or> (\<exists>g. s = Some (\<lambda>cc argv. Some (g cc argv))) \<Longrightarrow> total m \<Longrightarrow> total (shadow_vtree_haskey s (Some m))"
  by (erule totalE) (auto simp: total_def shadow_vtree_haskey_def call_def Let_def split: prod.splits)

lemma total_shadow_vtree_fetch_values [total_intros]:
  "s = None \<or> (\<exists>g. s = Some (\<lambda>cc argv. Some (g cc argv))) \<Longrightarrow> total m \<Longrightarrow> total (shadow_vtree_fetch_values s (Some m))"
  by (erule totalE) (auto simp: total_def shadow_vtree_fetch_values_def call_def Let_def split: prod.splits)

lemma total_shadow_vtree_fetch_keys_by_value [total_intros]:
  "s = None \<or> (\<exists>g. s = Some (\<lambda>cc argv. Some (g cc argv))) \<Longrightarrow> total m \<Longrightarrow> total (shadow_vtree_fetch_keys_by_value s (Some m))"
  by (erule totalE) (auto simp: total_def shadow_vtree_fetch_keys_by_value_def call_def Let_def split: prod.splits)

lemma total_shadow_vtree_fetch_nodes [total_intros]:
  "s = None \<or> (\<exists>g. s = Some (\<lambda>cc argv. Some (g cc argv))) \<Longrightarrow> total m \<Longrightarrow> total (shadow_vtree_fetch_nodes s (Some m))"
  by (erule totalE) (auto simp: total_def shadow_vtree_fetch_nodes_def call_def Let_def split: prod.splits)

lemma total_shadow_vtree_getnode [total_intros]:
  "s = None \<or> (\<exists>g. s = Some (\<lambda>cc argv. Some (g cc argv))) \<Longrightarrow> total m \<Longrightarrow> total (shadow_vtree_getnode self s (Some m))"
  by (erule totalE) (auto simp: total_def shadow_vtree_getnode_def call_def Let_def split: prod.splits)

lemma total_prefix_vtree_getlen [total_intros]: "total m \<Longrightarrow> total (prefix_vtree_getlen p (Some m))"
  by (erule totalE) (auto simp: total_def prefix_vtree_getlen_def call_def split: list.splits prefix_arg.splits)

lemma total_prefix_vtree_get [total_intros]: "total m \<Longrightarrow> total (prefix_vtree_get p (Some m))"
  by (erule totalE) (auto simp: total_def prefix_vtree_get_def call_def split: list.splits prefix_arg.splits)

lemma total_prefix_vtree_haskey [total_intros]: "total m \<Longrightarrow> total (prefix_vtree_haskey p (Some m))"
  by (erule totalE) (auto simp: total_def prefix_vtree_haskey_def call_def split: list.splits prefix_arg.splits)

lemma total_prefix_vtree_fetch_keys [total_intros]: "total m \<Longrightarrow> total (prefix_vtree_fetch_keys p (Some m))"
  by (erule totalE) (auto simp: total_def prefix_vtree_fetch_keys_def call_def split: list.splits prefix_arg.splits)

lemma total_prefix_vtree_fetch_values [total_intros]: "total m \<Longrightarrow> total (prefix_vtree_fetch_values p (Some m))"
  by (erule totalE) (auto simp: total_def prefix_vtree_fetch_values_def call_def split: list.splits prefix_arg.splits)

lemma total_prefix_vtree_fetch_keys_by_value [total_intros]: "total m \<Longrightarrow> total (prefix_vtree_fetch_keys_by_value p (Some m))"
  by (erule totalE) (auto simp: total_def prefix_vtree_fetch_keys_by_value_def call_def split: list.splits prefix_arg.splits)

lemma total_prefix_vtree_getnode [total_intros]: "total m \<Longrightarrow> total (prefix_vtree_getnode self p (Some m))"
  by (erule totalE) (auto simp: total_def prefix_vtree_getnode_def call_def split: list.splits prefix_arg.splits)

lemma total_prefix_vtree_fetch_nodes [total_intros]: "total m \<Longrightarrow> total (prefix_vtree_fetch_nodes p (Some c) (Some m))"
  by (erule totalE) (auto simp: total_def prefix_vtree_fetch_nodes_def call_def split: list.splits prefix_arg.splits)

definition keys_ok :: "vtree_keyvals \<Rightarrow> bool" where
  "keys_ok d = (kv_type d = vktList \<or> (\<forall>e \<in> set (kv_list d). kv_key e \<noteq> None))"

lemma literal_total_cases:
  assumes "keys_ok d" "\<And>n. n \<in> kv_nodes d \<Longrightarrow> n \<noteq> VT_null \<Longrightarrow> total (f n)"
  obtains "literal_at d argv = Some None"
  | v where "literal_at d argv = Some (Some v)" "\<And>n. v \<noteq> vkvNode n"
  | n where "literal_at d argv = Some (Some (vkvNode n))" "live (Some n) = None"
  | n g where "literal_at d argv = Some (Some (vkvNode n))" "live (Some n) = Some n"
      "f n = (\<lambda>cc argv. Some (g cc argv))"
proof -
  obtain r where r: "literal_at d argv = Some r"
    by (rule literal_at_some [of d]) (use assms(1) in \<open>auto simp: keys_ok_def\<close>)
  show thesis
  proof (cases "\<exists>n. r = Some (vkvNode n)")
    case True
    then obtain n where n: "r = Some (vkvNode n)" ..
    with r have "n \<in> kv_nodes d" by (auto intro: literal_at_node)
    show thesis
    proof (cases "n = VT_null")
      case True
      with r n that(3) show ?thesis by (simp add: live_cases)
    next
      case False
      from totalE [OF assms(2) [OF \<open>n \<in> kv_nodes d\<close> False]] obtain g
        where "f n = (\<lambda>cc argv. Some (g cc argv))" .
      with r n False that(4) show ?thesis by (simp add: live_cases)
    qed
  next
    case False
    with r that(1,2) show ?thesis by (cases r) auto
  qed
qed

lemma total_vtree_literal_getlen [total_intros]:
  "keys_ok d \<Longrightarrow> (\<And>n. n \<in> kv_nodes d \<Longrightarrow> n \<noteq> VT_null \<Longrightarrow> total (f n)) \<Longrightarrow> total (vtree_literal_getlen f d)"
  unfolding total_def [of "vtree_literal_getlen f d"]
proof (intro allI)
  fix cc argv
  assume "keys_ok d" "\<And>n. n \<in> kv_nodes d \<Longrightarrow> n \<noteq> VT_null \<Longrightarrow> total (f n)"
  then show "vtree_literal_getlen f d cc argv \<noteq> None"
    by (cases rule: literal_total_cases [where f = f and argv = argv])
      (auto simp: vtree_literal_getlen_def vtree_getlen_cachev_def split: kv_value.splits prod.splits)
qed

lemma total_vtree_literal_get [total_intros]:
  "keys_ok d \<Longrightarrow> (\<And>n. n \<in> kv_nodes d \<Longrightarrow> n \<noteq> VT_null \<Longrightarrow> total (f n)) \<Longrightarrow> total (vtree_literal_get f d)"
  unfolding total_def [of "vtree_literal_get f d"]
proof (intro allI)
  fix cc argv
  assume "keys_ok d" "\<And>n. n \<in> kv_nodes d \<Longrightarrow> n \<noteq> VT_null \<Longrightarrow> total (f n)"
  then show "vtree_literal_get f d cc argv \<noteq> None"
    by (cases rule: literal_total_cases [where f = f and argv = argv])
      (auto simp: vtree_literal_get_def vtree_get_cachev_def split: kv_value.splits prod.splits)
qed

lemma total_vtree_literal_haskey [total_intros]:
  "keys_ok d \<Longrightarrow> (\<And>n. n \<in> kv_nodes d \<Longrightarrow> n \<noteq> VT_null \<Longrightarrow> total (f n)) \<Longrightarrow> total (vtree_literal_haskey f d)"
  unfolding total_def [of "vtree_literal_haskey f d"]
proof (intro allI)
  fix cc argv
  assume "keys_ok d" "\<And>n. n \<in> kv_nodes d \<Longrightarrow> n \<noteq> VT_null \<Longrightarrow> total (f n)"
  then show "vtree_literal_haskey f d cc argv \<noteq> None"
    by (cases rule: literal_total_cases [where f = f and argv = argv])
      (auto simp: vtree_literal_haskey_def vtree_haskey_cachev_def split: kv_value.splits prod.splits)
qed

lemma total_vtree_literal_fetch_keys [total_intros]:
  "keys_ok d \<Longrightarrow> (\<And>n. n \<in> kv_nodes d \<Longrightarrow> n \<noteq> VT_null \<Longrightarrow> total (f n)) \<Longrightarrow> total (vtree_literal_fetch_keys f d)"
  unfolding total_def [of "vtree_literal_fetch_keys f d"]
proof (intro allI)
  fix cc argv
  assume "keys_ok d" "\<And>n. n \<in> kv_nodes d \<Longrightarrow> n \<noteq> VT_null \<Longrightarrow> total (f n)"
  then show "vtree_literal_fetch_keys f d cc argv \<noteq> None"
    by (cases rule: literal_total_cases [where f = f and argv = argv])
      (auto simp: vtree_literal_fetch_keys_def vtree_fetch_keys_cachev_def split: kv_value.splits prod.splits)
qed

lemma total_vtree_literal_getnode [total_intros]:
  "keys_ok d \<Longrightarrow> (\<And>n. n \<in> kv_nodes d \<Longrightarrow> n \<noteq> VT_null \<Longrightarrow> total (f n)) \<Longrightarrow> total (vtree_literal_getnode f d)"
  unfolding total_def [of "vtree_literal_getnode f d"]
proof (intro allI)
  fix cc argv
  assume "keys_ok d" "\<And>n. n \<in> kv_nodes d \<Longrightarrow> n \<noteq> VT_null \<Longrightarrow> total (f n)"
  then show "vtree_literal_getnode f d cc argv \<noteq> None"
    by (cases rule: literal_total_cases [where f = f and argv = argv])
      (auto simp: vtree_literal_getnode_def vtree_getnode_cachev_def split: kv_value.splits prod.splits)
qed

lemma total_vtree_literal_fetch_nodes [total_intros]:
  "keys_ok d \<Longrightarrow> (\<And>n. n \<in> kv_nodes d \<Longrightarrow> n \<noteq> VT_null \<Longrightarrow> total (f n)) \<Longrightarrow> total (vtree_literal_fetch_nodes f d)"
  unfolding total_def [of "vtree_literal_fetch_nodes f d"]
proof (intro allI)
  fix cc argv
  assume "keys_ok d" "\<And>n. n \<in> kv_nodes d \<Longrightarrow> n \<noteq> VT_null \<Longrightarrow> total (f n)"
  then show "vtree_literal_fetch_nodes f d cc argv \<noteq> None"
    by (cases rule: literal_total_cases [where f = f and argv = argv])
      (auto simp: vtree_literal_fetch_nodes_def vtree_fetch_nodes_cachev_def split: kv_value.splits prod.splits)
qed

lemma total_leaf [total_intros]:
  "total (bconf_node_getlen n)" "total (bconf_node_get n)" "total (bconf_node_haskey n)"
  "total (bconf_node_fetch_keys n)" "total (bconf_node_fetch_values n)" "total (bconf_node_fetch_byval n v)"
  "total (bconf_node_getnode n)" "total (bconf_node_fetch_nodes n)"
  "total (bconf_getlen lo hi l)" "total (bconf_vt_get lo hi l)" "total (bconf_haskey lo hi l)"
  "total (bconf_fetch_keys lo hi l)" "total (bconf_fetch_values lo hi l)"
  "total (bconf_fetch_keys_by_value lo hi l v)" "total (bconf_getnode lo hi l)" "total (bconf_fetch_nodes lo hi l)"
  "total (vtree_value_getlen w)" "total (vtree_value_get w)" "total (vtree_value_haskey w)"
  "total (vtree_value_fetch w)" "total (vtree_value_fetch_keys_by_value w v)" "total (vtree_value_getnode w)"
  by (auto simp: total_def bconf_node_getlen_def bconf_node_get_def bconf_node_haskey_def
      bconf_node_fetch_keys_def bconf_node_fetch_values_def bconf_node_fetch_byval_def
      bconf_node_getnode_def bconf_node_fetch_nodes_def bconf_getlen_def bconf_vt_get_def
      bconf_haskey_def bconf_fetch_keys_def bconf_fetch_values_def bconf_fetch_keys_by_value_def
      bconf_getnode_def bconf_fetch_nodes_def vtree_value_getlen_def vtree_value_get_def
      vtree_value_haskey_def vtree_value_fetch_def vtree_value_fetch_keys_by_value_def
      vtree_value_getnode_def Let_def split: option.splits)

lemma those_some: "(\<And>x. x \<in> set xs \<Longrightarrow> f x \<noteq> None) \<Longrightarrow> \<exists>ys. those (map f xs) = Some ys"
proof (induction xs)
  case (Cons x xs)
  obtain y where "f x = Some y" using Cons.prems [of x] by auto
  moreover obtain ys where "those (map f xs) = Some ys" using Cons by auto
  ultimately show ?case by simp
qed simp

lemma elem_value_some:
  assumes "e \<in> set (kv_list d)" "\<And>n. n \<in> kv_nodes d \<Longrightarrow> n \<noteq> VT_null \<Longrightarrow> total (f n)"
  shows "elem_value f rest (kv_val e) \<noteq> None"
proof (cases "kv_val e")
  case (vkvNode n)
  with assms(1) have n: "n \<in> kv_nodes d" by (auto simp: kv_nodes_def)
  show ?thesis
  proof (cases "n = VT_null")
    case True
    with vkvNode show ?thesis by (simp add: elem_value_def vtree_get_cachev_def live_cases)
  next
    case False
    from totalE [OF assms(2) [OF n False]] obtain g where "f n = (\<lambda>cc argv. Some (g cc argv))" .
    with vkvNode False show ?thesis
      by (auto simp: elem_value_def vtree_get_cachev_def live_cases split: prod.splits)
  qed
qed (simp_all add: elem_value_def)

lemma total_vtree_literal_fetch_values [total_intros]:
  assumes "keys_ok d" "\<And>n. n \<in> kv_nodes d \<Longrightarrow> n \<noteq> VT_null \<Longrightarrow> total (h n)"
    "\<And>n. n \<in> kv_nodes d \<Longrightarrow> n \<noteq> VT_null \<Longrightarrow> total (f n)"
  shows "total (vtree_literal_fetch_values h f d)"
  unfolding total_def
proof (intro allI)
  fix cc argv
  have el: "\<exists>ys. those (map (\<lambda>e. elem_value h (loop_keys as) (kv_val e)) (kv_list d)) = Some ys" for as
    by (rule those_some) (rule elem_value_some [OF _ assms(2)])
  show "vtree_literal_fetch_values h f d cc argv \<noteq> None"
  proof (cases argv)
    case (Cons a as)
    show ?thesis
    proof (cases a)
      case (Key k)
      show ?thesis
        by (cases rule: literal_total_cases [OF assms(1), where f = "f" and argv = "[k]"])
          (use assms(3) Cons Key in \<open>auto simp: vtree_literal_fetch_values_def vtree_fetch_values_cachev_def split: kv_value.splits prod.splits\<close>)
    next
      case VTREE_LOOP
      with Cons el [of as] show ?thesis by (auto simp: vtree_literal_fetch_values_def)
    qed
  qed (simp add: vtree_literal_fetch_values_def)
qed

lemma total_vtree_literal_fetch_keys_by_value [total_intros]:
  assumes "keys_ok d" "\<And>n. n \<in> kv_nodes d \<Longrightarrow> n \<noteq> VT_null \<Longrightarrow> total (h n)"
    "\<And>n. n \<in> kv_nodes d \<Longrightarrow> n \<noteq> VT_null \<Longrightarrow> total (f n val)"
  shows "total (vtree_literal_fetch_keys_by_value h f d val)"
  unfolding total_def
proof (intro allI)
  fix cc argv
  have el: "\<exists>ys. those (map (\<lambda>e. elem_value h (loop_keys as) (kv_val e)) (kv_list d)) = Some ys" for as
    by (rule those_some) (rule elem_value_some [OF _ assms(2)])
  show "vtree_literal_fetch_keys_by_value h f d val cc argv \<noteq> None"
  proof (cases argv)
    case (Cons a as)
    show ?thesis
    proof (cases a)
      case (Key k)
      show ?thesis
        by (cases rule: literal_total_cases [OF assms(1), where f = "(\<lambda>n. f n val)" and argv = "[k]"])
          (use assms(3) Cons Key in \<open>auto simp: vtree_literal_fetch_keys_by_value_def vtree_fetch_keys_by_value_cachev_def split: kv_value.splits prod.splits\<close>)
    next
      case VTREE_LOOP
      with Cons el [of as] show ?thesis by (auto simp: vtree_literal_fetch_keys_by_value_def)
    qed
  qed (simp add: vtree_literal_fetch_keys_by_value_def)
qed

text \<open>The keys a safe chain lists are set.\<close>

definition total_keys :: "cstring option list meth \<Rightarrow> bool" where
  "total_keys m = (\<forall>cc argv. \<exists>l cc'. m cc argv = Some (map Some l, cc'))"

lemma total_keys_total: "total_keys m \<Longrightarrow> total m"
  by (force simp: total_keys_def total_def)

lemma total_keysE:
  assumes "total_keys m"
  obtains l cc' where "m cc argv = Some (map Some l, cc')"
  using assms unfolding total_keys_def by blast

lemma merge_keys_keys: "\<exists>l. shadow_merge_keys (map Some xs) (map Some ys) = Some (map Some l)"
proof (induction "length xs + length ys" arbitrary: xs ys rule: less_induct)
  case less
  show ?case
  proof (cases "xs = [] \<or> ys = []")
    case True
    then have "shadow_merge_keys (map Some xs) (map Some ys) = Some []" by (cases xs) auto
    then show ?thesis by simp
  next
    case False
    then obtain x xs' y ys' where eq: "xs = x # xs'" "ys = y # ys'" by (meson neq_Nil_conv)
    consider "strcmp x y < 0" | "strcmp x y = 0" | "0 < strcmp x y" by linarith
    then show ?thesis
    proof cases
      case 1
      obtain l where "shadow_merge_keys (map Some xs') (map Some ys) = Some (map Some l)"
        using less [of xs' ys] by (auto simp: eq)
      with 1 eq show ?thesis by (intro exI [of _ "x # l"]) simp
    next
      case 2
      obtain l where "shadow_merge_keys (map Some xs') (map Some ys') = Some (map Some l)"
        using less [of xs' ys'] by (auto simp: eq)
      with 2 eq show ?thesis by (intro exI [of _ "x # l"]) simp
    next
      case 3
      obtain l where "shadow_merge_keys (map Some xs) (map Some ys') = Some (map Some l)"
        using less [of xs ys'] by (auto simp: eq)
      with 3 eq show ?thesis by (intro exI [of _ "y # l"]) simp
    qed
  qed
qed

lemma total_keys_shadow:
  assumes "s = None \<or> (\<exists>m'. s = Some m' \<and> total_keys m')" "total_keys m"
  shows "total_keys (shadow_vtree_fetch_keys s (Some m))"
  unfolding total_keys_def
proof (intro allI)
  fix cc argv
  have bottom: "\<exists>l cc'. (case call (Some m) c argv of None \<Rightarrow> None
      | Some (l, cc') \<Rightarrow> Some (l, if l = [] then VTCACHE_UNKNOWN else cc')) = Some (map Some l, cc')" for c
    by (rule total_keysE [OF assms(2), of c argv]) (auto simp: call_def)
  show "\<exists>l cc'. shadow_vtree_fetch_keys s (Some m) cc argv = Some (map Some l, cc')"
  proof (cases s)
    case None
    with bottom show ?thesis by (simp add: shadow_vtree_fetch_keys_def)
  next
    case (Some m')
    with assms(1) have tk: "total_keys m'" by simp
    show ?thesis
    proof (cases "argv = []")
      case True
      obtain l1 c1 where l1: "m' VTCACHE_CANT [] = Some (map Some l1, c1)" by (rule total_keysE [OF tk])
      obtain l2 c2 where l2: "m c1 [] = Some (map Some l2, c2)" by (rule total_keysE [OF assms(2)])
      obtain l where "shadow_merge_keys (map Some (qsort_strcmp id l1)) (map Some (qsort_strcmp id l2)) = Some (map Some l)"
        using merge_keys_keys by blast
      with Some True l1 l2 show ?thesis by (auto simp: shadow_vtree_fetch_keys_def call_def key_sort_keys)
    next
      case False
      obtain l1 c1 where l1: "m' cc argv = Some (map Some l1, c1)" by (rule total_keysE [OF tk])
      from Some False l1 bottom [of c1] show ?thesis by (auto simp: shadow_vtree_fetch_keys_def)
    qed
  qed
qed

lemma total_keys_literal:
  assumes "keys_ok d" "\<And>n. n \<in> kv_nodes d \<Longrightarrow> n \<noteq> VT_null \<Longrightarrow> total_keys (f n)"
  shows "total_keys (vtree_literal_fetch_keys f d)"
  unfolding total_keys_def
proof (intro allI)
  fix cc argv
  have lk: "\<exists>l. literal_keys d = map Some l"
  proof -
    have "\<forall>x \<in> set (literal_keys d). \<exists>k. x = Some k"
      using assms(1) by (auto simp: literal_keys_def keys_ok_def)
    then show ?thesis by (intro exI [of _ "map the (literal_keys d)"]) (auto intro: map_idI [symmetric])
  qed
  obtain r where r: "literal_at d argv = Some r"
    by (rule literal_at_some [of d]) (use assms(1) in \<open>auto simp: keys_ok_def\<close>)
  have nil: "\<exists>l. [] = map Some l" by simp
  show "\<exists>l cc'. vtree_literal_fetch_keys f d cc argv = Some (map Some l, cc')"
  proof (cases "\<exists>n. r = Some (vkvNode n) \<and> n \<noteq> VT_null")
    case True
    then obtain n where n: "r = Some (vkvNode n)" "n \<noteq> VT_null" by blast
    with r have "n \<in> kv_nodes d" by (auto intro: literal_at_node)
    from total_keysE [OF assms(2) [OF this n(2)], of VTCACHE_CAN "tl argv"] obtain l c
      where "f n VTCACHE_CAN (tl argv) = Some (map Some l, c)" .
    with r n lk show ?thesis
      by (auto simp: vtree_literal_fetch_keys_def vtree_fetch_keys_cachev_def live_cases)
  next
    case False
    with r lk nil show ?thesis
      by (auto simp: vtree_literal_fetch_keys_def vtree_fetch_keys_cachev_def live_cases
          split: option.splits kv_value.splits)
  qed
qed

lemma safe_getlen: "safe_chain c \<Longrightarrow> total (bpv_getlen c)"
proof (induction rule: safe_chain.induct)
  case (safe_shadow nx t)
  then show ?case
    by (simp add: sub_meth_safe) (intro total_intros sub_total; blast)
next
  case (safe_literal d)
  then show ?case by (simp, intro total_intros) (auto simp: keys_ok_def)
qed (auto simp: sub_meth_safe intro: total_intros)

lemma safe_get: "safe_chain c \<Longrightarrow> total (bpv_get c)"
proof (induction rule: safe_chain.induct)
  case (safe_shadow nx t)
  then show ?case
    by (simp add: sub_meth_safe) (intro total_intros sub_total; blast)
next
  case (safe_literal d)
  then show ?case by (simp, intro total_intros) (auto simp: keys_ok_def)
qed (auto simp: sub_meth_safe intro: total_intros)

lemma safe_haskey: "safe_chain c \<Longrightarrow> total (bpv_haskey c)"
proof (induction rule: safe_chain.induct)
  case (safe_shadow nx t)
  then show ?case
    by (simp add: sub_meth_safe) (intro total_intros sub_total; blast)
next
  case (safe_literal d)
  then show ?case by (simp, intro total_intros) (auto simp: keys_ok_def)
qed (auto simp: sub_meth_safe intro: total_intros)

lemma safe_getnode: "safe_chain c \<Longrightarrow> total (bpv_getnode c)"
proof (induction rule: safe_chain.induct)
  case (safe_shadow nx t)
  then show ?case
    by (simp add: sub_meth_safe) (intro total_intros sub_total; blast)
next
  case (safe_literal d)
  then show ?case by (simp, intro total_intros) (auto simp: keys_ok_def)
qed (auto simp: sub_meth_safe intro: total_intros)

lemma safe_fetch_nodes: "safe_chain c \<Longrightarrow> total (bpv_fetch_nodes c)"
proof (induction rule: safe_chain.induct)
  case (safe_shadow nx t)
  then show ?case
    by (simp add: sub_meth_safe) (intro total_intros sub_total; blast)
next
  case (safe_literal d)
  then show ?case by (simp, intro total_intros) (auto simp: keys_ok_def)
qed (auto simp: sub_meth_safe intro: total_intros)

lemma safe_fetch_values: "safe_chain c \<Longrightarrow> total (bpv_fetch_values c)"
proof (induction rule: safe_chain.induct)
  case (safe_shadow nx t)
  then show ?case
    by (simp add: sub_meth_safe) (intro total_intros sub_total; blast)
next
  case (safe_literal d)
  then show ?case
    by (simp, intro total_intros) (auto simp: keys_ok_def intro: safe_get)
qed (auto simp: sub_meth_safe intro: total_intros)

lemma sub_total_val:
  assumes "\<And>c. t = Some c \<Longrightarrow> c \<noteq> VT_null \<Longrightarrow> total (f c v)"
  shows "map_option (\<lambda>m. m v) (sub_meth f t) = None \<or>
    (\<exists>g. map_option (\<lambda>m. m v) (sub_meth f t) = Some (\<lambda>cc argv. Some (g cc argv)))"
proof -
  have "map_option (\<lambda>m. m v) (sub_meth f t) = sub_meth (\<lambda>c. f c v) t"
    by (auto simp: sub_meth_def split: option.splits)
  with sub_total [of t "\<lambda>c. f c v"] assms show ?thesis by simp
qed

lemma safe_fetch_byval: "safe_chain c \<Longrightarrow> total (bpv_fetch_byval c v)"
proof (induction rule: safe_chain.induct)
  case (safe_shadow nx t)
  then show ?case
    by (simp add: sub_meth_safe) (intro total_intros sub_total_val; blast)
next
  case (safe_literal d)
  then show ?case
    by (simp, intro total_intros) (auto simp: keys_ok_def intro: safe_get)
qed (auto simp: sub_meth_safe intro: total_intros)

lemma total_keys_leaf:
  "total_keys (bconf_node_fetch_keys n)" "total_keys (bconf_fetch_keys lo hi l)"
  "total_keys (vtree_value_fetch w)"
proof -
  have "\<exists>l. vtree_bconf_fetch_keys m argv = map Some l" for m argv
    by (intro exI [of _ "map bn_key (bconf_children (vas_null m argv))"])
      (simp add: vtree_bconf_fetch_keys_def bconf_key_def)
  then show "total_keys (bconf_node_fetch_keys n)" "total_keys (bconf_fetch_keys lo hi l)"
    by (auto simp: total_keys_def bconf_node_fetch_keys_def bconf_fetch_keys_def Let_def)
qed (simp add: total_keys_def vtree_value_fetch_def)

lemma total_keys_prefix: "total_keys m \<Longrightarrow> total_keys (prefix_vtree_fetch_keys p (Some m))"
  unfolding total_keys_def prefix_vtree_fetch_keys_def call_def
  by (auto split: list.splits prefix_arg.splits intro: exI [of _ "[p]"])

lemma safe_fetch_keys: "safe_chain c \<Longrightarrow> total_keys (bpv_fetch_keys c)"
proof (induction rule: safe_chain.induct)
  case (safe_shadow nx t)
  have "sub_meth bpv_fetch_keys t = None \<or> (\<exists>m. sub_meth bpv_fetch_keys t = Some m \<and> total_keys m)"
    using safe_shadow(3) by (auto simp: sub_meth_def split: option.splits)
  then show ?case using safe_shadow by (simp add: sub_meth_safe total_keys_shadow)
next
  case (safe_literal d)
  then show ?case by (simp, intro total_keys_literal) (auto simp: keys_ok_def)
qed (auto simp: sub_meth_safe total_keys_leaf total_keys_prefix)

section \<open>Listings of keys and values\<close>

text \<open>
  The elements of a list literal have no keys, and a shadow tree sorts the elements of its two trees
  by their keys. The chains that list only elements with keys, and the chains in which those are the
  ones that shadow trees list.
\<close>

inductive keyed_top :: "vtree_chain \<Rightarrow> bool" where
  "keyed_top (VT_bconf_node n)"
| "keyed_top (VT_bconf lo hi l)"
| "keyed_top (VT_value v)"
| "keyed_top nx \<Longrightarrow> (\<And>c. t = Some c \<Longrightarrow> c = VT_null \<or> keyed_top c) \<Longrightarrow> keyed_top (VT_shadow t (Some nx))"
| "keyed_top (VT_prefix p nx)"
| "\<forall>e \<in> set (kv_list d). kv_key e \<noteq> None \<Longrightarrow> keyed_top (VT_literal d)"

inductive_cases keyed_shadow: "keyed_top (VT_shadow t nx)"
inductive_cases keyed_literal: "keyed_top (VT_literal d)"

inductive kv_chain :: "vtree_chain \<Rightarrow> bool" where
  kv_bconf_node: "kv_chain (VT_bconf_node n)"
| kv_bconf: "kv_chain (VT_bconf lo hi l)"
| kv_value: "kv_chain (VT_value v)"
| kv_shadow: "kv_chain nx \<Longrightarrow> keyed_top nx \<Longrightarrow> (\<And>c. t = Some c \<Longrightarrow> c = VT_null \<or> kv_chain c \<and> keyed_top c) \<Longrightarrow>
    kv_chain (VT_shadow t (Some nx))"
| kv_prefix: "kv_chain nx \<Longrightarrow> kv_chain (VT_prefix p (Some nx))"
| kv_literal: "(\<And>n. n \<in> kv_nodes d \<Longrightarrow> n = VT_null \<or> kv_chain n) \<Longrightarrow>
    (kv_type d \<noteq> vktList \<Longrightarrow> \<forall>e \<in> set (kv_list d). kv_key e \<noteq> None) \<Longrightarrow> kv_chain (VT_literal d)"

lemma kv_chain_safe: "kv_chain c \<Longrightarrow> safe_chain c"
proof (induction rule: kv_chain.induct)
  case (kv_literal d)
  then show ?case by (intro safe_chain.intros) blast+
qed (auto intro: safe_chain.intros)

lemma sub_meth_kv: "kv_chain c \<Longrightarrow> sub_meth f (Some c) = Some (f c)"
  by (rule sub_meth_safe [OF kv_chain_safe])

lemma kv_getnode_literal:
  assumes "vtree_literal_getnode bpv_getnode d cc argv = Some (Some n, cc')" "kv_chain (VT_literal d)"
    "\<And>m cc argv n cc'. m \<in> kv_nodes d \<Longrightarrow> bpv_getnode m cc argv = Some (Some n, cc') \<Longrightarrow> kv_chain n"
  shows "kv_chain n"
proof (cases "argv = []")
  case True
  with assms(1,2) show ?thesis by (auto simp: vtree_literal_getnode_def)
next
  case False
  obtain v where v: "literal_at d argv = Some (Some v)"
    using assms(1) False by (auto simp: vtree_literal_getnode_def split: option.splits if_splits)
  show ?thesis
  proof (cases v)
    case (vkvNode m)
    with v have "m \<in> kv_nodes d" by (auto intro: literal_at_node)
    with assms(1,3) v vkvNode False show ?thesis
      by (auto simp: vtree_literal_getnode_def vtree_getnode_cachev_def live_cases split: option.splits if_splits)
  qed (use v assms(1) False in \<open>auto simp: vtree_literal_getnode_def intro: kv_chain.intros split: if_splits\<close>)
qed

lemma kv_getnode: "kv_chain c \<Longrightarrow> \<forall>cc argv n cc'. bpv_getnode c cc argv = Some (Some n, cc') \<longrightarrow> kv_chain n"
proof (induction rule: kv_chain.induct)
  case (kv_shadow nx t)
  have self: "kv_chain (VT_shadow t (Some nx))" using kv_shadow by (intro kv_chain.intros) auto
  have sub: "kv_chain n" if "sub_meth bpv_getnode t = Some m" "m cc argv = Some (Some n, cc')" for m cc argv n cc'
    using that kv_shadow(4) by (auto simp: sub_meth_def split: option.splits if_splits)
  have nx: "kv_chain n" if "bpv_getnode nx cc argv = Some (Some n, cc')" for cc argv n cc'
    using that kv_shadow(3) by blast
  show ?case
    using self sub nx sub_meth_kv [OF kv_shadow(1), of bpv_getnode]
    by (auto simp: shadow_vtree_getnode_def call_def Let_def split: option.splits if_splits)
next
  case (kv_prefix nx p)
  then show ?case
    using kv_chain.kv_prefix [OF kv_prefix(1), of p] sub_meth_kv [OF kv_prefix(1), of bpv_getnode]
    by (auto simp: prefix_vtree_getnode_def call_def split: list.splits prefix_arg.splits)
next
  case (kv_literal d)
  have self: "kv_chain (VT_literal d)" using kv_literal by (intro kv_chain.intros) auto
  have sub: "kv_chain n" if "m \<in> kv_nodes d" "bpv_getnode m cc argv = Some (Some n, cc')" for m cc argv n cc'
    using kv_literal(1) [OF that(1)] that(2) by (cases "m = VT_null") auto
  show ?case using kv_getnode_literal [OF _ self sub] by auto
qed (auto simp: bconf_node_getnode_def bconf_getnode_def vtree_value_getnode_def
    intro: kv_chain.intros split: option.splits if_splits)

text \<open>Sorting and merging elements that have keys.\<close>

abbreviation all_keyed :: "kv_elem list \<Rightarrow> bool" where
  "all_keyed l \<equiv> \<forall>e \<in> set l. kv_key e \<noteq> None"

lemma kv_sort_keyed: "all_keyed l \<Longrightarrow> \<exists>s. kv_sort l = Some s \<and> all_keyed s"
  by (auto simp: kv_sort_def qsort_strcmp_set)

lemma kv_merge_keyed:
  "all_keyed xs \<Longrightarrow> all_keyed ys \<Longrightarrow> \<exists>l. kv_merge t1 t2 t n xs ys = Some l \<and> all_keyed l"
proof (induction t1 t2 t n xs ys rule: kv_merge.induct)
  case (4 t1 t2 t n x xs y ys)
  obtain a b where ab: "kv_key x = Some a" "kv_key y = Some b" using "4.prems" by auto
  then have keep: "kv_rekey t n x = x" "kv_rekey t n y = y" by (auto simp: kv_rekey_def)
  define c where "c = (if t1 = vktList then -1 else if t2 = vktList then 1 else strcmp a b)"
  have c: "(if t1 = vktList then Some (-1) else if t2 = vktList then Some 1
      else (case kv_key x of None \<Rightarrow> None | Some a \<Rightarrow> case kv_key y of None \<Rightarrow> None | Some b \<Rightarrow> Some (strcmp a b))) = Some c"
    by (simp add: c_def ab)
  consider "c < 0" | "c = 0" | "0 < c" by linarith
  then show ?case
  proof cases
    case 1
    with "4.IH"(1) [OF c [symmetric] refl] "4.prems" c keep ab show ?thesis by (auto simp: Let_def)
  next
    case 2
    with "4.IH"(2) [OF c [symmetric] refl] "4.prems" c keep ab show ?thesis by (auto simp: Let_def)
  next
    case 3
    with "4.IH"(3) [OF c [symmetric] refl] "4.prems" c keep ab show ?thesis by (auto simp: Let_def)
  qed
qed (auto simp: kv_rekey_def)

text \<open>A chain whose listings can be fetched, and whose own listing has only elements with keys.\<close>

definition kv_lists :: "vtree_chain \<Rightarrow> bool" where
  "kv_lists c = (total (bpv_fetch_keys_and_values c) \<and>
     (keyed_top c \<longrightarrow> (\<forall>cc. \<exists>t l cc'. bpv_fetch_keys_and_values c cc [VTREE_LOOP] = Some (Keyvals t l, cc') \<and> all_keyed l)))"

lemma kv_bconf_keyed: "all_keyed (kv_list (vtree_bconf_fetch_keys_and_values n argv))"
  by (simp add: vtree_bconf_fetch_keys_and_values_def bconf_key_def)

lemma kv_lists_bconf: "kv_lists (VT_bconf_node n)" "kv_lists (VT_bconf lo hi l)"
proof -
  have kv: "\<exists>t k. vtree_bconf_fetch_keys_and_values n argv = Keyvals t k \<and> all_keyed k" for n argv
    using kv_bconf_keyed [of n argv] by (cases "vtree_bconf_fetch_keys_and_values n argv") auto
  show "kv_lists (VT_bconf_node n)" using kv [of n "[VTREE_LOOP]"]
    by (auto simp: kv_lists_def total_def bconf_node_fetch_keys_and_values_def)
  show "kv_lists (VT_bconf lo hi l)" using kv [of hi "[VTREE_LOOP]"] kv [of lo "[VTREE_LOOP]"]
    by (auto simp: kv_lists_def total_def bconf_fetch_keys_and_values_def Let_def)
qed

lemma kv_lists_shadow:
  assumes "kv_chain nx" "keyed_top nx" "kv_lists nx" "\<And>c. t = Some c \<Longrightarrow> c = VT_null \<or> kv_chain c \<and> keyed_top c \<and> kv_lists c"
  shows "kv_lists (VT_shadow t (Some nx))"
proof -
  let ?kv = bpv_fetch_keys_and_values
  have nx: "sub_meth ?kv (Some nx) = Some (?kv nx)" by (rule sub_meth_kv [OF assms(1)])
  have tot: "\<exists>l c. ?kv nx cc argv = Some (l, c)" for cc argv
    using assms(3) by (auto simp: kv_lists_def total_def)
  have loop: "\<exists>t l c. ?kv nx cc [VTREE_LOOP] = Some (Keyvals t l, c) \<and> all_keyed l" for cc
    using assms(2,3) by (auto simp: kv_lists_def)
  show ?thesis
  proof (cases "sub_meth ?kv t")
    case None
    have "\<exists>l c. ?kv (VT_shadow t (Some nx)) cc argv = Some (l, c)" for cc argv
      using tot [of cc argv] None nx by (auto simp: shadow_vtree_fetch_keys_and_values_def call_def)
    moreover have "\<exists>u l c. ?kv (VT_shadow t (Some nx)) cc [VTREE_LOOP] = Some (Keyvals u l, c) \<and> all_keyed l" for cc
      using loop [of cc] None nx by (auto simp: shadow_vtree_fetch_keys_and_values_def call_def)
    ultimately show ?thesis by (simp add: kv_lists_def total_def)
  next
    case (Some m)
    then obtain c where c: "m = ?kv c" "kv_lists c" "keyed_top c"
      using assms(4) by (auto simp: sub_meth_def split: option.splits if_splits)
    have mtot: "\<exists>l c. m cc argv = Some (l, c)" for cc argv using c(1,2) by (auto simp: kv_lists_def total_def)
    have top: "\<exists>u l k. ?kv (VT_shadow t (Some nx)) cc [VTREE_LOOP] = Some (Keyvals u l, k) \<and> all_keyed l" for cc
    proof -
      obtain t1 l1 c1 where 1: "m VTCACHE_CANT [VTREE_LOOP] = Some (Keyvals t1 l1, c1)" "all_keyed l1"
        using c unfolding kv_lists_def by blast
      obtain t2 l2 c2 where 2: "?kv nx c1 [VTREE_LOOP] = Some (Keyvals t2 l2, c2)" "all_keyed l2" using loop by blast
      obtain s1 s2 where s: "kv_sort l1 = Some s1" "all_keyed s1" "kv_sort l2 = Some s2" "all_keyed s2"
        using kv_sort_keyed [OF 1(2)] kv_sort_keyed [OF 2(2)] by blast
      obtain l where "kv_merge t1 t2 (if t1 = t2 then t1 else vktUnknown) 0 s1 s2 = Some l" "all_keyed l"
        using kv_merge_keyed [OF s(2,4)] by blast
      with 1 2 s Some nx show ?thesis by (auto simp: shadow_vtree_fetch_keys_and_values_def call_def Let_def)
    qed
    have "?kv (VT_shadow t (Some nx)) cc argv \<noteq> None" for cc argv
    proof (cases "argv = [VTREE_LOOP]")
      case True
      with top [of cc] show ?thesis by auto
    next
      case False
      obtain l c1 where l: "m cc argv = Some (l, c1)" using mtot by blast
      obtain l2 c2 where "?kv nx c1 argv = Some (l2, c2)" using tot by blast
      with l False Some nx show ?thesis by (auto simp: shadow_vtree_fetch_keys_and_values_def call_def Let_def)
    qed
    with top show ?thesis by (simp add: kv_lists_def total_def)
  qed
qed

lemma kv_lists_prefix:
  assumes "kv_chain nx" "kv_lists nx"
  shows "kv_lists (VT_prefix p (Some nx))"
proof -
  have tot: "bpv_fetch_keys_and_values nx cc argv \<noteq> None" for cc argv
    using assms(2) by (simp add: kv_lists_def total_def)
  then have "total (bpv_fetch_keys_and_values (VT_prefix p (Some nx)))"
    by (auto simp: total_def prefix_vtree_fetch_keys_and_values_def call_def sub_meth_kv [OF assms(1)]
        split: list.splits prefix_arg.splits)
  then show ?thesis by (auto simp: kv_lists_def prefix_vtree_fetch_keys_and_values_def)
qed

lemma elem_below_some:
  assumes "kv_chain (VT_literal d)" "e \<in> set (kv_list d)"
  obtains e' where "elem_below bpv_get bpv_getnode rest e = Some e'" "kv_key e' = kv_key e"
proof (cases "kv_val e")
  case (vkvNode n)
  with assms(2) have "n \<in> kv_nodes d" by (auto simp: kv_nodes_def)
  then have n: "n = VT_null \<or> kv_chain n" using assms(1) by (auto elim: kv_chain.cases)
  show thesis
  proof (cases "n = VT_null")
    case True
    with vkvNode that show ?thesis by (simp add: elem_below_def vtree_getnode_cachev_def live_cases)
  next
    case False
    with n have kn: "kv_chain n" by simp
    then have "bpv_getnode n VTCACHE_CAN rest \<noteq> None"
      using safe_getnode [OF kv_chain_safe [OF kn]] by (simp add: total_def)
    then obtain res c where res: "bpv_getnode n VTCACHE_CAN rest = Some (res, c)" by auto
    show ?thesis
    proof (cases res)
      case None
      with vkvNode False res that show ?thesis by (simp add: elem_below_def vtree_getnode_cachev_def live_cases)
    next
      case (Some node)
      then have "safe_chain node" using kv_getnode [OF kn] res kv_chain_safe by blast
      then have "bpv_get node VTCACHE_CAN [] \<noteq> None" "node \<noteq> VT_null"
        using safe_get by (auto simp: total_def)
      then obtain v c' where "vtree_get_cachev bpv_get (Some node) None None [] = Some (v, c', None)"
        by (auto simp: vtree_get_cachev_def live_cases)
      with Some vkvNode False res that show ?thesis
        by (cases v) (simp_all add: elem_below_def vtree_getnode_cachev_def live_cases)
    qed
  qed
qed (use that in \<open>simp_all add: elem_below_def\<close>)

lemma elems_below:
  "kv_chain (VT_literal d) \<Longrightarrow> set es \<subseteq> set (kv_list d) \<Longrightarrow>
   \<exists>l. those (map (elem_below bpv_get bpv_getnode rest) es) = Some l \<and> map kv_key l = map kv_key es"
proof (induction es)
  case (Cons e es)
  then obtain l where "those (map (elem_below bpv_get bpv_getnode rest) es) = Some l" "map kv_key l = map kv_key es" by auto
  moreover obtain e' where "elem_below bpv_get bpv_getnode rest e = Some e'" "kv_key e' = kv_key e"
    using elem_below_some [of d e] Cons.prems by auto
  ultimately show ?case by simp
qed simp

lemma kv_lists_literal:
  assumes "kv_chain (VT_literal d)" "\<And>n. size n < size (VT_literal d) \<Longrightarrow> kv_chain n \<Longrightarrow> kv_lists n"
  shows "kv_lists (VT_literal d)"
proof -
  let ?kv = bpv_fetch_keys_and_values
  note all = elems_below [OF assms(1), of "kv_list d"]
  have "?kv (VT_literal d) cc argv \<noteq> None" for cc argv
  proof (cases argv)
    case (Cons a as)
    show ?thesis
    proof (cases a)
      case (Key k)
      have "total (vtree_literal_getnode bpv_getnode d)"
        using safe_getnode [OF kv_chain_safe [OF assms(1)]] by simp
      then obtain res c where res: "vtree_literal_getnode bpv_getnode d VTCACHE_CANT [k] = Some (res, c)"
        unfolding total_def by fastforce
      show ?thesis
      proof (cases res)
        case (Some n)
        have "kv_chain n" using kv_getnode [OF assms(1)] res Some by auto
        then have "kv_lists n" using literal_getnode_size [OF res [unfolded Some]] assms(2) by blast
        with Cons Key res Some show ?thesis by (simp add: vtree_literal_fetch_keys_and_values_def kv_lists_def total_def)
      qed (use Cons Key res in \<open>simp add: vtree_literal_fetch_keys_and_values_def\<close>)
    next
      case VTREE_LOOP
      with Cons all [of "loop_keys as"] show ?thesis by (auto simp: vtree_literal_fetch_keys_and_values_def)
    qed
  qed (simp add: vtree_literal_fetch_keys_and_values_def)
  moreover have "\<exists>t l c. ?kv (VT_literal d) cc [VTREE_LOOP] = Some (Keyvals t l, c) \<and> all_keyed l"
    if "keyed_top (VT_literal d)" for cc
  proof -
    have k: "all_keyed (kv_list d)" using that by (rule keyed_literal) auto
    obtain l where l: "those (map (elem_below bpv_get bpv_getnode (loop_keys [])) (kv_list d)) = Some l"
      "map kv_key l = map kv_key (kv_list d)" using all [of "loop_keys []"] by auto
    have "kv_key ` set l = kv_key ` set (kv_list d)" using arg_cong [OF l(2), of set] by simp
    with k have "all_keyed l" by (metis image_iff)
    with l show ?thesis by (simp add: vtree_literal_fetch_keys_and_values_def)
  qed
  ultimately show ?thesis by (simp add: kv_lists_def total_def)
qed

lemma kv_chain_lists: "kv_chain c \<Longrightarrow> kv_lists c"
proof (induction c rule: measure_induct_rule [of size])
  case (less c)
  from less.prems show ?case
  proof (cases rule: kv_chain.cases)
    case (kv_shadow nx t)
    have "kv_lists nx" using less.IH [of nx] kv_shadow by simp
    moreover have "d = VT_null \<or> kv_chain d \<and> keyed_top d \<and> kv_lists d" if "t = Some d" for d
      using less.IH [of d] kv_shadow that by auto
    ultimately show ?thesis unfolding kv_shadow(1) using kv_shadow(2,3) by (intro kv_lists_shadow) auto
  next
    case (kv_prefix nx p)
    then have "kv_lists nx" using less.IH [of nx] by simp
    then show ?thesis unfolding kv_prefix(1) using kv_prefix(2) by (intro kv_lists_prefix) auto
  next
    case (kv_literal d)
    show ?thesis unfolding kv_literal(1)
      using less kv_literal(1) by (intro kv_lists_literal) auto
  next
    case (kv_value v)
    then show ?thesis by (simp add: kv_lists_def total_def vtree_value_fetch_keys_and_values_def)
  qed (simp_all add: kv_lists_bconf)
qed

text \<open>A shadow tree over a list of two elements.\<close>

definition list_chain :: vtree_chain where
  "list_chain = VT_shadow (Some (VT_bconf_node None))
     (Some (VT_literal (vtree_keyvals_create_list [Kv_elem None (vkvValue ''1''), Kv_elem None (vkvValue ''2'')])))"

lemma list_chain_safe: "safe_chain list_chain"
  unfolding list_chain_def
  by (intro safe_chain.intros) (auto simp: kv_nodes_def vtree_keyvals_create_list_def intro: safe_chain.intros)

text \<open>
  C10: On a chain in which every link to the chain below is set (and every key of a dictionary), the
  methods \<open>getlen\<close>, \<open>get\<close>, \<open>haskey\<close>, \<open>getnode\<close> and the fetches of keys, values, nodes and keys by value never
  read or call through a \<open>NULL\<close> pointer, for any argument vector and however the trees are nested; the
  keys that are listed are never \<open>NULL\<close>. \<open>fetch_keys_and_values\<close> does not either when, besides, no list
  literal is one of the two trees of a shadow tree; otherwise it can: a shadow tree sorts the elements
  of a list by their keys, which are \<open>NULL\<close>.
\<close>

theorem vtree_methods_safe:
  assumes "safe_chain c"
  shows "bpv_getlen c cc argv \<noteq> None \<and> bpv_get c cc argv \<noteq> None \<and> bpv_haskey c cc argv \<noteq> None \<and>
    bpv_getnode c cc argv \<noteq> None \<and> bpv_fetch_nodes c cc argv \<noteq> None \<and>
    bpv_fetch_values c cc largv \<noteq> None \<and> bpv_fetch_byval c v cc largv \<noteq> None \<and>
    (\<exists>l cc'. bpv_fetch_keys c cc argv = Some (map Some l, cc')) \<and>
    (kv_chain c \<longrightarrow> bpv_fetch_keys_and_values c cc largv \<noteq> None) \<and>
    safe_chain list_chain \<and> bpv_fetch_keys_and_values list_chain VTCACHE_CAN [VTREE_LOOP] = None"
proof -
  have "bpv_fetch_keys_and_values list_chain VTCACHE_CAN [VTREE_LOOP] = None" by code_simp
  then show ?thesis
    using safe_getlen [OF assms] safe_get [OF assms] safe_haskey [OF assms] safe_getnode [OF assms]
      safe_fetch_nodes [OF assms] safe_fetch_values [OF assms] safe_fetch_byval [OF assms]
      safe_fetch_keys [OF assms] kv_chain_lists [of c] list_chain_safe
    by (auto simp: total_def total_keys_def kv_lists_def)
qed

definition sample_chain :: vtree_chain where
  "sample_chain = VT_shadow (Some (VT_prefix ''conf'' (Some (VT_bconf_node sample_root))))
     (Some (VT_literal (Keyvals vktDict [Kv_elem (Some ''x'') (vkvValue ''9''),
        Kv_elem (Some ''conf'') (vkvNode (VT_bconf_node sample_root))])))"

lemma sample_chain_kv: "kv_chain sample_chain"
  unfolding sample_chain_def
  by (intro kv_chain.intros keyed_top.intros) (auto simp: kv_nodes_def intro: kv_chain.intros keyed_top.intros)

theorem vtree_methods_safe_witness:
  "bpv_getlen sample_chain VTCACHE_CAN [] \<noteq> None \<and> bpv_get sample_chain VTCACHE_CAN [] \<noteq> None \<and>
    bpv_haskey sample_chain VTCACHE_CAN [] \<noteq> None \<and>
    bpv_getnode sample_chain VTCACHE_CAN [] \<noteq> None \<and> bpv_fetch_nodes sample_chain VTCACHE_CAN [] \<noteq> None \<and>
    bpv_fetch_values sample_chain VTCACHE_CAN [VTREE_LOOP] \<noteq> None \<and>
    bpv_fetch_byval sample_chain ''9'' VTCACHE_CAN [VTREE_LOOP] \<noteq> None \<and>
    (\<exists>l cc'. bpv_fetch_keys sample_chain VTCACHE_CAN [] = Some (map Some l, cc')) \<and>
    bpv_fetch_keys_and_values sample_chain VTCACHE_CAN [VTREE_LOOP] \<noteq> None"
  using vtree_methods_safe [OF kv_chain_safe [OF sample_chain_kv], of VTCACHE_CAN "[]" "[VTREE_LOOP]" "''9''"] sample_chain_kv
  by blast

section \<open>The overlay\<close>

text \<open>The value of a path, whatever the cacheability.\<close>

definition vt_value :: "vtree_chain \<Rightarrow> cstring list \<Rightarrow> cstring option option" where
  "vt_value c argv = map_option fst (bpv_get c VTCACHE_CAN argv)"

lemma shadow_get_value:
  assumes "\<And>cc. map_option fst (m1 cc argv) = r1" "\<And>cc. map_option fst (m2 cc argv) = r2" "argv \<noteq> []"
  shows "map_option fst (shadow_vtree_get (Some m1) (Some m2) cc argv) =
    (case r1 of None \<Rightarrow> None | Some (Some v) \<Rightarrow> Some (Some v) | Some None \<Rightarrow> r2)"
proof (cases "m1 cc argv")
  case None
  with assms(1) [of cc] assms(3) show ?thesis by (auto simp: shadow_vtree_get_def)
next
  case (Some p)
  obtain v c1 where p: "p = (v, c1)" by (cases p)
  with Some assms(1) [of cc] have r1: "r1 = Some v" by auto
  show ?thesis
  proof (cases v)
    case v: None
    have "map_option fst (m2 c1 argv) = r2" by (rule assms(2))
    then show ?thesis using Some p r1 v assms(3)
      by (cases "m2 c1 argv") (auto simp: shadow_vtree_get_def Let_def split: prod.splits)
  next
    case (Some w)
    with \<open>m1 cc argv = Some p\<close> p r1 assms(3) show ?thesis by (simp add: shadow_vtree_get_def)
  qed
qed

lemma shadow_get_bottom:
  assumes "\<And>cc. map_option fst (m2 cc argv) = r2"
  shows "map_option fst (shadow_vtree_get None (Some m2) cc argv) = r2"
  using assms [of cc] by (cases "m2 cc argv") (auto simp: shadow_vtree_get_def split: prod.splits)

lemma get_cc: "map_option fst (bpv_get c cc argv) = vt_value c argv"
proof (induction c arbitrary: cc argv rule: bpv_get.induct)
  case (4 t nx)
  have sub: "map_option fst (m cc argv) = map_option fst (m VTCACHE_CAN argv)"
    if "sub_meth bpv_get t = Some m" for m cc argv
    using that 4(1) by (auto simp: sub_meth_def vt_value_def split: option.splits if_splits)
  have bot: "map_option fst (m cc argv) = map_option fst (m VTCACHE_CAN argv)"
    if "sub_meth bpv_get nx = Some m" for m cc argv
    using that 4(2) by (auto simp: sub_meth_def vt_value_def split: option.splits if_splits)
  show ?case
  proof (cases "sub_meth bpv_get nx")
    case None
    show ?thesis
    proof (cases "sub_meth bpv_get t")
      case (Some m)
      have "map_option fst (m cc argv) = map_option fst (m VTCACHE_CAN argv)" by (rule sub [OF Some])
      with None Some show ?thesis
        by (auto simp: vt_value_def shadow_vtree_get_def Let_def split: option.splits prod.splits)
    qed (use None in \<open>simp add: vt_value_def shadow_vtree_get_def\<close>)
  next
    case nx: (Some m2)
    show ?thesis
    proof (cases "sub_meth bpv_get t")
      case None
      with nx show ?thesis by (simp add: vt_value_def shadow_get_bottom [OF bot [OF nx]])
    next
      case (Some m1)
      show ?thesis
      proof (cases "argv = []")
        case True
        with Some show ?thesis by (simp add: vt_value_def shadow_vtree_get_def)
      next
        case False
        with Some nx show ?thesis
          by (simp add: vt_value_def shadow_get_value [OF sub [OF Some] bot [OF nx] False])
      qed
    qed
  qed
next
  case (5 p nx)
  have "map_option fst (m c as) = map_option fst (m c' as)" if "sub_meth bpv_get nx = Some m" for m c c' as
    using that 5 by (auto simp: sub_meth_def split: option.splits if_splits)
  then show ?case
    unfolding vt_value_def bpv_get.simps prefix_vtree_get_def
    by (auto split: option.splits list.splits prefix_arg.splits)
qed (auto simp: vt_value_def bconf_node_get_def bconf_vt_get_def vtree_value_get_def vtree_literal_get_def
    split: option.splits)

text \<open>
  C11: A shadow tree is the overlay of the tree in \<open>data\<close> over the tree below: for every path that is
  not empty, \<open>get\<close> returns the value of the upper tree where that has one, and else the value of
  the lower tree.
\<close>

theorem shadow_get_overlay:
  assumes "safe_chain t" "safe_chain b" "argv \<noteq> []"
  shows "vt_value (shadow_vtree_init (Some t) (Some b)) argv =
    Some (case the (vt_value t argv) of Some v \<Rightarrow> Some v | None \<Rightarrow> the (vt_value b argv))"
proof -
  have vt: "\<exists>v. vt_value t argv = Some v" and vb: "\<exists>v. vt_value b argv = Some v"
    using safe_get [OF assms(1)] safe_get [OF assms(2)] by (auto simp: vt_value_def total_def)
  have "vt_value (shadow_vtree_init (Some t) (Some b)) argv =
      map_option fst (shadow_vtree_get (Some (bpv_get t)) (Some (bpv_get b)) VTCACHE_CAN argv)"
    using assms by (simp add: vt_value_def shadow_vtree_init_def sub_meth_safe)
  also have "\<dots> = (case vt_value t argv of None \<Rightarrow> None | Some (Some v) \<Rightarrow> Some (Some v) | Some None \<Rightarrow> vt_value b argv)"
    by (rule shadow_get_value [OF get_cc get_cc assms(3)])
  finally show ?thesis using vt vb by (auto split: option.splits)
qed

theorem shadow_get_overlay_witness:
  "vt_value (shadow_vtree_init (Some (VT_bconf_node sample_root)) (Some (VT_prefix ''z'' (Some (VT_value (Some ''5'')))))) [''z''] =
    Some (case the (vt_value (VT_bconf_node sample_root) [''z'']) of Some v \<Rightarrow> Some v
          | None \<Rightarrow> the (vt_value (VT_prefix ''z'' (Some (VT_value (Some ''5'')))) [''z'']))"
  by (rule shadow_get_overlay) (auto intro: safe_chain.intros)

section \<open>Node cursors\<close>

text \<open>
  The interface a caller relies on that keeps a node and reads below it: reading from the node of a
  path is reading from the root at the whole path. The lemma is about a caller that moves its
  cursor any number of times.
\<close>

fun walk :: "('c \<Rightarrow> 'k list \<Rightarrow> 'c option) \<Rightarrow> 'c \<Rightarrow> 'k list list \<Rightarrow> 'c option" where
  "walk getnode c [] = Some c"
| "walk getnode c (v # vs) = (case getnode c v of None \<Rightarrow> None | Some n \<Rightarrow> walk getnode n vs)"

locale vtree_cursor =
  fixes get :: "'c \<Rightarrow> 'k list \<Rightarrow> 'v" and getlen :: "'c \<Rightarrow> 'k list \<Rightarrow> 'l"
    and getnode :: "'c \<Rightarrow> 'k list \<Rightarrow> 'c option" and ok :: "'c \<Rightarrow> bool"
  assumes node_ok: "ok c \<Longrightarrow> getnode c ks = Some n \<Longrightarrow> ok n"
    and node_get: "ok c \<Longrightarrow> getnode c ks = Some n \<Longrightarrow> get n rest = get c (ks @ rest)"
    and node_getlen: "ok c \<Longrightarrow> getnode c ks = Some n \<Longrightarrow> getlen n rest = getlen c (ks @ rest)"
begin

lemma walk_reads:
  "ok c \<Longrightarrow> walk getnode c vs = Some n \<Longrightarrow>
     ok n \<and> get n rest = get c (concat vs @ rest) \<and> getlen n rest = getlen c (concat vs @ rest)"
proof (induction vs arbitrary: c)
  case (Cons v vs)
  then obtain m where m: "getnode c v = Some m" "walk getnode m vs = Some n"
    by (auto split: option.splits)
  from Cons.IH [OF node_ok [OF Cons.prems(1) m(1)] m(2)] node_get [OF Cons.prems(1) m(1)]
    node_getlen [OF Cons.prems(1) m(1)]
  show ?case by simp
qed simp

end

text \<open>The chains without an overlay: there the contract holds.\<close>

inductive plain_chain :: "vtree_chain \<Rightarrow> bool" where
  plain_bconf_node: "plain_chain (VT_bconf_node n)"
| plain_value: "plain_chain (VT_value v)"
| plain_prefix: "plain_chain nx \<Longrightarrow> plain_chain (VT_prefix p (Some nx))"
| plain_literal: "(\<And>n. n \<in> kv_nodes d \<Longrightarrow> n = VT_null \<or> plain_chain n) \<Longrightarrow> plain_chain (VT_literal d)"

inductive_cases plain_null [elim!]: "plain_chain VT_null"

definition vt_len :: "vtree_chain \<Rightarrow> cstring list \<Rightarrow> nat option" where
  "vt_len c argv = map_option fst (bpv_getlen c VTCACHE_CAN argv)"

definition vt_node :: "vtree_chain \<Rightarrow> cstring list \<Rightarrow> vtree_chain option" where
  "vt_node c argv = (case bpv_getnode c VTCACHE_CAN argv of Some (Some n, _) \<Rightarrow> Some n | _ \<Rightarrow> None)"

lemma sub_meth_plain: "plain_chain c \<Longrightarrow> sub_meth f (Some c) = Some (f c)"
  by (auto simp: sub_meth_def)

lemma vas_null_append: "vas_null n (xs @ ys) = vas_null (vas_null n xs) ys"
  by (induction xs arbitrary: n) (auto simp: vas_null_def)

lemma vas_null_None [simp]: "vas_null None xs = None"
  by (induction xs) (auto simp: vas_null_def bconf_get_def)

lemma literal_at_head: "literal_at d (k # as) = literal_at d [k]"
  by (simp add: literal_at_def get_index_def)

definition cursor_ok :: "vtree_chain \<Rightarrow> cstring list \<Rightarrow> vtree_chain \<Rightarrow> bool" where
  "cursor_ok c argv n = (plain_chain n \<and> (\<forall>rest. vt_value n rest = vt_value c (argv @ rest)) \<and>
     (\<forall>rest. vt_len n rest = vt_len c (argv @ rest)))"

lemma cursor_literal:
  assumes d: "\<And>n. n \<in> kv_nodes d \<Longrightarrow> n = VT_null \<or> plain_chain n \<and>
      (\<forall>cc argv m cc'. bpv_getnode n cc argv = Some (Some m, cc') \<longrightarrow> cursor_ok n argv m)"
    and res: "bpv_getnode (VT_literal d) cc argv = Some (Some m, cc')"
  shows "cursor_ok (VT_literal d) argv m"
proof (cases argv)
  case Nil
  have "plain_chain (VT_literal d)" using d by (intro plain_literal) blast
  with Nil res show ?thesis by (auto simp: cursor_ok_def vtree_literal_getnode_def)
next
  case (Cons k as)
  obtain v where v: "literal_at d [k] = Some (Some v)"
    using res Cons by (auto simp: vtree_literal_getnode_def literal_at_head [of d k as] split: option.splits)
  have lit: "literal_at d (k # x) = Some (Some v)" for x using v literal_at_head [of d k x] by simp
  show ?thesis
  proof (cases v)
    case vkvNone
    with res Cons lit show ?thesis by (simp add: vtree_literal_getnode_def)
  next
    case (vkvValue w)
    with res Cons lit have "as = []" "m = VT_value (Some w)"
      by (auto simp: vtree_literal_getnode_def split: if_splits)
    with Cons lit vkvValue show ?thesis
      by (auto simp: cursor_ok_def vt_value_def vt_len_def vtree_literal_get_def vtree_value_get_def
          vtree_literal_getlen_def vtree_value_getlen_def intro: plain_value)
  next
    case (vkvNode n)
    have nn: "n \<in> kv_nodes d" using v vkvNode by (auto intro: literal_at_node)
    from res Cons lit vkvNode obtain c1 where n: "n \<noteq> VT_null" "bpv_getnode n VTCACHE_CAN as = Some (Some m, c1)"
      by (auto simp: vtree_literal_getnode_def vtree_getnode_cachev_def live_cases split: option.splits if_splits)
    with d [OF nn] have "cursor_ok n as m" by blast
    moreover have "vt_value (VT_literal d) (k # x) = vt_value n x" for x
      using lit vkvNode n(1)
      by (auto simp: vt_value_def vtree_literal_get_def vtree_get_cachev_def live_cases split: option.splits)
    moreover have "vt_len (VT_literal d) (k # x) = vt_len n x" for x
      using lit vkvNode n(1)
      by (auto simp: vt_len_def vtree_literal_getlen_def vtree_getlen_cachev_def live_cases split: option.splits)
    ultimately show ?thesis using Cons by (simp add: cursor_ok_def)
  qed
qed

lemma getnode_cursor:
  "plain_chain c \<Longrightarrow> \<forall>cc argv n cc'. bpv_getnode c cc argv = Some (Some n, cc') \<longrightarrow> cursor_ok c argv n"
proof (induction rule: plain_chain.induct)
  case (plain_bconf_node m)
  show ?case
    by (auto simp: cursor_ok_def vt_value_def vt_len_def bconf_node_getnode_def bconf_node_get_def
        bconf_node_getlen_def vas_null_append intro: plain_chain.intros split: option.splits)
next
  case (plain_value v)
  show ?case
    by (auto simp: cursor_ok_def vtree_value_getnode_def intro: plain_chain.intros split: if_splits)
next
  case (plain_prefix nx p)
  show ?case
  proof (intro allI impI)
    fix cc argv n cc'
    assume res: "bpv_getnode (VT_prefix p (Some nx)) cc argv = Some (Some n, cc')"
    show "cursor_ok (VT_prefix p (Some nx)) argv n"
    proof (cases argv)
      case Nil
      with res plain_prefix(1) show ?thesis
        by (auto simp: cursor_ok_def prefix_vtree_getnode_def intro: plain_chain.intros)
    next
      case (Cons a as)
      with res plain_prefix obtain bs where bs: "bpv_getnode nx cc bs = Some (Some n, cc')"
        "\<And>x. vt_value (VT_prefix p (Some nx)) (a # as @ x) = vt_value nx (bs @ x)"
        "\<And>x. vt_len (VT_prefix p (Some nx)) (a # as @ x) = vt_len nx (bs @ x)"
        by (cases "prefix_arg_of p a")
          (auto simp: prefix_vtree_getnode_def call_def sub_meth_plain vt_value_def vt_len_def
            prefix_vtree_get_def prefix_vtree_getlen_def)
      from plain_prefix(2) bs(1) have "cursor_ok nx bs n" by blast
      with bs(2,3) Cons show ?thesis by (simp add: cursor_ok_def)
    qed
  qed
next
  case (plain_literal d)
  then show ?case using cursor_literal [of d] by blast
qed

interpretation plain: vtree_cursor vt_value vt_len vt_node plain_chain
proof unfold_locales
  fix c ks n rest
  assume c: "plain_chain c" and "vt_node c ks = Some n"
  then obtain cc' where "bpv_getnode c VTCACHE_CAN ks = Some (Some n, cc')"
    by (auto simp: vt_node_def split: option.splits)
  with getnode_cursor [OF c] have "cursor_ok c ks n" by blast
  then show "plain_chain n" "vt_value n rest = vt_value c (ks @ rest)" "vt_len n rest = vt_len c (ks @ rest)"
    by (simp_all add: cursor_ok_def)
qed

text \<open>
  C12: On trees of configuration nodes, prefixes, literals and values (nested in any way, without
  an overlay), moving a cursor with \<open>getnode\<close> along any sequence of paths and then reading a value
  or a length gives what reading at the concatenated path from the root gives.
\<close>

theorem vtree_walk_reads:
  assumes "plain_chain c" "walk vt_node c vs = Some n"
  shows "vt_value n rest = vt_value c (concat vs @ rest) \<and> vt_len n rest = vt_len c (concat vs @ rest)"
  using plain.walk_reads [OF assms] by simp

theorem vtree_walk_reads_witness:
  "\<exists>n. walk vt_node (VT_prefix ''p'' (Some (VT_bconf_node sample_root))) [[''p'', ''a''], []] = Some n \<and>
    vt_value n [''b''] = vt_value (VT_prefix ''p'' (Some (VT_bconf_node sample_root))) (concat [[''p'', ''a''], []] @ [''b'']) \<and>
    vt_len n [''b''] = vt_len (VT_prefix ''p'' (Some (VT_bconf_node sample_root))) (concat [[''p'', ''a''], []] @ [''b''])"
proof -
  let ?c = "VT_prefix ''p'' (Some (VT_bconf_node sample_root))"
  have "walk vt_node ?c [[''p'', ''a''], []] \<noteq> None" by code_simp
  then obtain n where n: "walk vt_node ?c [[''p'', ''a''], []] = Some n" by blast
  have "plain_chain ?c" by (intro plain_chain.intros)
  from vtree_walk_reads [OF this n, of "[''b'']"] n show ?thesis by blast
qed

section \<open>Caches of the entry points\<close>








section \<open>The argument vector of the variadic calls\<close>

lemma vac_loop_ok:
  assumes "argc \<le> length va" "argc < 8 * 2 ^ j"
  shows "vac_loop va argc (8 * 2 ^ j) =
    (if \<exists>i \<ge> j. length va + 1 = 8 * 2 ^ i then None else Some (length va))"
  using assms
proof (induction "length va - argc" arbitrary: argc j)
  case 0
  then have eq: "argc = length va" by simp
  show ?case
  proof (cases "argc + 1 < 8 * 2 ^ j")
    case True
    have "length va + 1 \<noteq> 8 * 2 ^ i" if "j \<le> i" for i
    proof -
      have "(2::nat) ^ j \<le> 2 ^ i" using that by (intro power_increasing) auto
      with True eq show ?thesis by linarith
    qed
    with True eq show ?thesis by (subst vac_loop.simps) auto
  next
    case False
    with "0.prems" eq have m: "length va + 1 = 8 * 2 ^ j" by linarith
    have "vac_loop va (length va + 1) (2 * (8 * 2 ^ j)) = None" by (subst vac_loop.simps) simp
    with m eq False show ?thesis by (subst vac_loop.simps) auto
  qed
next
  case (Suc x)
  then have lt: "argc < length va" by simp
  show ?case
  proof (cases "argc + 1 < 8 * 2 ^ j")
    case True
    with lt have "vac_loop va argc (8 * 2 ^ j) = vac_loop va (argc + 1) (8 * 2 ^ j)"
      by (subst vac_loop.simps) auto
    with Suc.hyps(1) [of "argc + 1" j] Suc.hyps(2) lt True show ?thesis by simp
  next
    case False
    with Suc.prems have m: "argc + 1 = 8 * 2 ^ j" by linarith
    have "(\<exists>i \<ge> j. length va + 1 = 8 * 2 ^ i) \<longleftrightarrow> (\<exists>i \<ge> Suc j. length va + 1 = 8 * 2 ^ i)"
      using m lt by (metis Suc_leD Suc_leI add_right_cancel le_neq_implies_less nat_neq_iff)
    moreover have "vac_loop va argc (8 * 2 ^ j) = vac_loop va (argc + 1) (8 * 2 ^ Suc j)"
      using lt False by (subst vac_loop.simps) auto
    moreover have "argc + 1 < 8 * 2 ^ Suc j" using m by simp
    ultimately show ?thesis using Suc.hyps(1) [of "argc + 1" "Suc j"] Suc.hyps(2) lt by simp
  qed
qed

text \<open>
  C14: \<open>VTREE_ARGS_COPY\<close> hands exactly the arguments of the call to the method, except when their
  number plus one is 8, 16, 32 and so on: then it reads on behind the closing \<open>NULL\<close>.
\<close>

theorem vtree_args_exact:
  "vtree_args va = (if \<exists>j. length va + 1 = 8 * 2 ^ j then None else Some va)"
  using vac_loop_ok [of 0 va 0] by (auto simp: vtree_args_def)

end
