(* ===== verification/VtreeShadow.thy ===== *)
theory VtreeShadow
  imports VtreeDispatch
begin

text \<open>
  The listings of a shadow tree (\<open>vtree/lib/vtree.c\<close>): the merged listing of keys and values is the
  override of the lower dictionary by the upper one; the merged listing of keys alone stops where
  one of the lists ends.
\<close>

section \<open>Merged listings of the overlay\<close>

text \<open>The elements of a dictionary as a map, and the listings the merge is made for.\<close>

abbreviation kv_name :: "kv_elem \<Rightarrow> cstring" where
  "kv_name e \<equiv> the (kv_key e)"

definition kv_map :: "kv_elem list \<Rightarrow> cstring \<Rightarrow> kv_value option" where
  "kv_map l = map_of (map (\<lambda>e. (kv_name e, kv_val e)) l)"

definition dict_ok :: "kv_elem list \<Rightarrow> bool" where
  "dict_ok l = ((\<forall>e \<in> set l. \<exists>k. kv_key e = Some k \<and> nul_free k) \<and> distinct (map kv_name l))"

abbreviation kv_sorted :: "kv_elem list \<Rightarrow> bool" where
  "kv_sorted l \<equiv> sorted_wrt (\<lambda>a b. strcmp a b < 0) (map kv_name l)"

lemma insort_strcmp_sorted:
  assumes "sorted_wrt (\<lambda>a b. strcmp a b < 0) (map f ys)" "\<forall>y \<in> set (x # ys). nul_free (f y)"
    "f x \<notin> f ` set ys"
  shows "sorted_wrt (\<lambda>a b. strcmp a b < 0) (map f (insort_strcmp f x ys))"
  using assms
proof (induction ys)
  case (Cons y ys)
  show ?case
  proof (cases "strcmp (f x) (f y) \<le> 0")
    case True
    with Cons.prems have "strcmp (f x) (f y) < 0" by (auto simp: strcmp_eq order_le_less)
    moreover from this have "strcmp (f x) (f z) < 0" if "z \<in> set ys" for z
      using Cons.prems that by (auto intro: strcmp_trans [of _ "f y"])
    ultimately show ?thesis using True Cons.prems by auto
  next
    case False
    with Cons.prems have "strcmp (f y) (f x) < 0" by (simp add: strcmp_flip)
    with False Cons show ?thesis by (auto simp: insort_strcmp_set)
  qed
qed simp

lemma qsort_strcmp_sorted:
  "\<forall>x \<in> set xs. nul_free (f x) \<Longrightarrow> distinct (map f xs) \<Longrightarrow>
     sorted_wrt (\<lambda>a b. strcmp a b < 0) (map f (qsort_strcmp f xs))"
proof (induction xs)
  case (Cons x xs)
  have eq: "qsort_strcmp f (x # xs) = insort_strcmp f x (qsort_strcmp f xs)" by (simp add: qsort_strcmp_def)
  from Cons show ?case unfolding eq
    by (intro insort_strcmp_sorted) (auto simp: qsort_strcmp_set)
qed (simp add: qsort_strcmp_def)

lemma kv_map_Some:
  "distinct (map kv_name l) \<Longrightarrow> kv_map l k = Some v \<longleftrightarrow> (\<exists>e \<in> set l. kv_name e = k \<and> kv_val e = v)"
  by (auto simp: kv_map_def map_of_eq_Some_iff comp_def)

lemma kv_map_set_eq:
  assumes "set l = set l'" "distinct (map kv_name l)" "distinct (map kv_name l')"
  shows "kv_map l = kv_map l'"
proof
  fix k
  show "kv_map l k = kv_map l' k"
    using kv_map_Some [OF assms(2), of k] kv_map_Some [OF assms(3), of k] unfolding assms(1)
    by (metis option.exhaust)
qed

lemma kv_sorted_distinct:
  "kv_sorted l \<Longrightarrow> \<forall>e \<in> set l. nul_free (kv_name e) \<Longrightarrow> distinct (map kv_name l)"
  by (rule str.sorted_distinct) auto

lemma kv_sort_ok:
  assumes "dict_ok l"
  obtains s where "kv_sort l = Some s" "kv_sorted s" "dict_ok s" "kv_map s = kv_map l"
proof (cases "length l < 2")
  case True
  then have "kv_sorted l" by (cases l) auto
  with True assms that [of l] show ?thesis by (simp add: kv_sort_def)
next
  case False
  let ?s = "qsort_strcmp kv_name l"
  have ok: "\<forall>e \<in> set l. nul_free (kv_name e)" "distinct (map kv_name l)" "\<forall>e \<in> set l. kv_key e \<noteq> None"
    using assms by (auto simp: dict_ok_def)
  have s: "kv_sorted ?s" by (rule qsort_strcmp_sorted [OF ok(1,2)])
  have d: "distinct (map kv_name ?s)"
    using ok(1) by (intro kv_sorted_distinct [OF s]) (simp add: qsort_strcmp_set)
  show ?thesis
  proof (rule that)
    show "kv_sort l = Some ?s" using False ok(3) by (simp add: kv_sort_def)
    show "dict_ok ?s" using assms d by (auto simp: dict_ok_def qsort_strcmp_set)
    show "kv_map ?s = kv_map l" by (rule kv_map_set_eq [OF qsort_strcmp_set d ok(2)])
  qed (rule s)
qed

lemma kv_map_Cons: "kv_map (e # l) = (kv_map l)(kv_name e \<mapsto> kv_val e)"
  by (simp add: kv_map_def)

lemma kv_map_absent: "kv_name e \<notin> kv_name ` set l \<Longrightarrow> kv_map l (kv_name e) = None"
  by (auto simp: kv_map_def map_of_eq_None_iff image_iff)

lemma kv_rekey_ok: "kv_key e = Some k \<Longrightarrow> kv_rekey t n e = e"
  by (simp add: kv_rekey_def)

lemma kv_sorted_less:
  assumes "kv_sorted (y # ys)" "strcmp k (kv_name y) < 0" "nul_free k" "\<forall>e \<in> set (y # ys). nul_free (kv_name e)"
  shows "\<forall>e \<in> set (y # ys). strcmp k (kv_name e) < 0"
  using assms by (auto intro: strcmp_trans [of k "kv_name y"])

lemma dict_ok_Cons: "dict_ok (x # xs) \<Longrightarrow> dict_ok xs \<and> (\<exists>k. kv_key x = Some k \<and> nul_free k)"
  by (auto simp: dict_ok_def)

definition merged :: "kv_elem list \<Rightarrow> kv_elem list \<Rightarrow> kv_elem list \<Rightarrow> bool" where
  "merged xs ys l = (set l \<subseteq> set xs \<union> set ys \<and> kv_sorted l \<and> kv_map l = kv_map ys ++ kv_map xs)"

lemma dict_names: "dict_ok l \<Longrightarrow> \<forall>e \<in> set l. nul_free (kv_name e)"
  by (auto simp: dict_ok_def)

lemma merged_first:
  assumes "merged xs ys l" "strcmp (kv_name x) (kv_name y) < 0"
    "kv_sorted (x # xs)" "kv_sorted (y # zs)" "dict_ok (x # xs)" "dict_ok (y # zs)" "ys = y # zs"
  shows "merged (x # xs) ys (x # l)"
proof -
  have "\<forall>e \<in> set (y # zs). strcmp (kv_name x) (kv_name e) < 0"
    using assms(2,4) dict_names [OF assms(5)] dict_names [OF assms(6)] by (intro kv_sorted_less) auto
  moreover have "\<forall>e \<in> set xs. strcmp (kv_name x) (kv_name e) < 0" using assms(3) by auto
  ultimately have "kv_sorted (x # l)" using assms(1,7) by (auto simp: merged_def)
  with assms(1) show ?thesis by (auto simp: merged_def kv_map_Cons)
qed

lemma merged_second:
  assumes "merged (x # xs) ys l" "strcmp (kv_name y) (kv_name x) < 0"
    "kv_sorted (x # xs)" "kv_sorted (y # ys)" "dict_ok (x # xs)" "dict_ok (y # ys)"
  shows "merged (x # xs) (y # ys) (y # l)"
proof -
  have up: "\<forall>e \<in> set (x # xs). strcmp (kv_name y) (kv_name e) < 0"
    using assms(2,3) dict_names [OF assms(5)] dict_names [OF assms(6)] by (intro kv_sorted_less) auto
  moreover have "\<forall>e \<in> set ys. strcmp (kv_name y) (kv_name e) < 0" using assms(4) by auto
  ultimately have s: "kv_sorted (y # l)" using assms(1) by (auto simp: merged_def)
  have "nul_free (kv_name y)" using dict_names [OF assms(6)] by simp
  with up have "kv_name y \<notin> kv_name ` set (x # xs)" by (force simp: str.cmp_self)
  then have "kv_map (x # xs) (kv_name y) = None" by (rule kv_map_absent)
  then have "kv_map (y # ys) ++ kv_map (x # xs) = (kv_map ys ++ kv_map (x # xs))(kv_name y \<mapsto> kv_val y)"
    unfolding kv_map_Cons [of y ys] by (intro map_add_upd_left) (auto simp: domIff)
  with s assms(1) show ?thesis by (auto simp: merged_def kv_map_Cons [of y l])
qed

lemma merged_both:
  assumes "merged xs ys l" "kv_name x = kv_name y" "kv_sorted (x # xs)" "kv_sorted (y # ys)"
  shows "merged (x # xs) (y # ys) (x # l)"
proof -
  have "kv_sorted (x # l)" using assms by (auto simp: merged_def)
  moreover have "kv_map (y # ys) ++ kv_map (x # xs) = (kv_map ys ++ kv_map xs)(kv_name x \<mapsto> kv_val x)"
    using assms(2) by (auto simp: kv_map_Cons map_add_def fun_eq_iff split: option.splits)
  ultimately show ?thesis using assms(1) by (auto simp: merged_def kv_map_Cons [of x l])
qed

lemma merged_left: "kv_sorted xs \<Longrightarrow> merged xs [] xs"
  by (simp add: merged_def kv_map_def)

lemma merged_right: "kv_sorted ys \<Longrightarrow> merged [] ys ys"
  by (simp add: merged_def kv_map_def)

lemma kv_merge_left: "dict_ok xs \<Longrightarrow> kv_merge t1 t2 t n xs [] = Some xs"
  by (induction xs arbitrary: n) (auto dest!: dict_ok_Cons simp: kv_rekey_ok)

lemma kv_merge_right: "dict_ok ys \<Longrightarrow> kv_merge t1 t2 t n [] ys = Some ys"
  by (induction ys arbitrary: n) (auto dest!: dict_ok_Cons simp: kv_rekey_ok)

lemma kv_merge_ok:
  "t1 \<noteq> vktList \<Longrightarrow> t2 \<noteq> vktList \<Longrightarrow> dict_ok xs \<Longrightarrow> dict_ok ys \<Longrightarrow> kv_sorted xs \<Longrightarrow> kv_sorted ys \<Longrightarrow>
   \<exists>l. kv_merge t1 t2 t n xs ys = Some l \<and> merged xs ys l"
proof (induction t1 t2 t n xs ys rule: kv_merge.induct)
  case (4 t1 t2 t n x xs y ys)
  obtain a b where a: "kv_key x = Some a" "nul_free a" and b: "kv_key y = Some b" "nul_free b"
    and ok: "dict_ok xs" "dict_ok ys" using "4.prems" by (auto dest!: dict_ok_Cons)
  have sx: "kv_sorted xs" and sy: "kv_sorted ys" using "4.prems" by auto
  consider "strcmp a b < 0" | "a = b" | "strcmp b a < 0"
    using strcmp_flip [OF b(2) a(2)] strcmp_eq [OF a(2) b(2)] by linarith
  then show ?case
  proof cases
    case 1
    with "4.IH"(1) "4.prems" a b ok sx obtain l where "kv_merge t1 t2 t (n + 1) xs (y # ys) = Some l" "merged xs (y # ys) l"
      by auto
    with 1 "4.prems" a b show ?thesis by (auto simp: kv_rekey_ok intro!: merged_first [of xs "y # ys" l x y ys])
  next
    case 2
    with "4.IH"(2) [OF refl, of 0] "4.prems" a b ok sx sy obtain l where "kv_merge t1 t2 t (n + 1) xs ys = Some l" "merged xs ys l"
      by (auto simp: str.cmp_self)
    with 2 "4.prems" a b show ?thesis by (auto simp: kv_rekey_ok str.cmp_self intro!: merged_both)
  next
    case 3
    then have gt: "0 < strcmp a b" using strcmp_flip [OF b(2) a(2)] by simp
    with "4.IH"(3) "4.prems" a b ok sy obtain l where "kv_merge t1 t2 t (n + 1) (x # xs) ys = Some l" "merged (x # xs) ys l"
      by auto
    with 3 gt "4.prems" a b show ?thesis by (auto simp: kv_rekey_ok intro!: merged_second)
  qed
qed (use kv_merge_left kv_merge_right merged_left merged_right in \<open>blast+\<close>)

text \<open>
  C15: When both trees of a shadow tree list dictionaries (distinct keys that are C strings), the
  merged listing \<open>shadow_vtree_fetch_keys_and_values\<close> returns is sorted, has no key twice and is, as a
  map from keys to values or nodes, the lower dictionary overridden by the upper one.
\<close>

theorem shadow_kv_override:
  assumes "top_m VTCACHE_CANT [VTREE_LOOP] = Some (Keyvals t1 l1, c1)" "t1 \<noteq> vktList" "dict_ok l1"
    "next_m c1 [VTREE_LOOP] = Some (Keyvals t2 l2, c2)" "t2 \<noteq> vktList" "dict_ok l2"
  shows "\<exists>t l. shadow_vtree_fetch_keys_and_values (Some top_m) (Some next_m) cc [VTREE_LOOP] = Some (Keyvals t l, c2) \<and>
    kv_map l = kv_map l2 ++ kv_map l1 \<and> kv_sorted l \<and> distinct (map kv_name l)"
proof -
  obtain s1 where s1: "kv_sort l1 = Some s1" "kv_sorted s1" "dict_ok s1" "kv_map s1 = kv_map l1"
    by (rule kv_sort_ok [OF assms(3)])
  obtain s2 where s2: "kv_sort l2 = Some s2" "kv_sorted s2" "dict_ok s2" "kv_map s2 = kv_map l2"
    by (rule kv_sort_ok [OF assms(6)])
  let ?t = "if t1 = t2 then t1 else vktUnknown"
  obtain l where l: "kv_merge t1 t2 ?t 0 s1 s2 = Some l" "merged s1 s2 l"
    using kv_merge_ok [OF assms(2,5) s1(3) s2(3) s1(2) s2(2)] by blast
  have "\<forall>e \<in> set l. nul_free (kv_name e)"
    using l(2) dict_names [OF s1(3)] dict_names [OF s2(3)] by (auto simp: merged_def)
  with l(2) have "distinct (map kv_name l)" by (intro kv_sorted_distinct) (simp_all add: merged_def)
  with l s1 s2 assms(1,4) show ?thesis
    by (auto simp: shadow_vtree_fetch_keys_and_values_def call_def Let_def merged_def)
qed

definition dict_chain :: "cstring list \<Rightarrow> vtree_chain" where
  "dict_chain ks = VT_literal (vtree_keyvals_create_dict (map (\<lambda>k. Kv_elem (Some k) (vkvValue k)) ks))"

theorem shadow_kv_override_witness:
  "\<exists>t l. shadow_vtree_fetch_keys_and_values (Some (bpv_fetch_keys_and_values (dict_chain [''b'', ''a''])))
      (Some (bpv_fetch_keys_and_values (dict_chain [''c'', ''b'']))) VTCACHE_CAN [VTREE_LOOP] = Some (Keyvals t l, VTCACHE_CANT) \<and>
    kv_map l = kv_map (map (\<lambda>k. Kv_elem (Some k) (vkvValue k)) [''c'', ''b'']) ++
      kv_map (map (\<lambda>k. Kv_elem (Some k) (vkvValue k)) [''b'', ''a'']) \<and>
    kv_sorted l \<and> distinct (map kv_name l)"
proof (rule shadow_kv_override)
  show "bpv_fetch_keys_and_values (dict_chain [''b'', ''a'']) VTCACHE_CANT [VTREE_LOOP] =
      Some (Keyvals vktDict (map (\<lambda>k. Kv_elem (Some k) (vkvValue k)) [''b'', ''a'']), VTCACHE_CANT)"
    by code_simp
  show "bpv_fetch_keys_and_values (dict_chain [''c'', ''b'']) VTCACHE_CANT [VTREE_LOOP] =
      Some (Keyvals vktDict (map (\<lambda>k. Kv_elem (Some k) (vkvValue k)) [''c'', ''b'']), VTCACHE_CANT)"
    by code_simp
qed (auto simp: dict_ok_def nul_free_def uchar_def)













end
