(* ===== verification/Avl.thy ===== *)
theory Avl
  imports Prelude "HOL-Library.Monad_Syntax"
begin

text \<open>
  The balanced search trees of \<open>src/util/lib/subr_avl.c\<close>. A tree is a value of type \<open>avl_node\<close>;
  the element of a node stands for the structure the \<open>struct avl_node\<close> is embedded in, and equality
  of elements is equality of node addresses. The comparison function the caller passes is the
  argument \<open>cmp\<close>. \<open>None\<close> is the dereference of a null pointer, and in the iterator also a store
  behind its stack of \<open>AVL_MAXDEPTH\<close> slots.
\<close>

section \<open>Nodes\<close>

datatype 'a avl_node = Null | Node "'a avl_node" 'a "'a avl_node" int

fun link :: "'a avl_node \<Rightarrow> bool \<Rightarrow> 'a avl_node" where
  "link Null d = Null"
| "link (Node l x r h) d = (if d then r else l)"

fun set_link :: "'a avl_node \<Rightarrow> bool \<Rightarrow> 'a avl_node \<Rightarrow> 'a avl_node" where
  "set_link Null d c = Null"
| "set_link (Node l x r h) d c = (if d then Node l x c h else Node c x r h)"

definition avl_height :: "'a avl_node \<Rightarrow> int" where
  "avl_height n = (case n of Null \<Rightarrow> 0 | Node l x r h \<Rightarrow> h)"

text \<open>The node with the given links after \<open>avl_reheight\<close>.\<close>

definition avl_reheight :: "'a avl_node \<Rightarrow> 'a \<Rightarrow> 'a avl_node \<Rightarrow> 'a avl_node" where
  "avl_reheight l x r = Node l x r (max (avl_height l) (avl_height r) + 1)"

definition avl_balance :: "'a avl_node \<Rightarrow> int" where
  "avl_balance n = (case n of Null \<Rightarrow> 0 | Node l x r h \<Rightarrow> avl_height l - avl_height r)"

section \<open>Rotation, insertion and deletion\<close>

text \<open>
  \<open>avl_rotate(p, d)\<close>: the child on the side \<open>!d\<close> becomes the root.
\<close>

fun avl_rotate :: "'a avl_node \<Rightarrow> bool \<Rightarrow> 'a avl_node option" where
  "avl_rotate (Node l x (Node pl px pr ph) h) False = Some (avl_reheight (avl_reheight l x pl) px pr)"
| "avl_rotate (Node (Node pl px pr ph) x r h) True = Some (avl_reheight pl px (avl_reheight pr x r))"
| "avl_rotate _ _ = None"

fun avl_rebalance :: "'a avl_node \<Rightarrow> 'a avl_node option" where
  "avl_rebalance Null = None"
| "avl_rebalance (Node l x r h) =
     (let n = avl_reheight l x r; bal = avl_balance n
      in if -1 \<le> bal \<and> bal \<le> 1 then Some n
         else let d = (bal < -1)
              in do {
                   n' \<leftarrow> (if (if d then 1 else -1) * avl_balance (link n d) > 0
                         then do { c \<leftarrow> avl_rotate (link n d) d; Some (set_link n d c) }
                         else Some n);
                   avl_rotate n' (\<not> d)
                 })"

fun avl_insert :: "('a \<Rightarrow> 'a \<Rightarrow> int) \<Rightarrow> 'a \<Rightarrow> 'a avl_node \<Rightarrow> 'a avl_node option" where
  "avl_insert cmp x Null = Some (Node Null x Null 1)"
| "avl_insert cmp x (Node l n r h) =
     (if cmp x n > 0
      then do { r' \<leftarrow> avl_insert cmp x r; avl_rebalance (Node l n r' h) }
      else do { l' \<leftarrow> avl_insert cmp x l; avl_rebalance (Node l' n r h) })"

text \<open>The loop in \<open>avl_delete\<close> that follows \<open>link[1]\<close>, below the node with element \<open>x\<close>.\<close>

fun avl_rightmost :: "'a \<Rightarrow> 'a avl_node \<Rightarrow> 'a" where
  "avl_rightmost x Null = x"
| "avl_rightmost x (Node l y r h) = avl_rightmost y r"

fun avl_delete :: "('a \<Rightarrow> 'a \<Rightarrow> int) \<Rightarrow> 'a \<Rightarrow> 'a avl_node \<Rightarrow> 'a avl_node option" where
  "avl_delete cmp x Null = Some Null"
| "avl_delete cmp x (Node l n r h) =
     do {
       p \<leftarrow> (if x = n
             then if l = Null then Some r
                  else if r = Null then Some l
                  else let m = avl_rightmost n l
                       in do { l' \<leftarrow> avl_delete cmp m l; Some (avl_reheight l' m r) }
             else if cmp x n > 0
             then do { r' \<leftarrow> avl_delete cmp x r; Some (Node l n r' h) }
             else do { l' \<leftarrow> avl_delete cmp x l; Some (Node l' n r h) });
       if p \<noteq> Null then avl_rebalance p else Some p
     }"

section \<open>Lookup, search and the consistency check\<close>

fun avl_lookup :: "('a \<Rightarrow> 'a \<Rightarrow> int) \<Rightarrow> 'a \<Rightarrow> 'a avl_node \<Rightarrow> 'a option" where
  "avl_lookup cmp x Null = None"
| "avl_lookup cmp x (Node l n r h) =
     (let c = cmp x n
      in if c = 0 then Some n else avl_lookup cmp x (if c > 0 then r else l))"

fun avl_search_internal :: "('a \<Rightarrow> 'a \<Rightarrow> int) \<Rightarrow> 'a \<Rightarrow> 'a avl_node \<Rightarrow> 'a option" where
  "avl_search_internal cmp x Null = None"
| "avl_search_internal cmp x (Node l p r h) =
     (let diff = cmp x p
      in if diff = 0 then Some p
         else if diff < 0
         then (case avl_search_internal cmp x l of
                 None \<Rightarrow> Some p
               | Some left \<Rightarrow> if cmp left p < 0 then Some left else Some p)
         else avl_search_internal cmp x r)"

definition avl_search :: "('a \<Rightarrow> 'a \<Rightarrow> int) \<Rightarrow> 'a \<Rightarrow> 'a avl_node \<Rightarrow> 'a option" where
  "avl_search cmp x root = avl_search_internal cmp x root"

text \<open>
  \<open>avl_check\<close>: whether the call returns, that is no assertion fails and \<open>n\<close> is not null.
\<close>

fun avl_check :: "('a \<Rightarrow> 'a \<Rightarrow> int) \<Rightarrow> 'a avl_node \<Rightarrow> bool" where
  "avl_check cmp Null = False"
| "avl_check cmp (Node l x r h) =
     (\<bar>avl_balance (Node l x r h)\<bar> < 2
      \<and> (l = Null \<and> r = Null \<longrightarrow> h = 1)
      \<and> h = max (avl_height l) (avl_height r) + 1
      \<and> (case l of Null \<Rightarrow> True | Node _ y _ _ \<Rightarrow> cmp x y \<ge> 0 \<and> avl_check cmp l)
      \<and> (case r of Null \<Rightarrow> True | Node _ y _ _ \<Rightarrow> cmp x y \<le> 0 \<and> avl_check cmp r))"

section \<open>The iterator\<close>

text \<open>
  \<open>it_is\<close> is the used part of the array \<open>is\<close>, the slot \<open>isp\<close> points to first; it is empty
  when \<open>isp\<close> is below the array. The state \<open>d\<close> of a slot takes the values 0 to 3.
\<close>

datatype avl_it_d = D0 | D1 | D2 | D3

record 'a avl_it =
  it_is :: "('a avl_node \<times> avl_it_d) list"
  it_cmp :: "'a \<Rightarrow> 'a \<Rightarrow> int"
  it_s :: "'a option"
  it_e :: "'a option"
  it_ince :: bool

definition AVL_MAXDEPTH :: nat where
  "AVL_MAXDEPTH = 64"

definition avl_it_init2 ::
  "'a avl_node \<Rightarrow> 'a option \<Rightarrow> 'a option \<Rightarrow> bool \<Rightarrow> ('a \<Rightarrow> 'a \<Rightarrow> int) \<Rightarrow> 'a avl_it" where
  "avl_it_init2 root s e ince cmp =
     \<lparr> it_is = (if root = Null then [] else [(root, D0)]), it_cmp = cmp, it_s = s, it_e = e, it_ince = ince \<rparr>"

definition avl_it_init ::
  "'a avl_node \<Rightarrow> 'a option \<Rightarrow> 'a option \<Rightarrow> ('a \<Rightarrow> 'a \<Rightarrow> int) \<Rightarrow> 'a avl_it" where
  "avl_it_init root s e cmp = avl_it_init2 root s e False cmp"

text \<open>The conditions on the end and on the start of the range in \<open>avl_it_next\<close>.\<close>

definition it_past_end :: "'a avl_it \<Rightarrow> 'a \<Rightarrow> bool" where
  "it_past_end it n =
     (case it_e it of
        None \<Rightarrow> False
      | Some e \<Rightarrow> if it_ince it then it_cmp it n e > 0 else it_cmp it n e \<ge> 0)"

definition it_started :: "'a avl_it \<Rightarrow> 'a \<Rightarrow> bool" where
  "it_started it n = (case it_s it of None \<Rightarrow> True | Some s \<Rightarrow> it_cmp it n s \<ge> 0)"

fun it_slot_work :: "'a avl_node \<times> avl_it_d \<Rightarrow> nat" where
  "it_slot_work (Null, d) = 1"
| "it_slot_work (Node l x r h, D0) = 4 + 4 * size l + 4 * size r"
| "it_slot_work (Node l x r h, D1) = 3 + 4 * size r"
| "it_slot_work (Node l x r h, D2) = 2 + 4 * size r"
| "it_slot_work (Node l x r h, D3) = 1"

function avl_it_next :: "'a avl_it \<Rightarrow> ('a option \<times> 'a avl_it) option" where
  "avl_it_next it =
     (case it_is it of
        [] \<Rightarrow> Some (None, it)
      | (Null, d) # below \<Rightarrow> None
      | (Node l x r h, D0) # below \<Rightarrow>
          (let n = Node l x r h; d = (if it_past_end it x then D3 else D2)
           in if it_started it x
              then let d = (if d = D2 then D1 else d)
                   in if l \<noteq> Null
                      then if length (it_is it) < AVL_MAXDEPTH
                           then avl_it_next (it\<lparr>it_is := (l, D0) # (n, d) # below\<rparr>)
                           else None
                      else avl_it_next (it\<lparr>it_is := (n, d) # below\<rparr>)
              else avl_it_next (it\<lparr>it_is := (n, d) # below\<rparr>))
      | (Node l x r h, D1) # below \<Rightarrow> Some (Some x, it\<lparr>it_is := (Node l x r h, D2) # below\<rparr>)
      | (Node l x r h, D2) # below \<Rightarrow>
          if r \<noteq> Null then avl_it_next (it\<lparr>it_is := (r, D0) # below\<rparr>)
          else avl_it_next (it\<lparr>it_is := (Node l x r h, D3) # below\<rparr>)
      | (Node l x r h, D3) # below \<Rightarrow> avl_it_next (it\<lparr>it_is := below\<rparr>))"
  by pat_completeness auto

lemma it_slot_work_D0: "n \<noteq> Null \<Longrightarrow> it_slot_work (n, D0) = 4 * size n"
  by (cases n) auto

termination avl_it_next
  by (relation "measure (\<lambda>it. sum_list (map it_slot_work (it_is it)))")
    (auto simp: it_slot_work_D0)

declare avl_it_next.simps [simp del]

text \<open>
  The loop \<open>while ((n = avl_it_next(&it)) != NULL)\<close> of the callers: the elements it passes on.
\<close>

partial_function (option) avl_it_drain :: "'a avl_it \<Rightarrow> 'a list option" where
  [code]: "avl_it_drain it =
     do {
       (n, it') \<leftarrow> avl_it_next it;
       (case n of None \<Rightarrow> Some [] | Some x \<Rightarrow> do { xs \<leftarrow> avl_it_drain it'; Some (x # xs) })
     }"

section \<open>Augmented trees\<close>

text \<open>
  \<open>fixup\<close> computes the contents of the structure around a node after the call of the caller's
  \<open>avl_fixup_fn\<close> on it.
\<close>

fun aavl_fix :: "('a avl_node \<Rightarrow> 'a) \<Rightarrow> 'a avl_node \<Rightarrow> 'a avl_node" where
  "aavl_fix fixup Null = Null"
| "aavl_fix fixup (Node l x r h) = Node l (fixup (Node l x r h)) r h"

definition aavl_reheight ::
  "('a avl_node \<Rightarrow> 'a) \<Rightarrow> 'a avl_node \<Rightarrow> 'a \<Rightarrow> 'a avl_node \<Rightarrow> 'a avl_node" where
  "aavl_reheight fixup l x r = aavl_fix fixup (avl_reheight l x r)"

fun aavl_rotate :: "('a avl_node \<Rightarrow> 'a) \<Rightarrow> 'a avl_node \<Rightarrow> bool \<Rightarrow> 'a avl_node option" where
  "aavl_rotate fixup (Node l x (Node pl px pr ph) h) False =
     Some (aavl_reheight fixup (aavl_reheight fixup l x pl) px pr)"
| "aavl_rotate fixup (Node (Node pl px pr ph) x r h) True =
     Some (aavl_reheight fixup pl px (aavl_reheight fixup pr x r))"
| "aavl_rotate fixup _ _ = None"

fun aavl_rebalance :: "('a avl_node \<Rightarrow> 'a) \<Rightarrow> 'a avl_node \<Rightarrow> 'a avl_node option" where
  "aavl_rebalance fixup Null = None"
| "aavl_rebalance fixup (Node l x r h) =
     (let n = aavl_reheight fixup l x r; bal = avl_balance n
      in if -1 \<le> bal \<and> bal \<le> 1 then Some n
         else let d = (bal < -1)
              in do {
                   n' \<leftarrow> (if (if d then 1 else -1) * avl_balance (link n d) > 0
                         then do { c \<leftarrow> aavl_rotate fixup (link n d) d; Some (set_link n d c) }
                         else Some n);
                   aavl_rotate fixup n' (\<not> d)
                 })"

fun aavl_insert ::
  "('a avl_node \<Rightarrow> 'a) \<Rightarrow> ('a \<Rightarrow> 'a \<Rightarrow> int) \<Rightarrow> 'a \<Rightarrow> 'a avl_node \<Rightarrow> 'a avl_node option" where
  "aavl_insert fixup cmp x Null = Some (aavl_fix fixup (Node Null x Null 1))"
| "aavl_insert fixup cmp x (Node l n r h) =
     (if cmp x n > 0
      then do { r' \<leftarrow> aavl_insert fixup cmp x r; aavl_rebalance fixup (Node l n r' h) }
      else do { l' \<leftarrow> aavl_insert fixup cmp x l; aavl_rebalance fixup (Node l' n r h) })"

end
