(* ===== verification/AvlSpec.thy ===== *)
theory AvlSpec
  imports Avl
begin

text \<open>
  Correctness of the trees of the theory \<open>Avl\<close>. In the locale \<open>avl_order\<close> of the comparison
  functions the trees are made for, a tree stays sorted and balanced and the operations act on its
  inorder listing as insertion, deletion and search act on a sorted list; the iterator passes on
  the elements of its range in order and stays inside its stack.
\<close>

section \<open>Balance\<close>

fun inorder :: "'a avl_node \<Rightarrow> 'a list" where
  "inorder Null = []"
| "inorder (Node l x r h) = inorder l @ x # inorder r"

text \<open>The stored heights are right and differ by one at most at every node.\<close>

fun avl_ok :: "'a avl_node \<Rightarrow> bool" where
  "avl_ok Null = True"
| "avl_ok (Node l x r h) =
     (avl_ok l \<and> avl_ok r \<and> h = max (avl_height l) (avl_height r) + 1
      \<and> \<bar>avl_height l - avl_height r\<bar> \<le> 1)"

lemma avl_height_simps [simp]:
  "avl_height Null = 0"
  "avl_height (Node l x r h) = h"
  by (simp_all add: avl_height_def)

lemma avl_balance_simps [simp]:
  "avl_balance Null = 0"
  "avl_balance (Node l x r h) = avl_height l - avl_height r"
  by (simp_all add: avl_balance_def)

lemma avl_height_nonneg: "avl_ok t \<Longrightarrow> 0 \<le> avl_height t"
  by (induction t) auto

lemma avl_height_pos: "avl_ok t \<Longrightarrow> t \<noteq> Null \<Longrightarrow> 0 < avl_height t"
  by (cases t) (auto dest: avl_height_nonneg)

lemma avl_rotate_inorder: "avl_rotate n d = Some t \<Longrightarrow> inorder t = inorder n"
  by (cases "(n, d)" rule: avl_rotate.cases) (auto simp: avl_reheight_def)

lemma set_link_inorder:
  "n \<noteq> Null \<Longrightarrow> inorder c = inorder (link n d) \<Longrightarrow> inorder (set_link n d c) = inorder n"
  by (cases n) auto

lemma avl_rebalance_inorder:
  assumes "avl_rebalance (Node l x r h) = Some t"
  shows "inorder t = inorder l @ x # inorder r"
proof -
  have n: "inorder (avl_reheight l x r) = inorder l @ x # inorder r" "avl_reheight l x r \<noteq> Null"
    by (simp_all add: avl_reheight_def)
  show ?thesis
    using assms
    by (auto simp: Let_def n bind_eq_Some_conv set_link_inorder dest!: avl_rotate_inorder split: if_splits)
qed

lemma avl_rebalance_even:
  assumes "\<bar>avl_height l - avl_height r\<bar> \<le> 1"
  shows "avl_rebalance (Node l x r h) = Some (avl_reheight l x r)"
proof -
  have "-1 \<le> avl_height l - avl_height r \<and> avl_height l - avl_height r \<le> 1" using assms by linarith
  then show ?thesis by (simp add: avl_reheight_def)
qed

lemma avl_rebalance_left:
  assumes "avl_ok l" "avl_ok r" "avl_height l = avl_height r + 2"
  shows "\<exists>t. avl_rebalance (Node l x r h) = Some t \<and> avl_ok t \<and> inorder t = inorder l @ x # inorder r
           \<and> (avl_height t = avl_height l \<or> avl_height t = avl_height l + 1)"
proof -
  have r0: "0 \<le> avl_height r" using avl_height_nonneg [OF assms(2)] .
  obtain ll lx lr lh where l: "l = Node ll lx lr lh"
    using assms(3) r0 by (cases l) auto
  show ?thesis
  proof (cases "avl_height lr > avl_height ll")
    case False
    then show ?thesis using assms r0
      by (auto simp: l avl_reheight_def)
  next
    case True
    have "0 \<le> avl_height ll" using assms(1) by (auto simp: l intro: avl_height_nonneg)
    with True obtain a y b k where lr: "lr = Node a y b k" by (cases lr) auto
    show ?thesis using assms r0 True
      by (auto simp: l lr avl_reheight_def)
  qed
qed

lemma avl_rebalance_right:
  assumes "avl_ok l" "avl_ok r" "avl_height r = avl_height l + 2"
  shows "\<exists>t. avl_rebalance (Node l x r h) = Some t \<and> avl_ok t \<and> inorder t = inorder l @ x # inorder r
           \<and> (avl_height t = avl_height r \<or> avl_height t = avl_height r + 1)"
proof -
  have l0: "0 \<le> avl_height l" using avl_height_nonneg [OF assms(1)] .
  obtain rl rx rr rh where r: "r = Node rl rx rr rh"
    using assms(3) l0 by (cases r) auto
  show ?thesis
  proof (cases "avl_height rl > avl_height rr")
    case False
    then show ?thesis using assms l0
      by (auto simp: r avl_reheight_def)
  next
    case True
    have "0 \<le> avl_height rr" using assms(2) by (auto simp: r intro: avl_height_nonneg)
    with True obtain a y b k where rl: "rl = Node a y b k" by (cases rl) auto
    show ?thesis using assms l0 True
      by (auto simp: r rl avl_reheight_def)
  qed
qed

declare avl_rebalance.simps(2) [simp del]

lemma avl_rebalance_ok:
  assumes "avl_ok l" "avl_ok r" "\<bar>avl_height l - avl_height r\<bar> \<le> 2"
  shows "\<exists>t. avl_rebalance (Node l x r h) = Some t \<and> avl_ok t \<and> inorder t = inorder l @ x # inorder r
           \<and> (avl_height t = max (avl_height l) (avl_height r) + 1
              \<or> \<bar>avl_height l - avl_height r\<bar> = 2 \<and> avl_height t = max (avl_height l) (avl_height r))"
proof -
  consider "\<bar>avl_height l - avl_height r\<bar> \<le> 1" | "avl_height l = avl_height r + 2" | "avl_height r = avl_height l + 2"
    using assms(3) by linarith
  then show ?thesis
  proof cases
    case 1
    then show ?thesis using assms avl_rebalance_even [OF 1] by (simp add: avl_reheight_def)
  next
    case 2
    from avl_rebalance_left [OF assms(1,2) this, of x h] obtain t where
      "avl_rebalance (Node l x r h) = Some t" "avl_ok t" "inorder t = inorder l @ x # inorder r"
      "avl_height t = avl_height l \<or> avl_height t = avl_height l + 1" by blast
    with 2 show ?thesis by (intro exI [of _ t]) auto
  next
    case 3
    from avl_rebalance_right [OF assms(1,2) this, of x h] obtain t where
      "avl_rebalance (Node l x r h) = Some t" "avl_ok t" "inorder t = inorder l @ x # inorder r"
      "avl_height t = avl_height r \<or> avl_height t = avl_height r + 1" by blast
    with 3 show ?thesis by (intro exI [of _ t]) auto
  qed
qed

section \<open>The order of the elements\<close>

text \<open>
  What a comparison function promises on the elements of a tree and on the probes a caller looks
  up: it is a total preorder. Elements that compare equal need not be the same node.
\<close>

locale avl_order =
  fixes cmp :: "'a \<Rightarrow> 'a \<Rightarrow> int" and ok :: "'a \<Rightarrow> bool"
  assumes flip: "ok a \<Longrightarrow> ok b \<Longrightarrow> cmp a b < 0 \<longleftrightarrow> 0 < cmp b a"
    and trans: "ok a \<Longrightarrow> ok b \<Longrightarrow> ok c \<Longrightarrow> cmp a b < 0 \<Longrightarrow> cmp b c < 0 \<Longrightarrow> cmp a c < 0"
    and equiv: "ok a \<Longrightarrow> ok b \<Longrightarrow> ok c \<Longrightarrow> cmp a b = 0 \<Longrightarrow> cmp b c < 0 \<Longrightarrow> cmp a c < 0"
begin

lemma self: "ok a \<Longrightarrow> cmp a a = 0"
  using flip [of a a] by linarith

lemma eq_sym: "ok a \<Longrightarrow> ok b \<Longrightarrow> cmp a b = 0 \<Longrightarrow> cmp b a = 0"
  using flip [of a b] flip [of b a] by linarith

lemma less_eq_trans:
  assumes "ok a" "ok b" "ok c" "cmp a b < 0" "cmp b c = 0"
  shows "cmp a c < 0"
proof (rule ccontr)
  assume "\<not> cmp a c < 0"
  then have "cmp c a \<le> 0" using flip [of a c] flip [of c a] assms by linarith
  moreover have "cmp c a \<noteq> 0"
    using equiv [of c a b] eq_sym [of b c] assms by auto
  ultimately have "cmp b a < 0" using equiv [of b c a] assms by simp
  with assms show False using flip [of a b] by simp
qed

lemma le_trans:
  assumes "ok a" "ok b" "ok c" "cmp a b \<le> 0" "cmp b c < 0"
  shows "cmp a c < 0"
  using assms trans [of a b c] equiv [of a b c] by (cases "cmp a b = 0") auto

lemma le_trans2:
  assumes "ok a" "ok b" "ok c" "cmp a b < 0" "cmp b c \<le> 0"
  shows "cmp a c < 0"
  using assms trans [of a b c] less_eq_trans [of a b c] by (cases "cmp b c = 0") auto

lemma pos_flip: "ok a \<Longrightarrow> ok b \<Longrightarrow> 0 < cmp a b \<longleftrightarrow> cmp b a < 0"
  using flip [of b a] by simp

end

text \<open>An order in which only an element itself compares equal to it.\<close>

sublocale key_order \<subseteq> avl_order cmp ok
proof
  show "ok a \<Longrightarrow> ok b \<Longrightarrow> cmp a b < 0 \<longleftrightarrow> 0 < cmp b a" for a b by (rule cmp_flip)
  show "ok a \<Longrightarrow> ok b \<Longrightarrow> ok c \<Longrightarrow> cmp a b < 0 \<Longrightarrow> cmp b c < 0 \<Longrightarrow> cmp a c < 0" for a b c
    by (rule cmp_trans)
  show "ok a \<Longrightarrow> ok b \<Longrightarrow> ok c \<Longrightarrow> cmp a b = 0 \<Longrightarrow> cmp b c < 0 \<Longrightarrow> cmp a c < 0" for a b c
    using cmp_eq [of a b] by simp
qed

text \<open>Comparing by a key of the element is such an order.\<close>

lemma avl_order_by_key:
  assumes "key_order cmp ok"
  shows "avl_order (\<lambda>a b. cmp (key a) (key b)) (\<lambda>a. ok (key a))"
proof
  fix a b c
  show "ok (key a) \<Longrightarrow> ok (key b) \<Longrightarrow> cmp (key a) (key b) < 0 \<longleftrightarrow> 0 < cmp (key b) (key a)"
    by (rule key_order.cmp_flip [OF assms])
  show "ok (key a) \<Longrightarrow> ok (key b) \<Longrightarrow> ok (key c) \<Longrightarrow> cmp (key a) (key b) < 0 \<Longrightarrow>
    cmp (key b) (key c) < 0 \<Longrightarrow> cmp (key a) (key c) < 0"
    by (rule key_order.cmp_trans [OF assms])
  show "ok (key a) \<Longrightarrow> ok (key b) \<Longrightarrow> ok (key c) \<Longrightarrow> cmp (key a) (key b) = 0 \<Longrightarrow>
    cmp (key b) (key c) < 0 \<Longrightarrow> cmp (key a) (key c) < 0"
    using key_order.cmp_eq [OF assms, of "key a" "key b"] by simp
qed

section \<open>Sorted trees\<close>

definition avl_sorted :: "('a \<Rightarrow> 'a \<Rightarrow> int) \<Rightarrow> ('a \<Rightarrow> bool) \<Rightarrow> 'a list \<Rightarrow> bool" where
  "avl_sorted cmp ok xs = (sorted_wrt (\<lambda>a b. cmp a b < 0) xs \<and> (\<forall>a \<in> set xs. ok a))"

definition avl_tree :: "('a \<Rightarrow> 'a \<Rightarrow> int) \<Rightarrow> ('a \<Rightarrow> bool) \<Rightarrow> 'a avl_node \<Rightarrow> bool" where
  "avl_tree cmp ok t = (avl_ok t \<and> avl_sorted cmp ok (inorder t))"

lemma avl_sorted_simps [simp]:
  "avl_sorted cmp ok []"
  "avl_sorted cmp ok (x # xs) \<longleftrightarrow> ok x \<and> (\<forall>a \<in> set xs. cmp x a < 0) \<and> avl_sorted cmp ok xs"
  "avl_sorted cmp ok (xs @ ys) \<longleftrightarrow>
     avl_sorted cmp ok xs \<and> avl_sorted cmp ok ys \<and> (\<forall>a \<in> set xs. \<forall>b \<in> set ys. cmp a b < 0)"
  by (auto simp: avl_sorted_def sorted_wrt_append)

lemma avl_sorted_ok: "avl_sorted cmp ok xs \<Longrightarrow> a \<in> set xs \<Longrightarrow> ok a"
  by (simp add: avl_sorted_def)

lemma avl_sorted_filter: "avl_sorted cmp ok xs \<Longrightarrow> avl_sorted cmp ok (filter P xs)"
  by (auto simp: avl_sorted_def sorted_wrt_filter)

lemma avl_rightmost_inorder:
  "avl_rightmost x t = (if t = Null then x else last (inorder t))"
  by (induction x t rule: avl_rightmost.induct) (auto split: if_splits, metis inorder.elims list.distinct(1) append_is_Nil_conv)

text \<open>Where a tree with one element more or less fits in place of a subtree.\<close>

lemma avl_insert_ok:
  assumes "avl_ok t"
  shows "\<exists>t'. avl_insert cmp x t = Some t' \<and> avl_ok t'
           \<and> (avl_height t' = avl_height t \<or> avl_height t' = avl_height t + 1)"
  using assms
proof (induction t)
  case (Node l n r h)
  show ?case
  proof (cases "cmp x n > 0")
    case True
    from Node obtain r' where r': "avl_insert cmp x r = Some r'" "avl_ok r'"
      "avl_height r' = avl_height r \<or> avl_height r' = avl_height r + 1" by auto
    with Node.prems have "\<bar>avl_height l - avl_height r'\<bar> \<le> 2" by auto
    from avl_rebalance_ok [OF _ r'(2) this, of n h] Node.prems True r' show ?thesis by fastforce
  next
    case False
    from Node obtain l' where l': "avl_insert cmp x l = Some l'" "avl_ok l'"
      "avl_height l' = avl_height l \<or> avl_height l' = avl_height l + 1" by auto
    with Node.prems have "\<bar>avl_height l' - avl_height r\<bar> \<le> 2" by auto
    from avl_rebalance_ok [OF l'(2) _ this, of n h] Node.prems False l' show ?thesis by fastforce
  qed
qed auto

lemma avl_rebalance_id: "avl_ok (Node l x r h) \<Longrightarrow> avl_rebalance (Node l x r h) = Some (Node l x r h)"
  using avl_rebalance_even [of l r x h] by (simp add: avl_reheight_def)

text \<open>What a deletion below a node leaves of the node's subtree, and rebalancing after it.\<close>

definition shrunk :: "'a avl_node \<Rightarrow> 'a avl_node \<Rightarrow> bool" where
  "shrunk t t' = (avl_ok t' \<and> (avl_height t' = avl_height t \<or> avl_height t' = avl_height t - 1))"

lemma avl_shrink_left:
  assumes "avl_ok (Node l n r h)" "shrunk l l'"
  shows "\<exists>t. avl_rebalance (Node l' m r k) = Some t \<and> shrunk (Node l n r h) t
           \<and> inorder t = inorder l' @ m # inorder r"
proof -
  have "\<bar>avl_height l' - avl_height r\<bar> \<le> 2" "avl_ok l'" "avl_ok r"
    using assms by (auto simp: shrunk_def)
  from avl_rebalance_ok [OF this(2,3,1), of m k] assms show ?thesis
    unfolding shrunk_def by fastforce
qed

lemma avl_shrink_right:
  assumes "avl_ok (Node l n r h)" "shrunk r r'"
  shows "\<exists>t. avl_rebalance (Node l m r' k) = Some t \<and> shrunk (Node l n r h) t
           \<and> inorder t = inorder l @ m # inorder r'"
proof -
  have "\<bar>avl_height l - avl_height r'\<bar> \<le> 2" "avl_ok l" "avl_ok r'"
    using assms by (auto simp: shrunk_def)
  from avl_rebalance_ok [OF this(2,3,1), of m k] assms show ?thesis
    unfolding shrunk_def by fastforce
qed

lemma avl_delete_root:
  assumes ok: "avl_ok (Node l n r h)"
    and l': "l \<noteq> Null \<Longrightarrow> \<exists>l'. avl_delete cmp (avl_rightmost n l) l = Some l' \<and> shrunk l l' \<and> inorder l' = butlast (inorder l)"
  shows "\<exists>t. avl_delete cmp n (Node l n r h) = Some t \<and> shrunk (Node l n r h) t \<and> inorder t = inorder l @ inorder r"
proof (cases "l = Null \<or> r = Null")
  case True
  then show ?thesis
  proof
    assume "l = Null"
    with ok avl_height_nonneg [of r] show ?thesis
      by (cases r) (auto simp: shrunk_def avl_rebalance_id)
  next
    assume "r = Null"
    with ok avl_height_nonneg [of l] show ?thesis
      by (cases l) (auto simp: shrunk_def avl_rebalance_id)
  qed
next
  case False
  then obtain l' where d: "avl_delete cmp (avl_rightmost n l) l = Some l'"
    and s: "shrunk l l'" and i: "inorder l' = butlast (inorder l)" using l' by auto
  from False have m: "avl_rightmost n l = last (inorder l)" and ne: "inorder l \<noteq> []"
    by (auto simp: avl_rightmost_inorder) (cases l; simp)
  obtain t where t: "avl_rebalance (Node l' (avl_rightmost n l) r (max (avl_height l') (avl_height r) + 1)) = Some t"
    and st: "shrunk (Node l n r h) t" and it: "inorder t = inorder l' @ avl_rightmost n l # inorder r"
    using avl_shrink_left [OF ok s] by blast
  have "inorder t = inorder l @ inorder r"
    using it i m append_butlast_last_id [OF ne] by (metis append.assoc append_Cons append_Nil)
  moreover have "avl_delete cmp n (Node l n r h) = Some t"
    using False d t by (simp add: avl_reheight_def)
  ultimately show ?thesis using st by blast
qed

section \<open>Correctness over an ordered set of elements\<close>

lemma find_append: "find P (xs @ ys) = (case find P xs of None \<Rightarrow> find P ys | Some x \<Rightarrow> Some x)"
  by (induction xs) auto

context avl_order
begin

text \<open>How a probe compares with the elements on either side of a node.\<close>

lemma above_left:
  assumes "avl_sorted cmp ok (inorder (Node l n r h))" "ok x" "cmp x n \<ge> 0" "a \<in> set (inorder l)"
  shows "cmp a x < 0" "cmp x a > 0" "a \<noteq> n"
proof -
  have a: "ok a" "ok n" "cmp a n < 0" using assms avl_sorted_ok by auto
  have "cmp n x \<le> 0" using pos_flip [OF a(2) assms(2)] assms(3) by linarith
  then show lt: "cmp a x < 0" by (rule le_trans2 [OF a(1,2) assms(2) a(3)])
  then show "cmp x a > 0" using flip [OF a(1) assms(2)] by simp
  show "a \<noteq> n" using a(3) self [OF a(2)] by auto
qed

lemma below_right:
  assumes "avl_sorted cmp ok (inorder (Node l n r h))" "ok x" "cmp x n \<le> 0" "a \<in> set (inorder r)"
  shows "cmp x a < 0" "cmp a x > 0" "a \<noteq> n"
proof -
  have a: "ok a" "ok n" "cmp n a < 0" using assms avl_sorted_ok by auto
  show lt: "cmp x a < 0" by (rule le_trans [OF assms(2) a(2,1) assms(3) a(3)])
  then show "cmp a x > 0" using flip [OF assms(2) a(1)] by simp
  show "a \<noteq> n" using a(3) self [OF a(2)] by auto
qed

lemma insert_sorted:
  assumes "avl_sorted cmp ok xs" "ok x"
  shows "avl_sorted cmp ok (filter (\<lambda>a. cmp a x < 0) xs @ x # filter (\<lambda>a. cmp x a < 0) xs)"
proof -
  have "cmp a b < 0" if "a \<in> set xs" "b \<in> set xs" "cmp a x < 0" "cmp x b < 0" for a b
    using trans [OF avl_sorted_ok [OF assms(1) that(1)] assms(2) avl_sorted_ok [OF assms(1) that(2)] that(3,4)] .
  then show ?thesis using assms avl_sorted_filter [OF assms(1)] by simp
qed

lemma insert_set:
  assumes "\<forall>a \<in> set xs. ok a" "ok x" "\<forall>a \<in> set xs. cmp x a \<noteq> 0"
  shows "set (filter (\<lambda>a. cmp a x < 0) xs @ x # filter (\<lambda>a. cmp x a < 0) xs) = insert x (set xs)"
proof -
  have "cmp a x < 0 \<or> cmp x a < 0" if "a \<in> set xs" for a
    using assms that flip [of a x] by force
  then show ?thesis by auto
qed

lemma sorted_unique:
  assumes "avl_sorted cmp ok xs" "a \<in> set xs" "b \<in> set xs" "cmp a b = 0"
  shows "a = b"
  using assms
proof (induction xs)
  case (Cons c xs)
  have c: "ok c" "\<And>d. d \<in> set xs \<Longrightarrow> cmp c d < 0 \<and> ok d"
    using Cons.prems(1) by (auto simp: avl_sorted_ok)
  consider "a = c" "b = c" | "a = c" "b \<in> set xs" | "a \<in> set xs" "b = c" | "a \<in> set xs" "b \<in> set xs"
    using Cons.prems(2,3) by auto
  then show ?case
  proof cases
    case 2
    then show ?thesis using c(2) [of b] Cons.prems(4) by simp
  next
    case 3
    then show ?thesis using c(2) [of a] flip [of c a] c(1) Cons.prems(4) by simp
  next
    case 4
    then show ?thesis using Cons.IH Cons.prems(1,4) by simp
  qed simp
qed simp

lemma sorted_distinct_elems: "avl_sorted cmp ok xs \<Longrightarrow> distinct xs"
  by (induction xs) (use self in force)+

lemma insert_inorder:
  assumes "avl_sorted cmp ok (inorder t)" "ok x" "\<forall>a \<in> set (inorder t). cmp x a \<noteq> 0"
    "avl_insert cmp x t = Some t'"
  shows "inorder t' = filter (\<lambda>a. cmp a x < 0) (inorder t) @ x # filter (\<lambda>a. cmp x a < 0) (inorder t)"
  using assms
proof (induction t arbitrary: t')
  case (Node l n r h)
  have n: "ok n" and ne: "cmp x n \<noteq> 0" using Node.prems by auto
  show ?case
  proof (cases "cmp x n > 0")
    case True
    with Node.prems obtain r' where r': "avl_insert cmp x r = Some r'" "avl_rebalance (Node l n r' h) = Some t'"
      by (auto simp: bind_eq_Some_conv)
    have "cmp n x < 0" using pos_flip [OF Node.prems(2) n] True by simp
    moreover have "filter (\<lambda>a. cmp a x < 0) (inorder l) = inorder l" "filter (\<lambda>a. cmp x a < 0) (inorder l) = []"
      using above_left(1,2) [OF Node.prems(1,2)] True by (fastforce simp: filter_id_conv filter_empty_conv)+
    moreover have "inorder r' = filter (\<lambda>a. cmp a x < 0) (inorder r) @ x # filter (\<lambda>a. cmp x a < 0) (inorder r)"
      using Node.IH(2) [OF _ Node.prems(2) _ r'(1)] Node.prems(1,3) by simp
    ultimately show ?thesis using True by (simp add: avl_rebalance_inorder [OF r'(2)])
  next
    case False
    with Node.prems obtain l' where l': "avl_insert cmp x l = Some l'" "avl_rebalance (Node l' n r h) = Some t'"
      by (auto simp: bind_eq_Some_conv)
    have "cmp x n < 0" using ne False by linarith
    moreover have "\<not> cmp n x < 0" using pos_flip [OF Node.prems(2) n] False by simp
    moreover have "filter (\<lambda>a. cmp x a < 0) (inorder r) = inorder r" "filter (\<lambda>a. cmp a x < 0) (inorder r) = []"
      using below_right(1,2) [OF Node.prems(1,2)] False by (fastforce simp: filter_id_conv filter_empty_conv)+
    moreover have "inorder l' = filter (\<lambda>a. cmp a x < 0) (inorder l) @ x # filter (\<lambda>a. cmp x a < 0) (inorder l)"
      using Node.IH(1) [OF _ Node.prems(2) _ l'(1)] Node.prems(1,3) by simp
    ultimately show ?thesis by (simp add: avl_rebalance_inorder [OF l'(2)])
  qed
qed auto

lemma sorted_last_filter:
  assumes "avl_sorted cmp ok xs" "xs \<noteq> []"
  shows "filter (\<lambda>a. a \<noteq> last xs) xs = butlast xs"
proof -
  have xs: "xs = butlast xs @ [last xs]" using assms(2) by simp
  have "a \<noteq> last xs" if "a \<in> set (butlast xs)" for a
  proof -
    have "avl_sorted cmp ok (butlast xs @ [last xs])" using assms by simp
    with that have "cmp a (last xs) < 0" "ok a" by (auto simp: avl_sorted_ok)
    then show ?thesis using self by force
  qed
  then have "filter (\<lambda>a. a \<noteq> last xs) (butlast xs @ [last xs]) = butlast xs"
    by (simp add: filter_id_conv)
  then show ?thesis using xs by simp
qed

lemma delete_inorder:
  assumes "avl_sorted cmp ok (inorder t)" "ok x" "avl_ok t"
  shows "\<exists>t'. avl_delete cmp x t = Some t' \<and> shrunk t t' \<and> inorder t' = filter (\<lambda>a. a \<noteq> x) (inorder t)"
  using assms
proof (induction t arbitrary: x)
  case (Node l n r h)
  have s: "avl_sorted cmp ok (inorder l)" "avl_sorted cmp ok (inorder r)" "ok n" "avl_ok l" "avl_ok r"
    using Node.prems by auto
  consider "x = n" | "x \<noteq> n" "cmp x n > 0" | "x \<noteq> n" "cmp x n \<le> 0" by linarith
  then show ?case
  proof cases
    case 1
    have "\<exists>l'. avl_delete cmp (avl_rightmost n l) l = Some l' \<and> shrunk l l' \<and> inorder l' = butlast (inorder l)"
      if "l \<noteq> Null"
    proof -
      have ne: "inorder l \<noteq> []" using that by (cases l) auto
      have m: "avl_rightmost n l = last (inorder l)" using that by (simp add: avl_rightmost_inorder)
      have "ok (last (inorder l))" using s(1) ne by (auto intro: avl_sorted_ok)
      from Node.IH(1) [OF s(1) this s(4)] sorted_last_filter [OF s(1) ne] show ?thesis by (simp add: m)
    qed
    from avl_delete_root [OF Node.prems(3) this] have
      "\<exists>t. avl_delete cmp n (Node l n r h) = Some t \<and> shrunk (Node l n r h) t \<and> inorder t = inorder l @ inorder r" by blast
    moreover have "a \<noteq> n" if "a \<in> set (inorder l) \<union> set (inorder r)" for a
      using that above_left(3) [OF Node.prems(1) s(3), of a] below_right(3) [OF Node.prems(1) s(3), of a] self [OF s(3)] by auto
    then have "filter (\<lambda>a. a \<noteq> n) (inorder l @ n # inorder r) = inorder l @ inorder r" by (simp add: filter_id_conv)
    ultimately show ?thesis using 1 by simp
  next
    case 2
    from Node.IH(2) [OF s(2) Node.prems(2) s(5)] obtain r' where r': "avl_delete cmp x r = Some r'" "shrunk r r'"
      "inorder r' = filter (\<lambda>a. a \<noteq> x) (inorder r)" by blast
    from avl_shrink_right [OF Node.prems(3) r'(2), of n h] obtain t where
      t: "avl_rebalance (Node l n r' h) = Some t" "shrunk (Node l n r h) t" "inorder t = inorder l @ n # inorder r'" by blast
    have "filter (\<lambda>a. a \<noteq> x) (inorder l) = inorder l"
      using above_left(1) [OF Node.prems(1,2)] 2 self [OF Node.prems(2)] by (fastforce simp: filter_id_conv)
    with 2 r' t show ?thesis by simp
  next
    case 3
    from Node.IH(1) [OF s(1) Node.prems(2) s(4)] obtain l' where l': "avl_delete cmp x l = Some l'" "shrunk l l'"
      "inorder l' = filter (\<lambda>a. a \<noteq> x) (inorder l)" by blast
    from avl_shrink_left [OF Node.prems(3) l'(2), of n h] obtain t where
      t: "avl_rebalance (Node l' n r h) = Some t" "shrunk (Node l n r h) t" "inorder t = inorder l' @ n # inorder r" by blast
    have "filter (\<lambda>a. a \<noteq> x) (inorder r) = inorder r"
      using below_right(1) [OF Node.prems(1,2)] 3 self [OF Node.prems(2)] by (fastforce simp: filter_id_conv)
    with 3 l' t show ?thesis by simp
  qed
qed (auto simp: shrunk_def)

lemma lookup_find:
  assumes "avl_sorted cmp ok (inorder t)" "ok x"
  shows "avl_lookup cmp x t = find (\<lambda>a. cmp x a = 0) (inorder t)"
  using assms
proof (induction t)
  case (Node l n r h)
  have "find (\<lambda>a. cmp x a = 0) (inorder l) = None" if "cmp x n \<ge> 0"
    using above_left [OF Node.prems that] by (fastforce simp: find_None_iff)
  moreover have "find (\<lambda>a. cmp x a = 0) (inorder r) = None" if "cmp x n \<le> 0"
    using below_right [OF Node.prems that] by (fastforce simp: find_None_iff)
  ultimately show ?case using Node
    by (auto simp: find_append Let_def split: option.splits)
qed auto

lemma search_find:
  assumes "avl_sorted cmp ok (inorder t)" "ok x"
  shows "avl_search_internal cmp x t = find (\<lambda>a. cmp x a \<le> 0) (inorder t)"
  using assms
proof (induction t)
  case (Node l n r h)
  have "find (\<lambda>a. cmp x a \<le> 0) (inorder l) = None" if "cmp x n \<ge> 0"
    using above_left [OF Node.prems that] by (fastforce simp: find_None_iff)
  moreover have "cmp y n < 0" if "find (\<lambda>a. cmp x a \<le> 0) (inorder l) = Some y" for y
    using that Node.prems by (auto simp: find_Some_iff)
  ultimately show ?case using Node
    by (auto simp: find_append Let_def split: option.splits)
qed auto

lemma check_tree: "avl_tree cmp ok t \<Longrightarrow> t \<noteq> Null \<Longrightarrow> avl_check cmp t"
proof (induction t)
  case Node: (Node l n r h)
  have n: "ok n" "cmp n n = 0" using Node.prems self by (auto simp: avl_tree_def)
  have s: "avl_sorted cmp ok (inorder (Node l n r h))" using Node.prems by (simp add: avl_tree_def)
  have l: "case l of Null \<Rightarrow> True | Node _ y _ _ \<Rightarrow> cmp n y \<ge> 0 \<and> avl_check cmp l"
  proof (cases l)
    case (Node a y b k)
    then have "cmp n y > 0" using above_left(2) [OF s n(1), of y] n(2) by simp
    moreover have "avl_check cmp l" using Node.IH(1) Node.prems \<open>l = Node a y b k\<close> by (simp add: avl_tree_def)
    ultimately show ?thesis using Node by simp
  qed simp
  have r: "case r of Null \<Rightarrow> True | Node _ y _ _ \<Rightarrow> cmp n y \<le> 0 \<and> avl_check cmp r"
  proof (cases r)
    case (Node a y b k)
    then have "cmp n y < 0" using below_right(1) [OF s n(1), of y] n(2) by simp
    moreover have "avl_check cmp r" using Node.IH(2) Node.prems \<open>r = Node a y b k\<close> by (simp add: avl_tree_def)
    ultimately show ?thesis using Node by simp
  qed simp
  have "avl_ok (Node l n r h)" using Node.prems by (simp add: avl_tree_def)
  then show ?case using l r by auto
qed auto

end

section \<open>What the iterator still has to yield\<close>

definition it_in :: "'a avl_it \<Rightarrow> 'a \<Rightarrow> bool" where
  "it_in it a = (it_started it a \<and> \<not> it_past_end it a)"

fun it_slot :: "'a avl_it \<Rightarrow> 'a avl_node \<times> avl_it_d \<Rightarrow> 'a list" where
  "it_slot it (Null, d) = []"
| "it_slot it (Node l x r h, D0) = filter (it_in it) (inorder (Node l x r h))"
| "it_slot it (Node l x r h, D1) = x # filter (it_in it) (inorder r)"
| "it_slot it (Node l x r h, D2) = filter (it_in it) (inorder r)"
| "it_slot it (Node l x r h, D3) = []"

definition it_rest :: "'a avl_it \<Rightarrow> 'a list" where
  "it_rest it = concat (map (it_slot it) (it_is it))"

text \<open>The slots hold trees that fit on the remaining slots of the stack.\<close>

fun it_stack_ok :: "('a avl_node \<Rightarrow> bool) \<Rightarrow> ('a avl_node \<times> avl_it_d) list \<Rightarrow> bool" where
  "it_stack_ok P [] = True"
| "it_stack_ok P ((n, d) # below) =
     (n \<noteq> Null \<and> P n \<and> avl_height n + int (length below) \<le> int AVL_MAXDEPTH \<and> it_stack_ok P below)"

lemma it_fields [simp]:
  "it_in (it\<lparr>it_is := st\<rparr>) = it_in it"
  "it_slot (it\<lparr>it_is := st\<rparr>) = it_slot it"
proof -
  show i: "it_in (it\<lparr>it_is := st\<rparr>) = it_in it"
    by (rule ext) (simp add: it_in_def it_started_def it_past_end_def split: option.split)
  show "it_slot (it\<lparr>it_is := st\<rparr>) = it_slot it"
    by (rule ext, rename_tac s, case_tac "(it, s)" rule: it_slot.cases) (simp_all add: i)
qed

lemma it_slot_D0: "n \<noteq> Null \<Longrightarrow> it_slot it (n, D0) = filter (it_in it) (inorder n)"
  by (cases n) auto

text \<open>What holds of the state of an iterator over trees sorted by \<open>cmp\<close>.\<close>

definition it_ok :: "('a \<Rightarrow> 'a \<Rightarrow> int) \<Rightarrow> ('a \<Rightarrow> bool) \<Rightarrow> 'a avl_it \<Rightarrow> bool" where
  "it_ok cmp ok it =
     (it_cmp it = cmp \<and> (\<forall>s. it_s it = Some s \<longrightarrow> ok s) \<and> (\<forall>e. it_e it = Some e \<longrightarrow> ok e)
      \<and> it_stack_ok (avl_tree cmp ok) (it_is it))"

text \<open>One call yields the first element that is left, or null when none is.\<close>

definition it_yields :: "('a avl_it \<Rightarrow> bool) \<Rightarrow> 'a avl_it \<Rightarrow> bool" where
  "it_yields P it =
     (\<exists>it'. avl_it_next it = Some (case it_rest it of [] \<Rightarrow> None | a # _ \<Rightarrow> Some a, it')
        \<and> P it' \<and> it_rest it' = tl (it_rest it))"

lemma it_yields_step:
  assumes "avl_it_next it = avl_it_next it'" "it_rest it' = it_rest it" "it_yields P it'"
  shows "it_yields P it"
  using assms by (simp add: it_yields_def)

context avl_order
begin

lemma range_above:
  assumes "it_ok cmp ok it" "avl_sorted cmp ok (inorder (Node l n r h))"
  shows "it_past_end it n \<Longrightarrow> filter (it_in it) (n # inorder r) = []"
    and "\<not> it_started it n \<Longrightarrow> filter (it_in it) (inorder l @ [n]) = []"
proof -
  have n: "ok n" using assms(2) by simp
  show "filter (it_in it) (n # inorder r) = []" if past: "it_past_end it n"
  proof -
    have "it_past_end it a" if a: "a \<in> set (inorder r)" for a
    proof -
      obtain e where e: "it_e it = Some e" "ok e" "cmp n e \<ge> 0"
        using past assms(1) by (auto simp: it_past_end_def it_ok_def split: option.splits if_splits)
      have "ok a" "cmp n a < 0" using assms(2) a avl_sorted_ok by auto
      moreover have "cmp e n \<le> 0" using e flip [OF n e(2)] pos_flip [OF e(2) n] by linarith
      ultimately have "cmp a e > 0" using le_trans [OF e(2) n \<open>ok a\<close>] flip [OF e(2) \<open>ok a\<close>] by simp
      then show ?thesis using e assms(1) by (simp add: it_past_end_def it_ok_def)
    qed
    with past show ?thesis by (auto simp: filter_empty_conv it_in_def)
  qed
  show "filter (it_in it) (inorder l @ [n]) = []" if before: "\<not> it_started it n"
  proof -
    have "\<not> it_started it a" if a: "a \<in> set (inorder l)" for a
    proof -
      obtain s where s: "it_s it = Some s" "ok s" "cmp n s < 0"
        using before assms(1) by (auto simp: it_started_def it_ok_def split: option.splits)
      have "ok a" "cmp a n < 0" using assms(2) a avl_sorted_ok by auto
      then have "cmp a s < 0" using trans [OF _ n s(2)] s(3) by blast
      then show ?thesis using s assms(1) by (simp add: it_started_def it_ok_def)
    qed
    with before show ?thesis by (auto simp: filter_empty_conv it_in_def)
  qed
qed

lemma stack_top:
  assumes "it_ok cmp ok it" "it_is it = (Node l n r h, d) # below"
  shows "it_ok cmp ok (it\<lparr>it_is := (Node l n r h, d') # below\<rparr>)"
    and "it_ok cmp ok (it\<lparr>it_is := below\<rparr>)"
    and "avl_sorted cmp ok (inorder (Node l n r h))"
    and "r \<noteq> Null \<Longrightarrow> it_ok cmp ok (it\<lparr>it_is := (r, D0) # below\<rparr>)"
    and "l \<noteq> Null \<Longrightarrow> it_ok cmp ok (it\<lparr>it_is := (l, D0) # (Node l n r h, d') # below\<rparr>)
           \<and> length (it_is it) < AVL_MAXDEPTH"
proof -
  have t: "avl_tree cmp ok (Node l n r h)" "h + int (length below) \<le> int AVL_MAXDEPTH"
    using assms by (auto simp: it_ok_def)
  show "it_ok cmp ok (it\<lparr>it_is := (Node l n r h, d') # below\<rparr>)" "it_ok cmp ok (it\<lparr>it_is := below\<rparr>)"
    using assms by (auto simp: it_ok_def)
  show "avl_sorted cmp ok (inorder (Node l n r h))" using t by (simp add: avl_tree_def)
  show "r \<noteq> Null \<Longrightarrow> it_ok cmp ok (it\<lparr>it_is := (r, D0) # below\<rparr>)"
    using assms t by (auto simp: it_ok_def avl_tree_def)
  assume l: "l \<noteq> Null"
  then have "0 < avl_height l" "h \<ge> avl_height l + 1" using t avl_height_pos [of l] by (auto simp: avl_tree_def)
  then show "it_ok cmp ok (it\<lparr>it_is := (l, D0) # (Node l n r h, d') # below\<rparr>) \<and> length (it_is it) < AVL_MAXDEPTH"
    using assms t l by (auto simp: it_ok_def avl_tree_def)
qed

lemma next_yields: "it_ok cmp ok it \<Longrightarrow> it_yields (it_ok cmp ok) it"
proof (induction it rule: measure_induct_rule [of "\<lambda>it. sum_list (map it_slot_work (it_is it))"])
  case (less it)
  note ok = less.prems
  have step: "it_yields (it_ok cmp ok) it"
    if "avl_it_next it = avl_it_next it'" "it_ok cmp ok it'" "it_rest it' = it_rest it"
      "sum_list (map it_slot_work (it_is it')) < sum_list (map it_slot_work (it_is it))" for it'
    using it_yields_step [OF that(1,3)] less.IH [OF that(4,2)] by blast
  show ?case
  proof (cases "it_is it")
    case Nil
    then show ?thesis using ok
      by (auto simp: it_yields_def it_rest_def avl_it_next.simps [of it])
  next
    case (Cons top below)
    moreover from ok this obtain l n r h d where "top = (Node l n r h, d)"
      by (cases top; rename_tac t d, case_tac t) (auto simp: it_ok_def)
    ultimately have st: "it_is it = (Node l n r h, d) # below" by simp
    note top = stack_top [OF ok st]
    note range = range_above [OF ok top(3)]
    show ?thesis
    proof (cases d)
      case D0
      define d' where "d' = (if it_past_end it n then D3 else if it_started it n then D1 else D2)"
      show ?thesis
      proof (cases "it_started it n \<and> l \<noteq> Null")
        case True
        then have "it_slot it (l, D0) @ it_slot it (Node l n r h, d') = it_slot it (Node l n r h, D0)"
          using range(1) by (auto simp: d'_def it_slot_D0 it_in_def)
        then show ?thesis
          by (intro step [of "it\<lparr>it_is := (l, D0) # (Node l n r h, d') # below\<rparr>"])
            (use st D0 True top(5) in \<open>auto simp: d'_def it_rest_def it_slot_work_D0 avl_it_next.simps [of it] simp flip: append_assoc\<close>)
      next
        case False
        then have "it_slot it (Node l n r h, d') = it_slot it (Node l n r h, D0)"
          using range by (auto simp: d'_def it_in_def)
        then show ?thesis
          by (intro step [of "it\<lparr>it_is := (Node l n r h, d') # below\<rparr>"])
            (use st D0 False top(1) in \<open>auto simp: d'_def it_rest_def avl_it_next.simps [of it]\<close>)
      qed
    next
      case D1
      then show ?thesis using st top(1) [of D2]
        by (auto simp: it_yields_def it_rest_def avl_it_next.simps [of it])
    next
      case D2
      show ?thesis
      proof (cases "r = Null")
        case True
        show ?thesis
          by (rule step [of "it\<lparr>it_is := (Node l n r h, D3) # below\<rparr>"])
            (use st D2 True top(1) in \<open>auto simp: it_rest_def avl_it_next.simps [of it]\<close>)
      next
        case False
        show ?thesis
          by (rule step [of "it\<lparr>it_is := (r, D0) # below\<rparr>"])
            (use st D2 False top(4) in \<open>auto simp: it_rest_def it_slot_D0 it_slot_work_D0 avl_it_next.simps [of it]\<close>)
      qed
    next
      case D3
      show ?thesis
        by (rule step [of "it\<lparr>it_is := below\<rparr>"])
          (use st D3 top(2) in \<open>auto simp: it_rest_def avl_it_next.simps [of it]\<close>)
    qed
  qed
qed

lemma drain_rest: "it_ok cmp ok it \<Longrightarrow> avl_it_drain it = Some (it_rest it)"
proof (induction "it_rest it" arbitrary: it)
  case Nil
  then obtain it' where "avl_it_next it = Some (None, it')"
    using next_yields [of it] by (auto simp: it_yields_def)
  then show ?case using Nil(1) by (subst avl_it_drain.simps) simp
next
  case (Cons a xs)
  then obtain it' where it': "avl_it_next it = Some (Some a, it')" "it_ok cmp ok it'" "it_rest it' = xs"
    using next_yields [of it] by (auto simp: it_yields_def simp flip: Cons(2))
  with Cons(1) [of it'] show ?case using Cons(2) by (subst avl_it_drain.simps) simp
qed

end

section \<open>The height of a tree\<close>

lemma avl_size_height:
  "avl_ok t \<Longrightarrow> 2 ^ (nat (avl_height t) div 2) \<le> length (inorder t) + 1"
proof (induction t)
  case (Node l n r h)
  define k where "k = nat (h - 2) div 2"
  have hl: "h - 2 \<le> avl_height l" and hr: "h - 2 \<le> avl_height r" using Node.prems by auto
  have h1: "1 \<le> h" using avl_height_pos [OF Node.prems] by simp
  have l: "2 ^ k \<le> length (inorder l) + 1"
  proof -
    have "k \<le> nat (avl_height l) div 2" using hl unfolding k_def by (intro div_le_mono) simp
    then have "(2::nat) ^ k \<le> 2 ^ (nat (avl_height l) div 2)" by (rule power_increasing) simp
    also have "\<dots> \<le> length (inorder l) + 1" using Node by simp
    finally show ?thesis .
  qed
  have r: "2 ^ k \<le> length (inorder r) + 1"
  proof -
    have "k \<le> nat (avl_height r) div 2" using hr unfolding k_def by (intro div_le_mono) simp
    then have "(2::nat) ^ k \<le> 2 ^ (nat (avl_height r) div 2)" by (rule power_increasing) simp
    also have "\<dots> \<le> length (inorder r) + 1" using Node by simp
    finally show ?thesis .
  qed
  show ?case
  proof (cases "h = 1")
    case False
    with h1 have "nat h = nat (h - 2) + 2" by simp
    then have "nat h div 2 = Suc k" by (simp add: k_def)
    with l r show ?thesis by simp
  qed simp
qed simp

lemma avl_fits_stack:
  assumes "avl_ok t" "length (inorder t) < 2 ^ 32 - 1"
  shows "avl_height t \<le> int AVL_MAXDEPTH"
proof (rule ccontr)
  assume "\<not> ?thesis"
  then have "32 \<le> nat (avl_height t) div 2" by (simp add: AVL_MAXDEPTH_def)
  then have "(2::nat) ^ 32 \<le> 2 ^ (nat (avl_height t) div 2)" by (rule power_increasing) simp
  also have "\<dots> \<le> length (inorder t) + 1" by (rule avl_size_height [OF assms(1)])
  finally show False using assms(2) by simp
qed

section \<open>The operations on whole trees\<close>

context avl_order
begin

lemma insert_tree:
  assumes "avl_tree cmp ok t" "ok x" "\<forall>a \<in> set (inorder t). cmp x a \<noteq> 0"
  shows "\<exists>t'. avl_insert cmp x t = Some t' \<and> avl_tree cmp ok t'
           \<and> inorder t' = filter (\<lambda>a. cmp a x < 0) (inorder t) @ x # filter (\<lambda>a. cmp x a < 0) (inorder t)"
proof -
  obtain t' where t': "avl_insert cmp x t = Some t'" "avl_ok t'"
    using avl_insert_ok [of t cmp x] assms(1) by (auto simp: avl_tree_def)
  have i: "inorder t' = filter (\<lambda>a. cmp a x < 0) (inorder t) @ x # filter (\<lambda>a. cmp x a < 0) (inorder t)"
    using insert_inorder [OF _ assms(2,3) t'(1)] assms(1) by (simp add: avl_tree_def)
  have "avl_sorted cmp ok (inorder t')"
    unfolding i using assms(1) by (intro insert_sorted assms(2)) (simp add: avl_tree_def)
  with t' i show ?thesis by (auto simp: avl_tree_def)
qed

lemma delete_tree:
  assumes "avl_tree cmp ok t" "ok x"
  shows "\<exists>t'. avl_delete cmp x t = Some t' \<and> avl_tree cmp ok t' \<and> inorder t' = filter (\<lambda>a. a \<noteq> x) (inorder t)"
proof -
  from assms(1) have "avl_sorted cmp ok (inorder t)" "avl_ok t" by (simp_all add: avl_tree_def)
  from delete_inorder [OF this(1) assms(2) this(2)] this(1) show ?thesis
    by (auto simp: avl_tree_def shrunk_def avl_sorted_filter)
qed

lemma drain_range:
  assumes "avl_tree cmp ok t" "\<forall>a \<in> set_option s \<union> set_option e. ok a" "length (inorder t) < 2 ^ 32 - 1"
  shows "avl_it_drain (avl_it_init2 t s e ince cmp) =
         Some (filter (\<lambda>a. (\<forall>b \<in> set_option s. cmp a b \<ge> 0)
                         \<and> (\<forall>b \<in> set_option e. if ince then cmp a b \<le> 0 else cmp a b < 0)) (inorder t))"
proof -
  let ?it = "avl_it_init2 t s e ince cmp"
  have "it_ok cmp ok ?it"
    using assms avl_fits_stack [of t] by (auto simp: it_ok_def avl_it_init2_def avl_tree_def)
  from drain_rest [OF this]
  have "avl_it_drain ?it = Some (filter (it_in ?it) (inorder t))"
    by (cases t) (auto simp: it_rest_def avl_it_init2_def)
  also have "it_in ?it = (\<lambda>a. (\<forall>b \<in> set_option s. cmp a b \<ge> 0)
      \<and> (\<forall>b \<in> set_option e. if ince then cmp a b \<le> 0 else cmp a b < 0))"
    by (rule ext) (auto simp: it_in_def it_started_def it_past_end_def avl_it_init2_def split: option.splits)
  finally show ?thesis .
qed

end

section \<open>Augmentation\<close>

fun aug :: "('a avl_node \<Rightarrow> 'a) \<Rightarrow> 'a avl_node \<Rightarrow> bool" where
  "aug fixup Null = True"
| "aug fixup (Node l x r h) = (aug fixup l \<and> aug fixup r \<and> fixup (Node l x r h) = x)"

lemma map_avl_node_simps [simp]:
  "avl_height (map_avl_node f t) = avl_height t"
  "avl_balance (map_avl_node f t) = avl_balance t"
  "link (map_avl_node f t) d = map_avl_node f (link t d)"
  "set_link (map_avl_node f t) d (map_avl_node f c) = map_avl_node f (set_link t d c)"
  "map_avl_node f (avl_reheight l x r) = avl_reheight (map_avl_node f l) (f x) (map_avl_node f r)"
proof -
  show h: "avl_height (map_avl_node f t) = avl_height t" for t by (cases t) auto
  show "avl_balance (map_avl_node f t) = avl_balance t" by (cases t) (auto simp: h)
  show "link (map_avl_node f t) d = map_avl_node f (link t d)" by (cases t) auto
  show "set_link (map_avl_node f t) d (map_avl_node f c) = map_avl_node f (set_link t d c)" by (cases t) auto
  show "map_avl_node f (avl_reheight l x r) = avl_reheight (map_avl_node f l) (f x) (map_avl_node f r)"
    by (simp add: avl_reheight_def h)
qed

text \<open>A fixup that keeps the part \<open>core\<close> of a structure the tree is ordered by.\<close>

definition avl_fixup :: "('a avl_node \<Rightarrow> 'a) \<Rightarrow> ('a \<Rightarrow> 'k) \<Rightarrow> bool" where
  "avl_fixup fixup core =
     (\<forall>l x r h. core (fixup (Node l x r h)) = core x
        \<and> fixup (Node l (fixup (Node l x r h)) r h) = fixup (Node l x r h))"

lemma map_reheight: "avl_fixup fixup core \<Longrightarrow> map_avl_node core (aavl_reheight fixup l x r) = avl_reheight (map_avl_node core l) (core x) (map_avl_node core r)"
  by (simp add: aavl_reheight_def avl_reheight_def avl_fixup_def)

lemma aug_reheight: "avl_fixup fixup core \<Longrightarrow> aug fixup l \<Longrightarrow> aug fixup r \<Longrightarrow> aug fixup (aavl_reheight fixup l x r)"
  by (simp add: aavl_reheight_def avl_reheight_def avl_fixup_def)

lemma map_rotate:
  "avl_fixup fixup core \<Longrightarrow> avl_rotate (map_avl_node core n) d = map_option (map_avl_node core) (aavl_rotate fixup n d)"
  by (cases "(fixup, n, d)" rule: aavl_rotate.cases) (auto simp: map_reheight)

lemma aug_rotate:
  assumes "avl_fixup fixup core" "aavl_rotate fixup n d = Some t" "aug fixup (link n False)" "aug fixup (link n True)"
  shows "aug fixup t"
  using assms(2-4) by (cases "(fixup, n, d)" rule: aavl_rotate.cases) (auto intro!: aug_reheight [OF assms(1)])

lemma aavl_balance: "avl_balance (aavl_reheight fixup l x r) = avl_balance (avl_reheight l x r)"
  by (simp add: aavl_reheight_def avl_reheight_def)

lemma map_rebalance:
  assumes fx: "avl_fixup fixup core"
  shows "avl_rebalance (map_avl_node core n) = map_option (map_avl_node core) (aavl_rebalance fixup n)"
proof (cases n)
  case (Node l x r h)
  define N where "N = aavl_reheight fixup l x r"
  have M: "avl_reheight (map_avl_node core l) (core x) (map_avl_node core r) = map_avl_node core N"
    by (simp add: N_def map_reheight [OF fx])
  have b: "map_option (map_avl_node core) c \<bind> (\<lambda>c. avl_rotate (set_link (map_avl_node core N) d c) e)
    = map_option (map_avl_node core) (c \<bind> (\<lambda>c. aavl_rotate fixup (set_link N d c) e))" for c d e
    by (cases c) (simp_all add: map_rotate [OF fx])
  show ?thesis
    unfolding Node avl_rebalance.simps aavl_rebalance.simps avl_node.map M N_def [symmetric] Let_def
      map_avl_node_simps map_rotate [OF fx]
    by (simp add: map_rotate [OF fx] b del: map_avl_node_simps(4))
qed simp

lemma aug_rebalance:
  assumes "aavl_rebalance fixup (Node l x r h) = Some t" and fx: "avl_fixup fixup core" and "aug fixup l" "aug fixup r"
  shows "aug fixup t"
proof -
  define N where "N = aavl_reheight fixup l x r"
  have N: "aug fixup N" "link N False = l" "link N True = r"
    using assms aug_reheight [OF fx] by (auto simp: N_def aavl_reheight_def avl_reheight_def)
  have ll: "aug fixup (link (link N d) e)" for d e
    using assms(3,4) N(2,3) by (cases d; cases "link N d"; cases e) auto
  have sl: "aug fixup (link (set_link N d c) e)" if "aug fixup c" for c d e
    using that assms(3,4) N(2,3) by (cases N; cases d; cases e) auto
  show ?thesis
    using assms(1) N assms(3,4) unfolding aavl_rebalance.simps Let_def N_def [symmetric]
    by (auto simp: bind_eq_Some_conv split: if_splits dest!: aug_rotate [OF fx] intro!: sl ll)
qed

lemma insert_augments:
  assumes fx: "avl_fixup fixup core" and cmp: "\<And>a b. cmp a b = kcmp (core a) (core b)"
  shows "avl_insert kcmp (core x) (map_avl_node core t) = map_option (map_avl_node core) (aavl_insert fixup cmp x t)"
    and "aug fixup t \<Longrightarrow> aavl_insert fixup cmp x t = Some t' \<Longrightarrow> aug fixup t'"
proof -
  show "avl_insert kcmp (core x) (map_avl_node core t) = map_option (map_avl_node core) (aavl_insert fixup cmp x t)"
  proof (induction t)
    case (Node l n r h)
    have b: "bind (map_option (map_avl_node core) c) (\<lambda>c. avl_rebalance (f c))
      = map_option (map_avl_node core) (bind c (\<lambda>c. aavl_rebalance fixup (g c)))"
      if "\<And>c. f (map_avl_node core c) = map_avl_node core (g c)" for c f g
      by (cases c) (simp_all add: that map_rebalance [OF fx])
    show ?case by (simp add: Node cmp del: aavl_rebalance.simps) (intro conjI impI b; simp)
  qed (use fx in \<open>simp add: avl_fixup_def\<close>)
  show "aug fixup t \<Longrightarrow> aavl_insert fixup cmp x t = Some t' \<Longrightarrow> aug fixup t'"
  proof (induction t arbitrary: t')
    case Null
    then show ?case using fx by (auto simp: avl_fixup_def)
  next
    case (Node l n r h)
    show ?case
    proof (cases "cmp x n > 0")
      case True
      with Node.prems obtain r' where r': "aavl_insert fixup cmp x r = Some r'" "aavl_rebalance fixup (Node l n r' h) = Some t'"
        by (auto simp: bind_eq_Some_conv simp del: aavl_rebalance.simps)
      from aug_rebalance [OF r'(2) fx] Node.IH(2) [OF _ r'(1)] Node.prems(1) show ?thesis by simp
    next
      case False
      with Node.prems obtain l' where l': "aavl_insert fixup cmp x l = Some l'" "aavl_rebalance fixup (Node l' n r h) = Some t'"
        by (auto simp: bind_eq_Some_conv simp del: aavl_rebalance.simps)
      from aug_rebalance [OF l'(2) fx] Node.IH(1) [OF _ l'(1)] Node.prems(1) show ?thesis by simp
    qed
  qed
qed

section \<open>Properties\<close>

text \<open>
  C17: inserting an element whose key is not in a tree never dereferences a null pointer, leaves
  the tree sorted and balanced with the right stored heights, and puts the element between the
  smaller and the greater ones in the order of the tree.
\<close>

theorem avl_insert_refines:
  assumes "avl_order cmp ok" "avl_tree cmp ok t" "ok x" "\<forall>a \<in> set (inorder t). cmp x a \<noteq> 0"
  shows "\<exists>t'. avl_insert cmp x t = Some t' \<and> avl_tree cmp ok t'
           \<and> inorder t' = filter (\<lambda>a. cmp a x < 0) (inorder t) @ x # filter (\<lambda>a. cmp x a < 0) (inorder t)"
  by (rule avl_order.insert_tree [OF assms])

theorem avl_insert_refines_witness:
  "\<exists>t'. avl_insert strcmp ''m'' (Node Null ''c'' (Node Null ''x'' Null 1) 2) = Some t' \<and> avl_tree strcmp nul_free t'
     \<and> inorder t' = filter (\<lambda>a. strcmp a ''m'' < 0) [''c'', ''x''] @ ''m'' # filter (\<lambda>a. strcmp ''m'' a < 0) [''c'', ''x'']"
proof -
  have "avl_tree strcmp nul_free (Node Null ''c'' (Node Null ''x'' Null 1) 2)" "nul_free ''m''"
    "\<forall>a \<in> set (inorder (Node Null ''c'' (Node Null ''x'' Null 1) 2)). strcmp ''m'' a \<noteq> 0"
    by (simp_all add: avl_tree_def uchar_def)
  from avl_insert_refines [OF str.avl_order_axioms this] show ?thesis by simp
qed

text \<open>
  C18: deleting a node never dereferences a null pointer, leaves the tree sorted and balanced with
  the right stored heights, and removes that node and no other; a node that is not in the tree
  leaves the elements as they are.
\<close>

theorem avl_delete_refines:
  assumes "avl_order cmp ok" "avl_tree cmp ok t" "ok x"
  shows "\<exists>t'. avl_delete cmp x t = Some t' \<and> avl_tree cmp ok t' \<and> inorder t' = filter (\<lambda>a. a \<noteq> x) (inorder t)"
  by (rule avl_order.delete_tree [OF assms])

theorem avl_delete_refines_witness:
  "\<exists>t'. avl_delete strcmp ''c'' (Node (Node Null ''a'' Null 1) ''c'' (Node Null ''x'' Null 1) 2) = Some t'
     \<and> avl_tree strcmp nul_free t' \<and> inorder t' = [''a'', ''x'']"
proof -
  have "avl_tree strcmp nul_free (Node (Node Null ''a'' Null 1) ''c'' (Node Null ''x'' Null 1) 2)" "nul_free ''c''"
    by (simp_all add: avl_tree_def uchar_def)
  from avl_delete_refines [OF str.avl_order_axioms this] show ?thesis by simp
qed

text \<open>
  C19: in a sorted tree \<open>avl_lookup\<close> returns the element that compares equal to the probe, and
  \<open>avl_search\<close> the first element in the order of the tree that is not smaller than the probe, each
  null exactly when there is no such element.
\<close>

theorem avl_search_least:
  assumes "avl_order cmp ok" "avl_tree cmp ok t" "ok x"
  shows "avl_lookup cmp x t = find (\<lambda>a. cmp x a = 0) (inorder t)
         \<and> avl_search cmp x t = find (\<lambda>a. cmp x a \<le> 0) (inorder t)"
  using avl_order.lookup_find [OF assms(1) _ assms(3)] avl_order.search_find [OF assms(1) _ assms(3)] assms(2)
  by (simp add: avl_tree_def avl_search_def)

theorem avl_search_least_witness:
  "avl_search strcmp ''m'' (Node (Node Null ''a'' Null 1) ''c'' (Node Null ''x'' Null 1) 2) = Some ''x''
   \<and> avl_lookup strcmp ''m'' (Node (Node Null ''a'' Null 1) ''c'' (Node Null ''x'' Null 1) 2) = None"
proof -
  have "avl_tree strcmp nul_free (Node (Node Null ''a'' Null 1) ''c'' (Node Null ''x'' Null 1) 2)" "nul_free ''m''"
    by (simp_all add: avl_tree_def uchar_def)
  from avl_search_least [OF str.avl_order_axioms this] show ?thesis by (simp add: uchar_def)
qed

text \<open>
  C20: an iterator over a sorted, balanced tree of fewer than \<open>2 ^ 32 - 1\<close> nodes passes on exactly
  the elements between its start and its end, in order, the end itself only when \<open>ince\<close> is set,
  then ends; its stack of 64 slots never overflows.
\<close>

theorem avl_it_range:
  assumes "avl_order cmp ok" "avl_tree cmp ok t" "\<forall>a \<in> set_option s \<union> set_option e. ok a"
    "length (inorder t) < 2 ^ 32 - 1"
  shows "avl_it_drain (avl_it_init2 t s e ince cmp) =
         Some (filter (\<lambda>a. (\<forall>b \<in> set_option s. cmp a b \<ge> 0)
                         \<and> (\<forall>b \<in> set_option e. if ince then cmp a b \<le> 0 else cmp a b < 0)) (inorder t))"
  by (rule avl_order.drain_range [OF assms])

theorem avl_it_range_witness:
  "avl_it_drain (avl_it_init2 (Node (Node Null ''a'' Null 1) ''c'' (Node Null ''x'' Null 1) 2) (Some ''b'') None False strcmp)
     = Some [''c'', ''x'']"
proof -
  have "avl_tree strcmp nul_free (Node (Node Null ''a'' Null 1) ''c'' (Node Null ''x'' Null 1) 2)"
    "\<forall>a \<in> set_option (Some ''b'') \<union> set_option None. nul_free a"
    "length (inorder (Node (Node Null ''a'' Null 1) ''c'' (Node Null ''x'' Null 1) 2)) < 2 ^ 32 - 1"
    by (simp_all add: avl_tree_def uchar_def)
  from avl_it_range [OF str.avl_order_axioms this, of False] show ?thesis by (simp add: uchar_def)
qed

text \<open>
  A balanced tree of height \<open>h\<close> has at least \<open>2 ^ (h div 2) - 1\<close> nodes, so that every path
  from the root is logarithmic in the number of nodes, and \<open>avl_check\<close> accepts every nonempty
  sorted and balanced tree.
\<close>

lemma avl_depth_check:
  assumes "avl_order cmp ok" "avl_tree cmp ok t"
  shows "2 ^ (nat (avl_height t) div 2) \<le> length (inorder t) + 1 \<and> (t = Null \<or> avl_check cmp t)"
  using avl_order.check_tree [OF assms] avl_size_height [of t] assms(2) by (auto simp: avl_tree_def)

text \<open>
  C21: for a fixup that keeps the part of the structure the tree is ordered by and that is a
  function of the node and its children, \<open>aavl_insert\<close> builds the tree \<open>avl_insert\<close> builds, with the
  computed data of every node up to date.
\<close>

theorem aavl_insert_augments:
  assumes "avl_fixup fixup core" "\<And>a b. cmp a b = kcmp (core a) (core b)" "aug fixup t" "avl_ok t"
  shows "\<exists>t'. aavl_insert fixup cmp x t = Some t' \<and> aug fixup t'
           \<and> avl_insert kcmp (core x) (map_avl_node core t) = Some (map_avl_node core t')"
proof -
  have "avl_ok (map_avl_node core t)" using assms(4) by (induction t) auto
  from avl_insert_ok [OF this, of kcmp "core x"] obtain u
    where u: "avl_insert kcmp (core x) (map_avl_node core t) = Some u" by blast
  have "Some u = map_option (map_avl_node core) (aavl_insert fixup cmp x t)"
    unfolding u [symmetric] using insert_augments(1) [OF assms(1), of cmp kcmp x t] assms(2) by blast
  then obtain t' where t': "aavl_insert fixup cmp x t = Some t'" "u = map_avl_node core t'"
    by (cases "aavl_insert fixup cmp x t") auto
  moreover have "aug fixup t'" using insert_augments(2) [OF assms(1), of cmp kcmp t x t'] assms(2,3) t'(1) by blast
  ultimately show ?thesis using u by simp
qed

text \<open>A fixup that keeps the number of nodes below a node beside its key.\<close>

fun count_fixup :: "(cstring \<times> nat) avl_node \<Rightarrow> cstring \<times> nat" where
  "count_fixup Null = ([], 0)"
| "count_fixup (Node l x r h) =
     (fst x, 1 + (case l of Null \<Rightarrow> 0 | Node _ y _ _ \<Rightarrow> snd y) + (case r of Null \<Rightarrow> 0 | Node _ y _ _ \<Rightarrow> snd y))"

theorem aavl_insert_augments_witness:
  "\<exists>t'. aavl_insert count_fixup (\<lambda>a b. strcmp (fst a) (fst b)) (''b'', 0) (Node Null (''a'', 1) Null 1) = Some t'
     \<and> aug count_fixup t' \<and> avl_insert strcmp ''b'' (Node Null ''a'' Null 1) = Some (map_avl_node fst t')"
proof -
  have "avl_fixup count_fixup fst" by (simp add: avl_fixup_def)
  moreover have "aug count_fixup (Node Null (''a'', 1) Null 1)" "avl_ok (Node Null (''a'', 1) Null 1)" by simp_all
  ultimately show ?thesis
    using aavl_insert_augments [of count_fixup fst "\<lambda>a b. strcmp (fst a) (fst b)" strcmp
        "Node Null (''a'', 1) Null 1" "(''b'', 0)"] by simp
qed

end
