(* ===== verification/Stringpool.thy ===== *)
theory Stringpool
  imports AvlSpec
begin

text \<open>
  String interning, \<open>src/util/lib/stringpool.c\<close>. An entry is identified by its index, which no
  other entry of its pool has, so that two entries are the same node exactly when they are equal;
  the pointer \<open>stringpool_get\<close> returns is modelled by the entry it points into. A string argument
  is the C string \<open>str\<close> without its terminating NUL and the length \<open>len\<close> the caller passes;
  \<open>None\<close> is a read behind the NUL, an overflow of the counter \<open>n\<close>, or a null pointer dereferenced
  in the tree.
\<close>

record stringpool_entry =
  se_str :: cstring
  se_len :: int
  se_index :: int

record stringpool =
  strs :: "stringpool_entry avl_node"
  sp_n :: int

definition stringpool_compare :: "stringpool_entry \<Rightarrow> stringpool_entry \<Rightarrow> int" where
  "stringpool_compare a b =
     (if se_len a \<noteq> se_len b then signed_take_bit 31 (se_len a - se_len b)
      else strncmp (nat (se_len a)) (se_str a) (se_str b))"

text \<open>The value of \<open>*len\<close> after the lookup, and the entry found; the probe \<open>s\<close> has no index.\<close>

definition stringpool_len :: "cstring \<Rightarrow> int \<Rightarrow> int" where
  "stringpool_len str len = (if len < 0 then int (length str) else len)"

definition stringpool_lookup :: "stringpool \<Rightarrow> cstring \<Rightarrow> int \<Rightarrow> int \<times> stringpool_entry option" where
  "stringpool_lookup pool str len =
     (let len = stringpool_len str len
      in (len, avl_lookup stringpool_compare \<lparr> se_str = str, se_len = len, se_index = -1 \<rparr> (strs pool)))"

definition stringpool_add :: "stringpool \<Rightarrow> cstring \<Rightarrow> int \<Rightarrow> (stringpool_entry \<times> stringpool) option" where
  "stringpool_add pool str len =
     (if sp_n pool = 2 ^ 31 - 1 \<or> len > int (length str) + 1 then None
      else let e = \<lparr> se_str = take (nat len) (str @ [CHR 0x00]), se_len = len, se_index = sp_n pool \<rparr>
           in map_option (\<lambda>t. (e, pool\<lparr> strs := t, sp_n := sp_n pool + 1 \<rparr>))
                (avl_insert stringpool_compare e (strs pool)))"

definition stringpool_get :: "stringpool \<Rightarrow> cstring \<Rightarrow> int \<Rightarrow> (stringpool_entry \<times> stringpool) option" where
  "stringpool_get pool str len =
     (case stringpool_lookup pool str len of
        (_, Some e) \<Rightarrow> Some (e, pool)
      | (len, None) \<Rightarrow> stringpool_add pool str len)"

definition stringpool_get_index :: "stringpool \<Rightarrow> cstring \<Rightarrow> int \<Rightarrow> (int \<times> stringpool) option" where
  "stringpool_get_index pool str len =
     (case stringpool_lookup pool str len of
        (_, Some e) \<Rightarrow> Some (se_index e, pool)
      | (len, None) \<Rightarrow> map_option (\<lambda>(e, p). (se_index e, p)) (stringpool_add pool str len))"

definition stringpool_search_index :: "stringpool \<Rightarrow> cstring \<Rightarrow> int \<Rightarrow> int" where
  "stringpool_search_index pool str len =
     (case stringpool_lookup pool str len of (_, Some e) \<Rightarrow> se_index e | (_, None) \<Rightarrow> -1)"

definition stringpool_new :: stringpool where
  "stringpool_new = \<lparr> strs = Null, sp_n = 0 \<rparr>"

text \<open>The entries \<open>stringpool_free\<close> passes to \<open>free\<close>, in that order.\<close>

definition stringpool_free :: "stringpool \<Rightarrow> stringpool_entry list option" where
  "stringpool_free pool =
     map_option (\<lambda>xs. fold (\<lambda>entry head. entry # head) xs [])
       (avl_it_drain (avl_it_init (strs pool) None None stringpool_compare))"

section \<open>The order of the entries\<close>

definition entry_ok :: "stringpool_entry \<Rightarrow> bool" where
  "entry_ok e = (nul_free (se_str e) \<and> se_len e = int (length (se_str e)) \<and> se_len e < 2 ^ 31)"

lemma stringpool_compare_ok:
  assumes "entry_ok a" "entry_ok b"
  shows "stringpool_compare a b =
    (if se_len a \<noteq> se_len b then se_len a - se_len b else strcmp (se_str a) (se_str b))"
proof -
  have "\<bar>se_len a - se_len b\<bar> < 2 ^ 31" using assms by (auto simp: entry_ok_def)
  then show ?thesis using assms by (simp add: stringpool_compare_def entry_ok_def signed_small strncmp_strcmp)
qed

interpretation pool: avl_order stringpool_compare entry_ok
proof
  fix a b c
  assume ok: "entry_ok a" "entry_ok b"
  then have n: "nul_free (se_str a)" "nul_free (se_str b)" by (auto simp: entry_ok_def)
  show "stringpool_compare a b < 0 \<longleftrightarrow> 0 < stringpool_compare b a"
    using strcmp_flip [OF n] by (auto simp: stringpool_compare_ok ok)
  assume c: "entry_ok c"
  then have nc: "nul_free (se_str c)" by (auto simp: entry_ok_def)
  show "stringpool_compare a b < 0 \<Longrightarrow> stringpool_compare b c < 0 \<Longrightarrow> stringpool_compare a c < 0"
    using strcmp_trans [OF n nc] by (auto simp: stringpool_compare_ok ok c split: if_splits)
  show "stringpool_compare a b = 0 \<Longrightarrow> stringpool_compare b c < 0 \<Longrightarrow> stringpool_compare a c < 0"
    using strcmp_eq [OF n] by (auto simp: stringpool_compare_ok ok c split: if_splits)
qed

lemma compare_zero: "entry_ok a \<Longrightarrow> entry_ok b \<Longrightarrow> stringpool_compare a b = 0 \<longleftrightarrow> se_str a = se_str b"
  using strcmp_eq [of "se_str a" "se_str b"] by (auto simp: stringpool_compare_ok entry_ok_def)

section \<open>Interning\<close>

text \<open>
  The entries of a pool are numbered from 0 in the order in which they were added, and no string
  has two of them.
\<close>

definition pool_ok :: "stringpool \<Rightarrow> bool" where
  "pool_ok p = (avl_tree stringpool_compare entry_ok (strs p) \<and> 0 \<le> sp_n p
     \<and> se_index ` set (inorder (strs p)) = {0..<sp_n p} \<and> inj_on se_index (set (inorder (strs p))))"

text \<open>The index of each string that is in the pool.\<close>

definition pool_view :: "stringpool \<Rightarrow> cstring \<rightharpoonup> int" where
  "pool_view p s = map_option se_index (find (\<lambda>e. se_str e = s) (inorder (strs p)))"

definition interned :: "cstring \<Rightarrow> int \<Rightarrow> cstring" where
  "interned str len = (if len < 0 then str else take (nat len) str)"

lemma avl_lookup_cong:
  "(\<And>a. a \<in> set (inorder t) \<Longrightarrow> cmp x a = cmp y a) \<Longrightarrow> avl_lookup cmp x t = avl_lookup cmp y t"
  by (induction t) (auto simp: Let_def)

lemma strncmp_take: "strncmp n (take n a) b = strncmp n a b"
  by (induction n a b rule: strncmp.induct) auto

lemma pool_entry_ok: "pool_ok p \<Longrightarrow> e \<in> set (inorder (strs p)) \<Longrightarrow> entry_ok e"
  by (auto simp: pool_ok_def avl_tree_def avl_sorted_def)

lemma stringpool_lookup_find:
  assumes "pool_ok p" "nul_free str" "length str < 2 ^ 31" "len \<le> int (length str)"
  shows "stringpool_lookup p str len =
    (int (length (interned str len)), find (\<lambda>e. se_str e = interned str len) (inorder (strs p)))"
proof -
  define l where "l = stringpool_len str len"
  define s where "s = interned str len"
  define probe where "probe = \<lparr> se_str = s, se_len = l, se_index = -1 \<rparr>"
  have l: "l = int (length s)" "s = take (nat l) str"
    using assms(4) by (auto simp: l_def s_def stringpool_len_def interned_def)
  have ok: "entry_ok probe"
    using assms(2-4) l by (auto simp: probe_def entry_ok_def)
  have "avl_lookup stringpool_compare \<lparr> se_str = str, se_len = l, se_index = -1 \<rparr> (strs p)
      = avl_lookup stringpool_compare probe (strs p)"
    by (rule avl_lookup_cong) (simp add: stringpool_compare_def probe_def l(2) strncmp_take)
  also have "\<dots> = find (\<lambda>e. stringpool_compare probe e = 0) (inorder (strs p))"
    using pool.lookup_find [OF _ ok] assms(1) by (auto simp: pool_ok_def avl_tree_def)
  also have "\<dots> = find (\<lambda>e. se_str e = s) (inorder (strs p))"
  proof (rule find_cong [OF refl])
    fix e assume "e \<in> set (inorder (strs p))"
    then show "(stringpool_compare probe e = 0) = (se_str e = s)"
      using compare_zero [OF ok pool_entry_ok [OF assms(1)]] by (auto simp: probe_def)
  qed
  finally show ?thesis using l by (simp add: stringpool_lookup_def l_def [symmetric] s_def)
qed

lemma option_eqI: "(\<And>j. a = Some j \<longleftrightarrow> b = Some j) \<Longrightarrow> a = b"
  by (cases a; cases b) auto

lemma pool_view_Some:
  assumes "pool_ok p"
  shows "pool_view p s = Some i \<longleftrightarrow> (\<exists>e \<in> set (inorder (strs p)). se_str e = s \<and> se_index e = i)"
proof
  assume "pool_view p s = Some i"
  then show "\<exists>e \<in> set (inorder (strs p)). se_str e = s \<and> se_index e = i"
    by (auto simp: pool_view_def find_Some_iff)
next
  assume "\<exists>e \<in> set (inorder (strs p)). se_str e = s \<and> se_index e = i"
  then obtain e where e: "e \<in> set (inorder (strs p))" "se_str e = s" "se_index e = i" by blast
  then obtain e' where e': "find (\<lambda>e. se_str e = s) (inorder (strs p)) = Some e'"
    by (cases "find (\<lambda>e. se_str e = s) (inorder (strs p))") (auto simp: find_None_iff)
  then have "e' \<in> set (inorder (strs p))" "se_str e' = s" by (auto simp: find_Some_iff)
  then have "e' = e"
    using pool.sorted_unique [of "inorder (strs p)" e' e] e assms compare_zero pool_entry_ok [OF assms]
    by (auto simp: pool_ok_def avl_tree_def)
  with e e' show "pool_view p s = Some i" by (simp add: pool_view_def)
qed

lemma stringpool_add_ok:
  assumes "pool_ok p" "nul_free str" "length str < 2 ^ 31" "sp_n p < 2 ^ 31 - 1" "pool_view p (take l str) = None" "l \<le> length str"
  shows "\<exists>p'. stringpool_add p str (int l) = Some (\<lparr> se_str = take l str, se_len = int l, se_index = sp_n p \<rparr>, p')
     \<and> pool_ok p' \<and> pool_view p' = (pool_view p)(take l str \<mapsto> sp_n p)"
proof -
  define e where "e = \<lparr> se_str = take l str, se_len = int l, se_index = sp_n p \<rparr>"
  have ok: "entry_ok e"
    using assms(2,3,6) by (auto simp: e_def entry_ok_def)
  have new: "se_str a \<noteq> take l str" if "a \<in> set (inorder (strs p))" for a
    using assms(5) that by (auto simp: pool_view_def find_None_iff)
  then have distinct: "\<forall>a \<in> set (inorder (strs p)). stringpool_compare e a \<noteq> 0"
    using compare_zero [OF ok] pool_entry_ok [OF assms(1)] by (fastforce simp: e_def)
  from pool.insert_tree [OF _ ok distinct] assms(1) obtain t where
    t: "avl_insert stringpool_compare e (strs p) = Some t" "avl_tree stringpool_compare entry_ok t"
    and i: "inorder t = filter (\<lambda>a. stringpool_compare a e < 0) (inorder (strs p)) @ e #
       filter (\<lambda>a. stringpool_compare e a < 0) (inorder (strs p))"
    by (auto simp: pool_ok_def)
  define p' where "p' = p\<lparr> strs := t, sp_n := sp_n p + 1 \<rparr>"
  have set: "set (inorder t) = insert e (set (inorder (strs p)))"
    unfolding i using pool.insert_set [OF _ ok] pool_entry_ok [OF assms(1)] distinct by blast
  have idx: "se_index a < sp_n p" if "a \<in> set (inorder (strs p))" for a
    using assms(1) that by (auto simp: pool_ok_def)
  have n0: "0 \<le> sp_n p" and img: "se_index ` set (inorder (strs p)) = {0..<sp_n p}"
    and inj: "inj_on se_index (set (inorder (strs p)))" using assms(1) by (auto simp: pool_ok_def)
  have "se_index ` set (inorder t) = {0..<sp_n p + 1}"
    unfolding set image_insert img using n0 by (auto simp: e_def)
  moreover have "inj_on se_index (set (inorder t))"
    unfolding set inj_on_insert using inj by (auto simp: e_def dest: idx)
  ultimately have ok': "pool_ok p'" using t(2) n0 by (simp add: pool_ok_def p'_def)
  have view: "pool_view p' = (pool_view p)(take l str \<mapsto> sp_n p)"
  proof (rule ext, rule option_eqI)
    fix s j
    show "pool_view p' s = Some j \<longleftrightarrow> ((pool_view p)(take l str \<mapsto> sp_n p)) s = Some j"
      unfolding pool_view_Some [OF ok'] using new pool_view_Some [OF assms(1), of s j]
      by (auto simp: p'_def set e_def)
  qed
  have "stringpool_add p str (int l) = Some (e, p')"
    using assms(4,6) t(1) by (simp add: stringpool_add_def e_def p'_def)
  then show ?thesis using view ok' by (auto simp: e_def)
qed

lemma pool_ok_new: "pool_ok stringpool_new"
  by (simp add: pool_ok_def stringpool_new_def avl_tree_def)

section \<open>Properties\<close>

text \<open>
  C22: interning a string in a pool that numbers its strings from 0 returns an entry with exactly
  the bytes of the string: the one the pool already has for it, with the pool unchanged, or a new
  one with the next number. All three lookup functions agree, and the pool then maps the string to
  that number and every other string to what it was before.
\<close>

theorem stringpool_interns:
  assumes "pool_ok p" "nul_free str" "length str < 2 ^ 31" "len \<le> int (length str)" "sp_n p < 2 ^ 31 - 1"
  shows "stringpool_search_index p str len = (case pool_view p (interned str len) of None \<Rightarrow> -1 | Some i \<Rightarrow> i)
    \<and> (\<exists>e p'. stringpool_get p str len = Some (e, p') \<and> stringpool_get_index p str len = Some (se_index e, p')
         \<and> se_str e = interned str len \<and> pool_ok p'
         \<and> pool_view p' = (pool_view p)(interned str len \<mapsto> se_index e)
         \<and> (case pool_view p (interned str len) of None \<Rightarrow> se_index e = sp_n p | Some i \<Rightarrow> se_index e = i \<and> p' = p))"
proof -
  note look = stringpool_lookup_find [OF assms(1-4)]
  show ?thesis
  proof (cases "find (\<lambda>e. se_str e = interned str len) (inorder (strs p))")
    case (Some e)
    then have "se_str e = interned str len" by (auto simp: find_Some_iff)
    moreover have "pool_view p (interned str len) = Some (se_index e)" using Some by (simp add: pool_view_def)
    ultimately show ?thesis using Some assms(1)
      by (simp add: stringpool_search_index_def stringpool_get_def stringpool_get_index_def look fun_upd_idem)
  next
    case None
    then have new: "pool_view p (interned str len) = None" by (simp add: pool_view_def)
    define l where "l = length (interned str len)"
    have l: "interned str len = take l str" "l \<le> length str"
      using assms(4) by (auto simp: interned_def l_def)
    from stringpool_add_ok [OF assms(1,2,3,5) _ l(2)] new l(1) obtain p' where
      "stringpool_add p str (int l) = Some (\<lparr> se_str = take l str, se_len = int l, se_index = sp_n p \<rparr>, p')"
      "pool_ok p'" "pool_view p' = (pool_view p)(take l str \<mapsto> sp_n p)" by auto
    then show ?thesis using None new l
      by (simp add: stringpool_search_index_def stringpool_get_def stringpool_get_index_def look l_def [symmetric])
  qed
qed

theorem stringpool_interns_witness:
  "\<exists>e p'. stringpool_get stringpool_new ''keys'' 3 = Some (e, p') \<and> se_str e = ''key'' \<and> se_index e = 0 \<and> pool_ok p'"
proof -
  have "nul_free ''keys''" by (simp add: uchar_def)
  with stringpool_interns [OF pool_ok_new, of "''keys''" 3] show ?thesis
    by (auto simp: interned_def stringpool_new_def pool_view_def)
qed

text \<open>
  Freeing a pool passes every entry to \<open>free\<close> exactly once, and nothing else.
\<close>

lemma stringpool_free_all:
  assumes "pool_ok p" "sp_n p < 2 ^ 31"
  shows "\<exists>es. stringpool_free p = Some es \<and> distinct es \<and> set es = set (inorder (strs p)) \<and> int (length es) = sp_n p"
proof -
  let ?es = "inorder (strs p)"
  have s: "avl_sorted stringpool_compare entry_ok ?es" "avl_tree stringpool_compare entry_ok (strs p)"
    using assms(1) by (auto simp: pool_ok_def avl_tree_def)
  have d: "distinct ?es" by (rule pool.sorted_distinct_elems [OF s(1)])
  have "card (se_index ` set ?es) = length ?es"
    using distinct_card [OF d] card_image [of se_index "set ?es"] assms(1) by (simp only: pool_ok_def)
  then have n: "int (length ?es) = sp_n p" using assms(1) by (auto simp: pool_ok_def)
  then have "avl_it_drain (avl_it_init (strs p) None None stringpool_compare) = Some ?es"
    using pool.drain_range [OF s(2), of None None False] assms(2) by (simp add: avl_it_init_def)
  moreover have "fold (\<lambda>entry head. entry # head) xs acc = rev xs @ acc" for xs acc :: "stringpool_entry list"
    by (induction xs arbitrary: acc) auto
  ultimately show ?thesis using d n by (simp add: stringpool_free_def)
qed

end
