(* ===== verification/Lru.thy ===== *)
theory Lru
  imports AvlSpec "HOL-Library.Multiset"
begin

text \<open>
  The cache of \<open>src/util/lib/lru.c\<close>. Entries live in a heap, a map from addresses to entries; the
  queue \<open>lru\<close> is the list of their addresses, oldest first, and the tree holds the embedded nodes,
  each with the address of its entry and the key, which never changes. \<open>None\<close> is a crash: the use
  of an entry that was freed, or a null pointer in the tree.

  \<open>lru_evict\<close> and \<open>cache_lru\<close> are a call that no other thread interferes with. The same call in the steps
  that other threads can come between is \<open>lru_begin\<close> and \<open>lru_advance\<close>: \<open>c->mutex\<close> keeps out the calls that
  lock it, but \<open>lru_store\<close>, \<open>lru_retain\<close> and \<open>lru_leave\<close> do not, so the size and the use counts change
  under the thread that makes room. The entry a round of that loop takes out is given back to the
  allocator at the end of the round; nothing refers to it from the moment it is unlinked, where the
  model removes it. A call that finds a pending entry ends with \<open>LRU_wait\<close>; the wait for the condition
  variable that follows reads the entry only. The address of a new entry is the one \<open>xmalloc\<close> returns.
  The calls of the callbacks \<open>lru_stat_cb\<close> and \<open>destr\<close>, of a cache that has both, are recorded in
  \<open>lru_calls\<close>. \<open>users\<close> is an \<open>int\<close> of 32 bits: the runs have fewer than $2^{31}$ references at a time.
\<close>

section \<open>The cache\<close>

record 'v lru_entry =
  le_key :: cstring
  le_users :: int
  le_pending :: bool
  le_thread :: nat
  le_storage :: "'v option"
  le_size :: "64 word"

datatype 'v lru_call = Stat cstring | Destr 'v

record 'v lru =
  lru_size :: "64 word"
  lru_max_size :: "64 word"
  lru_tree :: "(nat \<times> cstring) avl_node"
  lru_q :: "nat list"
  lru_heap :: "nat \<rightharpoonup> 'v lru_entry"
  lru_rindex :: "64 word"
  lru_calls :: "'v lru_call list"

definition lru_compare :: "nat \<times> cstring \<Rightarrow> nat \<times> cstring \<Rightarrow> int" where
  "lru_compare ae be = strcmp (snd ae) (snd be)"

definition lru_stat :: "cstring \<Rightarrow> 'v lru \<Rightarrow> 'v lru" where
  "lru_stat s c = c\<lparr> lru_calls := lru_calls c @ [Stat s] \<rparr>"

definition lru_init :: "64 word \<Rightarrow> 'v lru" where
  "lru_init n = \<lparr> lru_size = 0, lru_max_size = n, lru_tree = Null, lru_q = [], lru_heap = Map.empty,
     lru_rindex = 0, lru_calls = [] \<rparr>"

text \<open>
  Unlinking an entry from the queue and from the tree, the call of \<open>destr\<close> and \<open>free\<close>: the part
  that \<open>lru_flush\<close> and the loop in \<open>cache_lru\<close> share.
\<close>

definition lru_drop :: "nat \<Rightarrow> 'v lru \<Rightarrow> ('v lru_entry \<times> 'v lru) option" where
  "lru_drop a c =
     do {
       e \<leftarrow> lru_heap c a;
       t \<leftarrow> avl_delete lru_compare (a, le_key e) (lru_tree c);
       Some (e, c\<lparr> lru_q := remove1 a (lru_q c), lru_tree := t, lru_heap := (lru_heap c)(a := None),
                  lru_calls := lru_calls c @ (case le_storage e of None \<Rightarrow> [] | Some v \<Rightarrow> [Destr v]) \<rparr>)
     }"

text \<open>
  One round of the loop in \<open>lru_flush\<close>. It returns without a change while the oldest entry has
  users: the caller sleeps and looks again. The flag says that the queue is empty.
\<close>

definition lru_flush :: "'v lru \<Rightarrow> (bool \<times> 'v lru) option" where
  "lru_flush c =
     (case lru_q c of
        [] \<Rightarrow> Some (True, c\<lparr> lru_size := 0 \<rparr>)
      | a # _ \<Rightarrow>
          do {
            e \<leftarrow> lru_heap c a;
            if le_users e \<noteq> 0 then Some (False, c)
            else map_option (\<lambda>(_, c). (False, c)) (lru_drop a c)
          })"

definition lru_invalidate :: "'v lru \<Rightarrow> bool \<times> 'v lru" where
  "lru_invalidate c =
     (let old = lru_rindex c; c = c\<lparr> lru_rindex := old + 1 \<rparr>
      in if old = - 1 then (True, c\<lparr> lru_rindex := 0 \<rparr>) else (False, c))"

section \<open>Lookup and insertion\<close>

definition lru_key :: "'v lru \<Rightarrow> cstring \<Rightarrow> int \<Rightarrow> cstring" where
  "lru_key c key klen =
     dec_string (unat (lru_rindex c)) @ ''#'' @ (if klen < 0 then key else take (nat klen) key)"

text \<open>A freed entry in the queue would be read here; \<open>lru_drop\<close> of it is the crash.\<close>

definition lru_idle :: "'v lru \<Rightarrow> nat \<Rightarrow> bool" where
  "lru_idle c a = (case lru_heap c a of None \<Rightarrow> True | Some e \<Rightarrow> le_users e = 0)"

text \<open>
  The loop that makes room: the flag says whether there is room now, \<open>False\<close> is the return with
  \<open>CACHE FULL\<close>.
\<close>

function lru_evict :: "'v lru \<Rightarrow> (bool \<times> 'v lru) option" where
  "lru_evict c =
     (if lru_size c \<ge> lru_max_size c
      then case find (lru_idle c) (lru_q c) of
             None \<Rightarrow> Some (False, lru_stat ''CACHE FULL'' c)
           | Some a \<Rightarrow>
               (case lru_drop a (lru_stat ''CACHE OUT'' c) of
                  None \<Rightarrow> None
                | Some (e, c') \<Rightarrow> lru_evict (c'\<lparr> lru_size := lru_size c' - le_size e \<rparr>))
      else Some (True, c))"
  by pat_completeness auto

lemma lru_drop_queue: "lru_drop a c = Some (e, c') \<Longrightarrow> lru_q c' = remove1 a (lru_q c)"
  by (auto simp: lru_drop_def bind_eq_Some_conv)

termination lru_evict
  by (relation "measure (\<lambda>c. length (lru_q c))")
    (auto simp: lru_stat_def length_remove1 find_Some_iff dest!: lru_drop_queue intro: length_pos_if_in_set)

declare lru_evict.simps [simp del]

datatype lru_result = LRU_full | LRU_recurse | LRU_new nat | LRU_hit nat | LRU_wait nat

definition cache_lru :: "nat \<Rightarrow> nat \<Rightarrow> cstring \<Rightarrow> int \<Rightarrow> 'v lru \<Rightarrow> (lru_result \<times> 'v lru) option" where
  "cache_lru self a key klen c =
     (let combined_key = lru_key c key klen
      in case avl_lookup lru_compare (0, combined_key) (lru_tree c) of
           None \<Rightarrow>
             do {
               (room, c) \<leftarrow> lru_evict c;
               if \<not> room then Some (LRU_full, c)
               else do {
                 t \<leftarrow> avl_insert lru_compare (a, combined_key) (lru_tree c);
                 Some (LRU_new a,
                       c\<lparr> lru_heap := (lru_heap c)(a \<mapsto> \<lparr> le_key = combined_key, le_users = 1, le_pending = True,
                                                     le_thread = self, le_storage = None, le_size = 0 \<rparr>),
                          lru_q := lru_q c @ [a], lru_tree := t \<rparr>)
               }
             }
         | Some (b, _) \<Rightarrow>
             do {
               e \<leftarrow> lru_heap c b;
               if le_pending e \<and> le_thread e = self then Some (LRU_recurse, lru_stat ''CACHE RECURSE'' c)
               else let c' = c\<lparr> lru_heap := (lru_heap c)(b \<mapsto> e\<lparr> le_users := le_users e + 1 \<rparr>),
                               lru_q := remove1 b (lru_q c) @ [b] \<rparr>
                    in if le_pending e then Some (LRU_wait b, lru_stat ''CACHE PENDING'' c')
                       else Some (LRU_hit b, c')
             })"

section \<open>Operations of the holder of an entry\<close>

text \<open>
  \<open>lru_store\<close>: the plain store to \<open>storage_size\<close>, the atomic addition to \<open>size\<close>, and the end of \<open>pending\<close>
  under \<open>e->mutex\<close>.
\<close>

definition lru_store_size :: "nat \<Rightarrow> 64 word \<Rightarrow> 'v lru \<Rightarrow> 'v lru option" where
  "lru_store_size a sz c =
     do { e \<leftarrow> lru_heap c a; Some (c\<lparr> lru_heap := (lru_heap c)(a \<mapsto> e\<lparr> le_size := sz \<rparr>) \<rparr>) }"

definition lru_store_add :: "64 word \<Rightarrow> 'v lru \<Rightarrow> 'v lru" where
  "lru_store_add sz c = c\<lparr> lru_size := lru_size c + sz \<rparr>"

definition lru_store_end :: "nat \<Rightarrow> 'v lru \<Rightarrow> 'v lru option" where
  "lru_store_end a c =
     do { e \<leftarrow> lru_heap c a; Some (c\<lparr> lru_heap := (lru_heap c)(a \<mapsto> e\<lparr> le_pending := False \<rparr>) \<rparr>) }"

definition lru_store :: "nat \<Rightarrow> 64 word \<Rightarrow> 'v lru \<Rightarrow> 'v lru option" where
  "lru_store a sz c =
     do {
       c \<leftarrow> lru_store_size a sz c;
       let c = lru_store_add sz c;
       lru_store_end a c
     }"

definition lru_retain :: "nat \<Rightarrow> 'v lru \<Rightarrow> 'v lru option" where
  "lru_retain a c =
     do { e \<leftarrow> lru_heap c a; Some (c\<lparr> lru_heap := (lru_heap c)(a \<mapsto> e\<lparr> le_users := le_users e + 1 \<rparr>) \<rparr>) }"

definition lru_leave :: "nat \<Rightarrow> 'v lru \<Rightarrow> 'v lru option" where
  "lru_leave a c =
     do { e \<leftarrow> lru_heap c a; Some (c\<lparr> lru_heap := (lru_heap c)(a \<mapsto> e\<lparr> le_users := le_users e - 1 \<rparr>) \<rparr>) }"

text \<open>The entries \<open>lru_foreach\<close> passes to its callback.\<close>

definition lru_foreach :: "'v lru \<Rightarrow> 'v lru_entry option list" where
  "lru_foreach c = map (lru_heap c) (lru_q c)"

section \<open>The steps of a call\<close>

text \<open>
  Where a thread is that has locked \<open>c->mutex\<close> in \<open>cache_lru\<close>: behind the update of the use count of an
  entry it found; or, with its thread and its combined key, at the condition of the loop that makes
  room, at the entry with a number in the scan for one without users, before it takes an entry out,
  and before and after it has loaded \<open>c->size\<close> to subtract a size from it.
\<close>

datatype lru_phase =
    Found nat
  | Room nat cstring
  | Scan nat cstring nat
  | Out nat cstring nat
  | Load nat cstring "64 word"
  | Sub nat cstring "64 word" "64 word"

definition lru_begin :: "nat \<Rightarrow> cstring \<Rightarrow> int \<Rightarrow> 'v lru \<Rightarrow> ((lru_phase + lru_result) \<times> 'v lru) option" where
  "lru_begin self key klen c =
     (let combined_key = lru_key c key klen
      in case avl_lookup lru_compare (0, combined_key) (lru_tree c) of
           None \<Rightarrow> Some (Inl (Room self combined_key), c)
         | Some (b, _) \<Rightarrow>
             do {
               e \<leftarrow> lru_heap c b;
               if le_pending e \<and> le_thread e = self then Some (Inr LRU_recurse, lru_stat ''CACHE RECURSE'' c)
               else Some (Inl (Found b), c\<lparr> lru_heap := (lru_heap c)(b \<mapsto> e\<lparr> le_users := le_users e + 1 \<rparr>),
                                            lru_q := remove1 b (lru_q c) @ [b] \<rparr>)
             })"

fun lru_advance :: "nat \<Rightarrow> lru_phase \<Rightarrow> 'v lru \<Rightarrow> ((lru_phase + lru_result) \<times> 'v lru) option" where
  "lru_advance a (Found b) c =
     do {
       e \<leftarrow> lru_heap c b;
       if le_pending e then Some (Inr (LRU_wait b), lru_stat ''CACHE PENDING'' c) else Some (Inr (LRU_hit b), c)
     }"
| "lru_advance a (Room self k) c =
     (if lru_size c \<ge> lru_max_size c then Some (Inl (Scan self k 0), c)
      else do {
        t \<leftarrow> avl_insert lru_compare (a, k) (lru_tree c);
        Some (Inr (LRU_new a),
              c\<lparr> lru_heap := (lru_heap c)(a \<mapsto> \<lparr> le_key = k, le_users = 1, le_pending = True,
                                            le_thread = self, le_storage = None, le_size = 0 \<rparr>),
                 lru_q := lru_q c @ [a], lru_tree := t \<rparr>)
      })"
| "lru_advance a (Scan self k i) c =
     (if i < length (lru_q c)
      then do {
        ob \<leftarrow> lru_heap c (lru_q c ! i);
        if le_users ob \<noteq> 0 then Some (Inl (Scan self k (i + 1)), c) else Some (Inl (Out self k (lru_q c ! i)), c)
      }
      else Some (Inr LRU_full, lru_stat ''CACHE FULL'' c))"
| "lru_advance a (Out self k b) c =
     do {
       (e, c) \<leftarrow> lru_drop b (lru_stat ''CACHE OUT'' c);
       Some (Inl (Load self k (le_size e)), c)
     }"
| "lru_advance a (Load self k sz) c = Some (Inl (Sub self k (lru_size c) sz), c)"
| "lru_advance a (Sub self k old sz) c = Some (Inl (Room self k), c\<lparr> lru_size := old - sz \<rparr>)"

text \<open>The steps of one call one after the other.\<close>

inductive lru_runs :: "nat \<Rightarrow> lru_phase \<Rightarrow> 'v lru \<Rightarrow> lru_result \<Rightarrow> 'v lru \<Rightarrow> bool" where
  last: "lru_advance a ph c = Some (Inr r, c') \<Longrightarrow> lru_runs a ph c r c'"
| more: "lru_advance a ph c = Some (Inl ph1, c1) \<Longrightarrow> lru_runs a ph1 c1 r c' \<Longrightarrow> lru_runs a ph c r c'"

section \<open>Runs of several threads\<close>

text \<open>
  A state of a run: the cache, who has locked \<open>c->mutex\<close>, the references that threads hold (an address
  once for each call of \<open>lru_leave\<close> that is due), and the calls of \<open>lru_store\<close> under way, each with its size
  and whether it has added that already.
\<close>

datatype lru_lock = Unlocked | Caching lru_phase | Flushing

record 'v lru_run =
  rn_c :: "'v lru"
  rn_lock :: lru_lock
  rn_held :: "nat list"
  rn_stores :: "(nat \<times> 64 word \<times> bool) list"

datatype 'v lru_action =
    Call nat cstring int
  | Advance nat
  | Store nat "64 word"
  | Store_next nat
  | Assign nat "'v option"
  | Retain nat
  | Leave nat
  | Invalidate
  | Flush
  | Flush_next

datatype 's outcome = Blocked | Crash | Next 's

definition run_c :: "'v lru_run \<Rightarrow> ('v lru \<Rightarrow> 'v lru_run \<Rightarrow> 'v lru_run) \<Rightarrow> 'v lru option \<Rightarrow> 'v lru_run outcome" where
  "run_c s f r = (case r of None \<Rightarrow> Crash | Some c \<Rightarrow> Next (f c (s\<lparr> rn_c := c \<rparr>)))"

text \<open>
  What a thread can do. Calls that lock \<open>c->mutex\<close> wait while another has it. Only the holder of a
  reference touches an entry; \<open>lru_store\<close> is called once for an entry, while it is pending, and its caller
  keeps its reference until the call is over. \<open>Assign\<close> is the client's assignment to \<open>e->storage\<close>.
\<close>

fun lru_act :: "'v lru_action \<Rightarrow> 'v lru_run \<Rightarrow> 'v lru_run outcome" where
  "lru_act (Call self key klen) s =
     (if rn_lock s \<noteq> Unlocked \<or> \<not> nul_free key \<or> 2 ^ 31 \<le> int (length (rn_held s)) + 1 then Blocked
      else case lru_begin self key klen (rn_c s) of
             None \<Rightarrow> Crash
           | Some (Inr r, c) \<Rightarrow> Next (s\<lparr> rn_c := c \<rparr>)
           | Some (Inl ph, c) \<Rightarrow>
               Next (s\<lparr> rn_c := c, rn_lock := Caching ph,
                        rn_held := (case ph of Found b \<Rightarrow> b # rn_held s | _ \<Rightarrow> rn_held s) \<rparr>))"
| "lru_act (Advance a) s =
     (case rn_lock s of
        Caching ph \<Rightarrow>
          if lru_heap (rn_c s) a \<noteq> None then Blocked
          else (case lru_advance a ph (rn_c s) of
                  None \<Rightarrow> Crash
                | Some (Inl ph, c) \<Rightarrow> Next (s\<lparr> rn_c := c, rn_lock := Caching ph \<rparr>)
                | Some (Inr r, c) \<Rightarrow>
                    Next (s\<lparr> rn_c := c, rn_lock := Unlocked,
                             rn_held := (case r of LRU_new b \<Rightarrow> b # rn_held s | _ \<Rightarrow> rn_held s) \<rparr>))
      | _ \<Rightarrow> Blocked)"
| "lru_act (Store a sz) s =
     (if a \<in> set (rn_held s) \<and> a \<notin> fst ` set (rn_stores s)
         \<and> (case lru_heap (rn_c s) a of None \<Rightarrow> True | Some e \<Rightarrow> le_pending e)
      then run_c s (\<lambda>c s. s\<lparr> rn_stores := (a, sz, False) # rn_stores s \<rparr>) (lru_store_size a sz (rn_c s))
      else Blocked)"
| "lru_act (Store_next a) s =
     (let others = filter (\<lambda>st. fst st \<noteq> a) (rn_stores s)
      in case map_of (rn_stores s) a of
           None \<Rightarrow> Blocked
         | Some (sz, False) \<Rightarrow> Next (s\<lparr> rn_c := lru_store_add sz (rn_c s), rn_stores := (a, sz, True) # others \<rparr>)
         | Some (sz, True) \<Rightarrow> run_c s (\<lambda>c s. s\<lparr> rn_stores := others \<rparr>) (lru_store_end a (rn_c s)))"
| "lru_act (Assign a v) s =
     (if a \<in> set (rn_held s)
      then run_c s (\<lambda>c s. s)
             (map_option (\<lambda>e. (rn_c s)\<lparr> lru_heap := (lru_heap (rn_c s))(a \<mapsto> e\<lparr> le_storage := v \<rparr>) \<rparr>) (lru_heap (rn_c s) a))
      else Blocked)"
| "lru_act (Retain a) s =
     (if a \<in> set (rn_held s) \<and> int (length (rn_held s)) + 1 < 2 ^ 31
      then run_c s (\<lambda>c s. s\<lparr> rn_held := a # rn_held s \<rparr>) (lru_retain a (rn_c s)) else Blocked)"
| "lru_act (Leave a) s =
     (if a \<in> set (rn_held s) \<and> (a \<in> fst ` set (rn_stores s) \<longrightarrow> 1 < count_list (rn_held s) a)
      then run_c s (\<lambda>c s. s\<lparr> rn_held := remove1 a (rn_held s) \<rparr>) (lru_leave a (rn_c s)) else Blocked)"
| "lru_act Invalidate s = (if rn_lock s = Unlocked then Next (s\<lparr> rn_c := snd (lru_invalidate (rn_c s)) \<rparr>) else Blocked)"
| "lru_act Flush s = (if rn_lock s = Unlocked then Next (s\<lparr> rn_lock := Flushing \<rparr>) else Blocked)"
| "lru_act Flush_next s =
     (if rn_lock s = Flushing
      then (case lru_flush (rn_c s) of
              None \<Rightarrow> Crash
            | Some (finished, c) \<Rightarrow> Next (s\<lparr> rn_c := c, rn_lock := (if finished then Unlocked else Flushing) \<rparr>))
      else Blocked)"

definition lru_start :: "64 word \<Rightarrow> 'v lru_run" where
  "lru_start n = \<lparr> rn_c = lru_init n, rn_lock = Unlocked, rn_held = [], rn_stores = [] \<rparr>"

inductive lru_reach :: "'v lru_run \<Rightarrow> bool" where
  init: "lru_reach (lru_start n)"
| step: "lru_reach s \<Longrightarrow> lru_act act s = Next s' \<Longrightarrow> lru_reach s'"

fun lru_acts :: "'v lru_action list \<Rightarrow> 'v lru_run \<Rightarrow> 'v lru_run outcome" where
  "lru_acts [] s = Next s"
| "lru_acts (act # acts) s = (case lru_act act s of Next s' \<Rightarrow> lru_acts acts s' | r \<Rightarrow> r)"

section \<open>The invariant\<close>

definition lru_node_ok :: "nat \<times> cstring \<Rightarrow> bool" where
  "lru_node_ok n = nul_free (snd n)"

interpretation lru: avl_order lru_compare lru_node_ok
  using avl_order_by_key [OF str.key_order_axioms, of snd]
  by (simp add: lru_compare_def [abs_def] lru_node_ok_def [abs_def])

definition lru_entries :: "'v lru \<Rightarrow> (nat \<times> cstring) set" where
  "lru_entries c = {(a, le_key e) |a e. lru_heap c a = Some e}"

text \<open>The queue and the tree hold the entries that are allocated, each once.\<close>

definition lru_wf :: "'v lru \<Rightarrow> bool" where
  "lru_wf c = (distinct (lru_q c) \<and> set (lru_q c) = dom (lru_heap c)
     \<and> avl_tree lru_compare lru_node_ok (lru_tree c) \<and> set (inorder (lru_tree c)) = lru_entries c)"

definition lru_entry_size :: "'v lru \<Rightarrow> nat \<Rightarrow> 64 word" where
  "lru_entry_size c a = (case lru_heap c a of None \<Rightarrow> 0 | Some e \<Rightarrow> le_size e)"

lemma lru_entries_in: "(a, k) \<in> lru_entries c \<longleftrightarrow> (\<exists>e. lru_heap c a = Some e \<and> le_key e = k)"
  by (auto simp: lru_entries_def)

lemma lru_drop_wf:
  assumes "lru_wf c" "lru_heap c a = Some e"
  shows "\<exists>c'. lru_drop a c = Some (e, c') \<and> lru_wf c' \<and> lru_heap c' = (lru_heap c)(a := None)
     \<and> lru_q c' = remove1 a (lru_q c) \<and> lru_size c' = lru_size c \<and> lru_max_size c' = lru_max_size c \<and> lru_rindex c' = lru_rindex c"
proof -
  have t: "avl_tree lru_compare lru_node_ok (lru_tree c)" "set (inorder (lru_tree c)) = lru_entries c"
    using assms(1) by (simp_all add: lru_wf_def)
  have "(a, le_key e) \<in> set (inorder (lru_tree c))" using assms(2) t(2) by (auto simp: lru_entries_in)
  then have "lru_node_ok (a, le_key e)" using t(1) by (auto simp: avl_tree_def intro: avl_sorted_ok)
  from lru.delete_tree [OF t(1) this] obtain t' where
    t': "avl_delete lru_compare (a, le_key e) (lru_tree c) = Some t'" "avl_tree lru_compare lru_node_ok t'"
    "set (inorder t') = {n \<in> lru_entries c. n \<noteq> (a, le_key e)}" using t(2) by auto
  define c' where "c' = c\<lparr> lru_q := remove1 a (lru_q c), lru_tree := t', lru_heap := (lru_heap c)(a := None),
    lru_calls := lru_calls c @ (case le_storage e of None \<Rightarrow> [] | Some v \<Rightarrow> [Destr v]) \<rparr>"
  have "{n \<in> lru_entries c. n \<noteq> (a, le_key e)} = lru_entries c'"
  proof -
    have "(b, k) \<in> lru_entries c \<and> (b, k) \<noteq> (a, le_key e) \<longleftrightarrow> (b, k) \<in> lru_entries c'" for b k
      using assms(2) by (cases "b = a") (auto simp: lru_entries_in c'_def)
    then show ?thesis by auto
  qed
  then have "lru_wf c'" using assms(1) t' by (auto simp: lru_wf_def c'_def)
  moreover have "lru_drop a c = Some (e, c')" using assms(2) t'(1) by (simp add: lru_drop_def c'_def)
  ultimately show ?thesis by (auto simp: c'_def)
qed

lemma lru_stat_simps [simp]:
  "lru_size (lru_stat s c) = lru_size c" "lru_max_size (lru_stat s c) = lru_max_size c"
  "lru_tree (lru_stat s c) = lru_tree c" "lru_q (lru_stat s c) = lru_q c" "lru_heap (lru_stat s c) = lru_heap c"
  "lru_rindex (lru_stat s c) = lru_rindex c" "lru_wf (lru_stat s c) = lru_wf c"
  by (simp_all add: lru_stat_def lru_wf_def lru_entries_def)

lemma lru_size_upd [simp]: "lru_wf (c\<lparr> lru_size := n \<rparr>) = lru_wf c"
  by (simp add: lru_wf_def lru_entries_def)

section \<open>Making room\<close>

definition lru_idles :: "'v lru \<Rightarrow> nat list" where
  "lru_idles c = filter (lru_idle c) (lru_q c)"

text \<open>
  What the loop leaves: it has dropped the \<open>k\<close> oldest entries without users, each while the cache
  was full, and ends when there is room or no such entry.
\<close>

definition lru_evicted :: "'v lru \<Rightarrow> bool \<Rightarrow> 'v lru \<Rightarrow> nat \<Rightarrow> bool" where
  "lru_evicted c room c' k =
     (let out = take k (lru_idles c)
      in k \<le> length (lru_idles c)
         \<and> lru_q c' = filter (\<lambda>a. a \<notin> set out) (lru_q c)
         \<and> lru_heap c' = lru_heap c |` (- set out)
         \<and> lru_size c' = lru_size c - sum_list (map (lru_entry_size c) out)
         \<and> lru_max_size c' = lru_max_size c \<and> lru_rindex c' = lru_rindex c
         \<and> (\<forall>j < k. lru_max_size c \<le> lru_size c - sum_list (map (lru_entry_size c) (take j (lru_idles c))))
         \<and> room = (lru_size c' < lru_max_size c)
         \<and> (\<not> room \<longrightarrow> k = length (lru_idles c)))"

lemma lru_evictedD:
  assumes "lru_evicted c room c' k"
  shows "lru_q c' = filter (\<lambda>a. a \<notin> set (take k (lru_idles c))) (lru_q c)"
    "lru_heap c' = lru_heap c |` (- set (take k (lru_idles c)))"
    "lru_size c' = lru_size c - sum_list (map (lru_entry_size c) (take k (lru_idles c)))"
    "lru_rindex c' = lru_rindex c"
  using assms unfolding lru_evicted_def Let_def by blast+

lemma restrict_UNIV: "m |` UNIV = m"
  by (simp add: restrict_map_def)

lemma find_filter: "find P xs = (case filter P xs of [] \<Rightarrow> None | x # _ \<Rightarrow> Some x)"
  by (induction xs) auto

lemma lru_evicted_Suc:
  assumes wf: "lru_wf c" and full: "lru_max_size c \<le> lru_size c" and idles: "lru_idles c = a # rest"
    and e: "lru_heap c a = Some e"
    and c2: "lru_heap c2 = (lru_heap c)(a := None)" "lru_q c2 = remove1 a (lru_q c)"
      "lru_size c2 = lru_size c - le_size e" "lru_max_size c2 = lru_max_size c" "lru_rindex c2 = lru_rindex c"
    and ih: "lru_evicted c2 room c' k"
  shows "lru_evicted c room c' (Suc k)"
proof -
  have q2: "lru_q c2 = filter (\<lambda>x. x \<noteq> a) (lru_q c)"
    using wf c2(2) by (auto simp: lru_wf_def distinct_remove1_removeAll removeAll_filter_not_eq intro: filter_cong)
  have da: "distinct (a # rest)" using wf unfolding idles [symmetric] lru_idles_def lru_wf_def by simp
  have "lru_idles c2 = filter (\<lambda>x. x \<noteq> a) (lru_idles c)"
    unfolding lru_idles_def q2 filter_filter by (rule filter_cong) (auto simp: lru_idle_def c2(1))
  then have i2: "lru_idles c2 = rest" using da idles by (auto simp: filter_id_conv)
  have sz: "lru_entry_size c2 x = lru_entry_size c x" if "x \<in> set rest" for x
    using that da by (auto simp: lru_entry_size_def c2(1))
  have sum: "sum_list (map (lru_entry_size c2) (take j rest)) = sum_list (map (lru_entry_size c) (take j rest))" for j
    by (rule arg_cong [of _ _ sum_list], rule map_cong) (auto dest: in_set_takeD simp: sz)
  have sa: "lru_entry_size c a = le_size e" by (simp add: lru_entry_size_def e)
  show ?thesis
    using ih full
    unfolding lru_evicted_def idles i2 Let_def sum q2 c2(1,3-5)
    by (auto simp: sa filter_filter less_Suc_eq_0_disj algebra_simps restrict_map_def fun_eq_iff conj_commute)
qed

lemma lru_evict_evicted:
  "lru_wf c \<Longrightarrow> \<exists>room c' k. lru_evict c = Some (room, c') \<and> lru_wf c' \<and> lru_evicted c room c' k"
proof (induction c rule: measure_induct_rule [of "\<lambda>c. length (lru_q c)"])
  case (less c)
  consider "\<not> lru_max_size c \<le> lru_size c" | "lru_max_size c \<le> lru_size c" "lru_idles c = []"
    | a rest where "lru_max_size c \<le> lru_size c" "lru_idles c = a # rest" by (cases "lru_idles c") auto
  then show ?case
  proof cases
    case 1
    then show ?thesis using less.prems
      by (intro exI [of _ True] exI [of _ c] exI [of _ 0]) (auto simp: lru_evict.simps [of c] lru_evicted_def restrict_UNIV)
  next
    case 2
    then show ?thesis using less.prems
      by (intro exI [of _ False] exI [of _ "lru_stat ''CACHE FULL'' c"] exI [of _ 0])
        (simp add: lru_evict.simps [of c] lru_evicted_def restrict_UNIV not_less find_filter lru_idles_def [symmetric])
  next
    case 3
    then have a: "a \<in> set (lru_q c)" by (auto simp: lru_idles_def dest: filter_eq_ConsD)
    then obtain e where e: "lru_heap c a = Some e" using less.prems by (auto simp: lru_wf_def)
    obtain c1 where c1: "lru_drop a (lru_stat ''CACHE OUT'' c) = Some (e, c1)" "lru_wf c1" "lru_heap c1 = (lru_heap c)(a := None)"
      "lru_q c1 = remove1 a (lru_q c)" "lru_size c1 = lru_size c" "lru_max_size c1 = lru_max_size c" "lru_rindex c1 = lru_rindex c"
      using lru_drop_wf [of "lru_stat ''CACHE OUT'' c" a e] less.prems e by auto
    define c2 where "c2 = c1\<lparr> lru_size := lru_size c1 - le_size e \<rparr>"
    have ev: "lru_evict c = lru_evict c2"
      using 3 c1(1) by (subst lru_evict.simps) (simp add: find_filter lru_idles_def c2_def)
    have "length (lru_q c2) < length (lru_q c)"
      using a length_pos_if_in_set [OF a] by (simp add: c2_def c1 length_remove1)
    moreover have "lru_wf c2" using c1(2) by (simp add: c2_def)
    ultimately obtain room c' k where "lru_evict c2 = Some (room, c')" "lru_wf c'" "lru_evicted c2 room c' k"
      using less.IH by blast
    with lru_evicted_Suc [OF less.prems 3 e, of c2 room c' k] show ?thesis
      unfolding ev by (auto simp: c2_def c1)
  qed
qed

section \<open>Looking up a key\<close>

lemma lru_lookup:
  assumes "lru_wf c" "nul_free k"
  shows "avl_lookup lru_compare (0, k) (lru_tree c) = None \<longleftrightarrow> (\<forall>a e. lru_heap c a = Some e \<longrightarrow> le_key e \<noteq> k)"
    and "avl_lookup lru_compare (0, k) (lru_tree c) = Some n \<longleftrightarrow> n \<in> lru_entries c \<and> snd n = k"
proof -
  have t: "avl_sorted lru_compare lru_node_ok (inorder (lru_tree c))" "set (inorder (lru_tree c)) = lru_entries c"
    using assms(1) by (auto simp: lru_wf_def avl_tree_def)
  have ok: "nul_free (snd n)" if "n \<in> lru_entries c" for n
    using avl_sorted_ok [OF t(1)] that t(2) by (auto simp: lru_node_ok_def)
  have f: "avl_lookup lru_compare (0, k) (lru_tree c) = find (\<lambda>n. snd n = k) (inorder (lru_tree c))"
  proof -
    have "avl_lookup lru_compare (0, k) (lru_tree c) = find (\<lambda>n. lru_compare (0, k) n = 0) (inorder (lru_tree c))"
      using lru.lookup_find [OF t(1)] assms(2) by (simp add: lru_node_ok_def)
    also have "\<dots> = find (\<lambda>n. snd n = k) (inorder (lru_tree c))"
    proof (rule find_cong [OF refl])
      fix n assume "n \<in> set (inorder (lru_tree c))"
      then show "(lru_compare (0, k) n = 0) = (snd n = k)"
        using strcmp_eq [OF assms(2) ok] t(2) by (auto simp: lru_compare_def)
    qed
    finally show ?thesis .
  qed
  show "avl_lookup lru_compare (0, k) (lru_tree c) = None \<longleftrightarrow> (\<forall>a e. lru_heap c a = Some e \<longrightarrow> le_key e \<noteq> k)"
    unfolding f find_None_iff t(2) by (auto simp: lru_entries_def)
  show "avl_lookup lru_compare (0, k) (lru_tree c) = Some n \<longleftrightarrow> n \<in> lru_entries c \<and> snd n = k"
  proof
    assume "avl_lookup lru_compare (0, k) (lru_tree c) = Some n"
    then show "n \<in> lru_entries c \<and> snd n = k" unfolding f t(2) [symmetric] by (auto simp: find_Some_iff)
  next
    assume n: "n \<in> lru_entries c \<and> snd n = k"
    then obtain m where m: "find (\<lambda>n. snd n = k) (inorder (lru_tree c)) = Some m"
      by (cases n; cases "find (\<lambda>n. snd n = k) (inorder (lru_tree c))") (auto simp: find_None_iff t(2))
    then have m': "m \<in> set (inorder (lru_tree c))" "snd m = k" by (auto simp: find_Some_iff)
    have "lru_compare m n = 0" using n m'(2) strcmp_eq [OF assms(2,2)] by (simp add: lru_compare_def)
    then have "m = n" using lru.sorted_unique [OF t(1) m'(1)] n t(2) by blast
    with m f show "avl_lookup lru_compare (0, k) (lru_tree c) = Some n" by simp
  qed
qed

lemma nul_free_dec: "nul_free (dec_string n)"
proof (induction n rule: less_induct)
  case (less n)
  have d: "0 < uchar (char_of (48 + m :: nat))" if "m < 10" for m
    using that by (simp add: uchar_def)
  show ?case
  proof (cases "n < 10")
    case True
    then show ?thesis using d by (simp add: dec_string.simps [of n])
  next
    case False
    then have "nul_free (dec_string (n div 10))" using less by simp
    with False show ?thesis using d [of "n mod 10"] by (simp add: dec_string.simps [of n])
  qed
qed

lemma nul_free_lru_key: "nul_free key \<Longrightarrow> nul_free (lru_key c key klen)"
  by (simp add: lru_key_def nul_free_dec uchar_def)

section \<open>What each operation keeps\<close>

lemma lru_entries_upd:
  assumes "lru_heap c b = Some e" "le_key e' = le_key e"
  shows "lru_entries (c\<lparr> lru_heap := (lru_heap c)(b \<mapsto> e') \<rparr>) = lru_entries c"
proof -
  have "(x, k) \<in> lru_entries (c\<lparr> lru_heap := (lru_heap c)(b \<mapsto> e') \<rparr>) \<longleftrightarrow> (x, k) \<in> lru_entries c" for x k
    using assms by (cases "x = b") (auto simp: lru_entries_in)
  then show ?thesis by auto
qed

lemma lru_upd_wf:
  assumes "lru_wf c" "lru_heap c b = Some e" "le_key e' = le_key e"
  shows "lru_wf (c\<lparr> lru_heap := (lru_heap c)(b \<mapsto> e') \<rparr>)"
  using assms lru_entries_upd [OF assms(2,3)] by (auto simp: lru_wf_def)

lemma lru_queue_wf:
  assumes "lru_wf c" "set q = set (lru_q c)" "distinct q"
  shows "lru_wf (c\<lparr> lru_q := q \<rparr>)"
  using assms by (simp add: lru_wf_def lru_entries_def)

definition lru_used :: "nat \<Rightarrow> 'v lru_entry \<Rightarrow> 'v lru \<Rightarrow> 'v lru" where
  "lru_used b e c = c\<lparr> lru_heap := (lru_heap c)(b \<mapsto> e\<lparr> le_users := le_users e + 1 \<rparr>),
     lru_q := remove1 b (lru_q c) @ [b] \<rparr>"

lemma lru_used_wf:
  assumes "lru_wf c" "lru_heap c b = Some e"
  shows "lru_wf (lru_used b e c)"
proof -
  let ?c = "c\<lparr> lru_heap := (lru_heap c)(b \<mapsto> e\<lparr> le_users := le_users e + 1 \<rparr>) \<rparr>"
  have "b \<in> set (lru_q c)" "distinct (lru_q c)" using assms by (auto simp: lru_wf_def)
  then have "set (remove1 b (lru_q c) @ [b]) = set (lru_q ?c)" "distinct (remove1 b (lru_q c) @ [b])" by auto
  with lru_queue_wf [OF lru_upd_wf [OF assms, of "e\<lparr> le_users := le_users e + 1 \<rparr>"]] show ?thesis
    by (simp add: lru_used_def)
qed

lemma cache_lru_hit:
  assumes "lru_wf c" "nul_free key" "lru_heap c b = Some e" "le_key e = lru_key c key klen"
  shows "cache_lru self a key klen c =
    Some (if le_pending e \<and> le_thread e = self then (LRU_recurse, lru_stat ''CACHE RECURSE'' c)
          else if le_pending e then (LRU_wait b, lru_stat ''CACHE PENDING'' (lru_used b e c))
          else (LRU_hit b, lru_used b e c))"
proof -
  have "avl_lookup lru_compare (0, lru_key c key klen) (lru_tree c) = Some (b, lru_key c key klen)"
    using assms(3,4) lru_lookup(2) [OF assms(1) nul_free_lru_key [OF assms(2), of c klen], of "(b, lru_key c key klen)"]
    by (simp add: lru_entries_in)
  then show ?thesis using assms(3) by (simp add: cache_lru_def Let_def lru_used_def)
qed

definition lru_added :: "nat \<Rightarrow> nat \<Rightarrow> cstring \<Rightarrow> 'v lru \<Rightarrow> 'v lru \<Rightarrow> bool" where
  "lru_added self a k c c' =
     (\<exists>t. c' = c\<lparr> lru_heap := (lru_heap c)(a \<mapsto> \<lparr> le_key = k, le_users = 1, le_pending = True,
                                le_thread = self, le_storage = None, le_size = 0 \<rparr>),
                  lru_q := lru_q c @ [a], lru_tree := t \<rparr>)"

lemma lru_insert_wf:
  assumes "lru_wf c" "nul_free k" "a \<notin> dom (lru_heap c)" "\<forall>b e. lru_heap c b = Some e \<longrightarrow> le_key e \<noteq> k"
  shows "\<exists>t. avl_insert lru_compare (a, k) (lru_tree c) = Some t
     \<and> lru_wf (c\<lparr> lru_heap := (lru_heap c)(a \<mapsto> \<lparr> le_key = k, le_users = 1, le_pending = True,
                                le_thread = self, le_storage = None, le_size = 0 \<rparr>),
                  lru_q := lru_q c @ [a], lru_tree := t \<rparr>)"
proof -
  have t: "avl_tree lru_compare lru_node_ok (lru_tree c)" "set (inorder (lru_tree c)) = lru_entries c"
    using assms(1) by (auto simp: lru_wf_def)
  have ok: "lru_node_ok n" if "n \<in> lru_entries c" for n
    using that t by (auto simp: avl_tree_def intro: avl_sorted_ok)
  have new: "lru_node_ok (a, k)" using assms(2) by (simp add: lru_node_ok_def)
  have "lru_compare (a, k) n \<noteq> 0" if n: "n \<in> lru_entries c" for n
    using strcmp_eq [OF assms(2), of "snd n"] ok [OF n] assms(4) n
    by (cases n) (auto simp: lru_compare_def lru_node_ok_def lru_entries_in)
  then have ne: "\<forall>n \<in> set (inorder (lru_tree c)). lru_compare (a, k) n \<noteq> 0" using t(2) by blast
  from lru.insert_tree [OF t(1) new ne] obtain t' where t': "avl_insert lru_compare (a, k) (lru_tree c) = Some t'"
    "avl_tree lru_compare lru_node_ok t'"
    "inorder t' = filter (\<lambda>n. lru_compare n (a, k) < 0) (inorder (lru_tree c)) @ (a, k) #
       filter (\<lambda>n. lru_compare (a, k) n < 0) (inorder (lru_tree c))" by blast
  have "\<forall>n \<in> set (inorder (lru_tree c)). lru_node_ok n" using ok t(2) by blast
  from lru.insert_set [OF this new ne] have "set (inorder t') = insert (a, k) (lru_entries c)"
    unfolding t'(3) t(2) .
  moreover define c' where "c' = c\<lparr> lru_heap := (lru_heap c)(a \<mapsto> \<lparr> le_key = k, le_users = 1, le_pending = True,
         le_thread = self, le_storage = None, le_size = 0 \<rparr>), lru_q := lru_q c @ [a], lru_tree := t' \<rparr>"
  have "(b, k') = (a, k) \<or> (b, k') \<in> lru_entries c \<longleftrightarrow> (b, k') \<in> lru_entries c'" for b k'
    using assms(3) by (cases "b = a") (auto simp: lru_entries_in c'_def)
  then have "insert (a, k) (lru_entries c) = lru_entries c'" by auto
  ultimately have "lru_wf c'" using assms(1,3) t'(2) by (auto simp: lru_wf_def c'_def)
  then show ?thesis using t'(1) by (auto simp: c'_def)
qed

lemma lru_evicted_heap:
  assumes "lru_evicted c room c' k" "lru_heap c' a = Some e"
  shows "lru_heap c a = Some e"
  using assms(2) unfolding lru_evictedD(2) [OF assms(1)] by (simp add: restrict_map_def split: if_splits)

lemma cache_lru_miss:
  assumes "lru_wf c" "nul_free key" "\<forall>b e. lru_heap c b = Some e \<longrightarrow> le_key e \<noteq> lru_key c key klen"
    "a \<notin> dom (lru_heap c)"
  shows "\<exists>room c1 k c'. lru_evicted c room c1 k \<and> lru_wf c1 \<and> lru_wf c'
     \<and> cache_lru self a key klen c = Some (if room then LRU_new a else LRU_full, c')
     \<and> (if room then lru_added self a (lru_key c key klen) c1 c' else c' = c1)"
proof -
  have nf: "nul_free (lru_key c key klen)" by (rule nul_free_lru_key [OF assms(2)])
  have l: "avl_lookup lru_compare (0, lru_key c key klen) (lru_tree c) = None"
    using lru_lookup(1) [OF assms(1) nf] assms(3) by blast
  obtain room c1 k where ev: "lru_evict c = Some (room, c1)" "lru_wf c1" "lru_evicted c room c1 k"
    using lru_evict_evicted [OF assms(1)] by blast
  show ?thesis
  proof (cases room)
    case False
    then have "cache_lru self a key klen c = Some (LRU_full, c1)" using l ev(1) by (simp add: cache_lru_def Let_def)
    with False ev(2,3) show ?thesis by auto
  next
    case True
    have "a \<notin> dom (lru_heap c1)" "\<forall>b e. lru_heap c1 b = Some e \<longrightarrow> le_key e \<noteq> lru_key c key klen"
      using assms(3,4) lru_evicted_heap [OF ev(3)] by blast+
    from lru_insert_wf [OF ev(2) nf this, of self] obtain t where
      t: "avl_insert lru_compare (a, lru_key c key klen) (lru_tree c1) = Some t"
      "lru_wf (c1\<lparr> lru_heap := (lru_heap c1)(a \<mapsto> \<lparr> le_key = lru_key c key klen, le_users = 1, le_pending = True,
         le_thread = self, le_storage = None, le_size = 0 \<rparr>), lru_q := lru_q c1 @ [a], lru_tree := t \<rparr>)" by blast
    define c' where "c' = c1\<lparr> lru_heap := (lru_heap c1)(a \<mapsto> \<lparr> le_key = lru_key c key klen, le_users = 1, le_pending = True,
         le_thread = self, le_storage = None, le_size = 0 \<rparr>), lru_q := lru_q c1 @ [a], lru_tree := t \<rparr>"
    have "cache_lru self a key klen c = Some (LRU_new a, c')"
      using True l ev(1) t(1) by (simp add: cache_lru_def Let_def c'_def)
    moreover have "lru_added self a (lru_key c key klen) c1 c'" by (auto simp: lru_added_def c'_def)
    moreover have "lru_wf c'" using t(2) by (simp only: c'_def)
    ultimately show ?thesis using True ev(2,3) by auto
  qed
qed

section \<open>A call is its steps\<close>

lemma lru_scan_runs:
  assumes "lru_wf c" "i \<le> length (lru_q c)" "\<forall>j < i. \<not> lru_idle c (lru_q c ! j)"
    "case find (lru_idle c) (lru_q c) of None \<Rightarrow> lru_runs a (Scan self k (length (lru_q c))) c r c'
     | Some b \<Rightarrow> lru_runs a (Out self k b) c r c'"
  shows "lru_runs a (Scan self k i) c r c'"
  using assms(2,3)
proof (induction "length (lru_q c) - i" arbitrary: i)
  case 0
  then have i: "i = length (lru_q c)" by simp
  with 0 have "find (lru_idle c) (lru_q c) = None" by (auto simp: find_None_iff in_set_conv_nth)
  with assms(4) i show ?case by simp
next
  case (Suc n)
  then have i: "i < length (lru_q c)" by simp
  then obtain e where e: "lru_heap c (lru_q c ! i) = Some e"
    using assms(1) nth_mem [OF i] by (auto simp: lru_wf_def)
  show ?case
  proof (cases "le_users e = 0")
    case True
    then have idle: "lru_idle c (lru_q c ! i)" by (simp add: lru_idle_def e)
    then have "find (lru_idle c) (lru_q c) = Some (lru_q c ! i)"
      using Suc.prems i by (auto simp: find_Some_iff)
    with assms(4) have "lru_runs a (Out self k (lru_q c ! i)) c r c'" by simp
    then show ?thesis by (rule lru_runs.more [rotated]) (simp add: i e True)
  next
    case False
    then have ni: "\<not> lru_idle c (lru_q c ! i)" by (simp add: lru_idle_def e)
    have "lru_runs a (Scan self k (i + 1)) c r c'"
      using Suc.hyps(1) [of "i + 1"] Suc.hyps(2) Suc.prems i ni by (auto simp: less_Suc_eq)
    then show ?thesis by (rule lru_runs.more [rotated]) (simp add: i e False)
  qed
qed

lemma lru_evict_runs:
  assumes "lru_wf c" "lru_evict c = Some (room, c1)"
    "if room then lru_advance a (Room self k) c1 = Some (Inr r, c') else (r, c') = (LRU_full, c1)"
  shows "lru_runs a (Room self k) c r c'"
  using assms
proof (induction c rule: measure_induct_rule [of "\<lambda>c. length (lru_q c)"])
  case (less c)
  show ?case
  proof (cases "lru_max_size c \<le> lru_size c")
    case False
    then show ?thesis using less.prems by (auto simp: lru_evict.simps [of c] intro: lru_runs.last)
  next
    case True
    have "lru_runs a (Scan self k 0) c r c'"
    proof (rule lru_scan_runs [OF less.prems(1)])
      show "case find (lru_idle c) (lru_q c) of None \<Rightarrow> lru_runs a (Scan self k (length (lru_q c))) c r c'
        | Some b \<Rightarrow> lru_runs a (Out self k b) c r c'"
      proof (cases "find (lru_idle c) (lru_q c)")
        case None
        then show ?thesis using less.prems True by (auto simp: lru_evict.simps [of c] intro: lru_runs.last)
      next
        case (Some b)
        then have b: "b \<in> set (lru_q c)" by (auto simp: find_Some_iff)
        then obtain e where e: "lru_heap c b = Some e" using less.prems(1) by (auto simp: lru_wf_def)
        obtain c2 where c2: "lru_drop b (lru_stat ''CACHE OUT'' c) = Some (e, c2)" "lru_wf c2" "lru_q c2 = remove1 b (lru_q c)"
          using lru_drop_wf [of "lru_stat ''CACHE OUT'' c" b e] less.prems(1) e by auto
        let ?c = "c2\<lparr> lru_size := lru_size c2 - le_size e \<rparr>"
        have "length (lru_q ?c) < length (lru_q c)" using b length_pos_if_in_set [OF b] by (simp add: c2 length_remove1)
        moreover have "lru_evict ?c = Some (room, c1)"
          using less.prems(2) True Some c2(1) by (simp add: lru_evict.simps [of c])
        ultimately have "lru_runs a (Room self k) ?c r c'" using less.IH [of ?c] less.prems(3) c2(2) by simp
        then have "lru_runs a (Sub self k (lru_size c2) (le_size e)) c2 r c'" by (rule lru_runs.more [rotated]) simp
        then have "lru_runs a (Load self k (le_size e)) c2 r c'" by (rule lru_runs.more [rotated]) simp
        then have "lru_runs a (Out self k b) c r c'" by (rule lru_runs.more [rotated]) (simp add: c2(1))
        then show ?thesis using Some by simp
      qed
    qed simp_all
    then show ?thesis by (rule lru_runs.more [rotated]) (simp add: True)
  qed
qed

lemma cache_lru_runs:
  assumes "lru_wf c" "cache_lru self a key klen c = Some (r, c')"
  shows "lru_begin self key klen c = Some (Inr r, c')
    \<or> (\<exists>ph c1. lru_begin self key klen c = Some (Inl ph, c1) \<and> lru_runs a ph c1 r c')"
proof (cases "avl_lookup lru_compare (0, lru_key c key klen) (lru_tree c)")
  case None
  then obtain room c1 where ev: "lru_evict c = Some (room, c1)"
    using assms(2) by (auto simp: cache_lru_def Let_def bind_eq_Some_conv)
  have "lru_max_size c1 > lru_size c1" if room
    using lru_evict_evicted [OF assms(1)] ev that by (auto simp: lru_evicted_def Let_def)
  then have "if room then lru_advance a (Room self (lru_key c key klen)) c1 = Some (Inr r, c') else (r, c') = (LRU_full, c1)"
    using assms(2) None ev by (auto simp: cache_lru_def Let_def not_le bind_eq_Some_conv)
  from lru_evict_runs [OF assms(1) ev this] None show ?thesis by (simp add: lru_begin_def Let_def)
next
  case (Some n)
  obtain b k e where n: "n = (b, k)" and e: "lru_heap c b = Some e"
    using Some assms(2) by (cases n) (auto simp: cache_lru_def Let_def bind_eq_Some_conv)
  show ?thesis
  proof (cases "le_pending e \<and> le_thread e = self")
    case True
    with Some n e assms(2) show ?thesis by (simp add: cache_lru_def lru_begin_def Let_def)
  next
    case False
    let ?c = "c\<lparr> lru_heap := (lru_heap c)(b \<mapsto> e\<lparr> le_users := le_users e + 1 \<rparr>), lru_q := remove1 b (lru_q c) @ [b] \<rparr>"
    have "lru_begin self key klen c = Some (Inl (Found b), ?c)"
      unfolding lru_begin_def Let_def Some n using e False by simp
    moreover have "lru_advance a (Found b) ?c = Some (Inr r, c')"
      using assms(2) e False unfolding cache_lru_def Let_def Some n by (simp split: if_splits)
    ultimately show ?thesis using lru_runs.last by blast
  qed
qed

section \<open>What every step keeps\<close>

definition lru_missing :: "cstring \<Rightarrow> 'v lru \<Rightarrow> bool" where
  "lru_missing k c = (nul_free k \<and> (\<forall>a e. lru_heap c a = Some e \<longrightarrow> le_key e \<noteq> k))"

fun lru_phase_ok :: "nat list \<Rightarrow> lru_phase \<Rightarrow> 'v lru \<Rightarrow> bool" where
  "lru_phase_ok R (Found b) c = (b \<in> dom (lru_heap c))"
| "lru_phase_ok R (Room self k) c = lru_missing k c"
| "lru_phase_ok R (Scan self k i) c = lru_missing k c"
| "lru_phase_ok R (Out self k b) c = (lru_missing k c \<and> b \<in> dom (lru_heap c) \<and> b \<notin> set R)"
| "lru_phase_ok R (Load self k sz) c = lru_missing k c"
| "lru_phase_ok R (Sub self k old sz) c = lru_missing k c"

definition lru_lock_ok :: "nat list \<Rightarrow> lru_lock \<Rightarrow> 'v lru \<Rightarrow> bool" where
  "lru_lock_ok R l c = (case l of Caching ph \<Rightarrow> lru_phase_ok R ph c | _ \<Rightarrow> True)"

text \<open>The use counts are the numbers of references, which are to allocated entries.\<close>

definition lru_counted :: "nat list \<Rightarrow> 'v lru \<Rightarrow> bool" where
  "lru_counted R c = (lru_wf c \<and> set R \<subseteq> dom (lru_heap c)
     \<and> (\<forall>a e. lru_heap c a = Some e \<longrightarrow> le_users e = int (count_list R a) \<and> count_list R a < 2 ^ 31))"

definition lru_inv :: "'v lru_run \<Rightarrow> bool" where
  "lru_inv s = (lru_counted (rn_held s) (rn_c s) \<and> lru_lock_ok (rn_held s) (rn_lock s) (rn_c s)
     \<and> fst ` set (rn_stores s) \<subseteq> set (rn_held s))"

lemma count_list_less: "count_list R a \<le> length R"
  by (induction R) auto

lemma count_list_remove1: "count_list (remove1 a R) b = count_list R b - (if b = a then 1 else 0)"
  by (induction R) auto

lemma lru_counted_upd:
  assumes "lru_counted R c" "lru_heap c b = Some e" "le_key e' = le_key e"
    "le_users e' = int (count_list R' b)" "count_list R' b < 2 ^ 31" "\<forall>a. a \<noteq> b \<longrightarrow> count_list R' a = count_list R a"
  shows "lru_counted R' (c\<lparr> lru_heap := (lru_heap c)(b \<mapsto> e') \<rparr>)"
proof -
  have "lru_wf (c\<lparr> lru_heap := (lru_heap c)(b \<mapsto> e') \<rparr>)"
    using assms(1) by (intro lru_upd_wf [OF _ assms(2,3)]) (simp add: lru_counted_def)
  moreover have "a \<in> dom (lru_heap (c\<lparr> lru_heap := (lru_heap c)(b \<mapsto> e') \<rparr>))" if "a \<in> set R'" for a
  proof (cases "a = b")
    case False
    then have "a \<in> set R" using assms(6) that by (metis count_list_0_iff)
    then show ?thesis using assms(1) by (auto simp: lru_counted_def)
  qed simp
  ultimately show ?thesis using assms by (auto simp: lru_counted_def)
qed

lemma lru_counted_idle: "lru_counted R c \<Longrightarrow> lru_heap c a = Some e \<Longrightarrow> le_users e = 0 \<Longrightarrow> a \<notin> set R"
  unfolding lru_counted_def by (metis count_list_0_iff of_nat_eq_0_iff)

lemma lru_counted_queue: "lru_counted R c \<Longrightarrow> lru_wf (c\<lparr> lru_q := q \<rparr>) \<Longrightarrow> lru_counted R (c\<lparr> lru_q := q \<rparr>)"
  by (simp add: lru_counted_def)

lemma lru_counted_stat [simp]: "lru_counted R (lru_stat s c) = lru_counted R c"
  by (simp add: lru_counted_def)

lemma lru_counted_size [simp]: "lru_counted R (c\<lparr> lru_size := n \<rparr>) = lru_counted R c"
  by (simp add: lru_counted_def)

lemma lru_missing_upd [simp]:
  "lru_missing k (lru_stat s c) = lru_missing k c" "lru_missing k (c\<lparr> lru_size := n \<rparr>) = lru_missing k c"
  by (simp_all add: lru_missing_def)

lemma lru_missing_heap:
  "lru_missing k c \<Longrightarrow> lru_heap c b = Some e \<Longrightarrow> le_key e' = le_key e \<Longrightarrow>
   lru_missing k (c\<lparr> lru_heap := (lru_heap c)(b \<mapsto> e') \<rparr>)"
  by (auto simp: lru_missing_def)

text \<open>What another thread does to an entry it holds leaves the holder of the mutex where it was.\<close>

lemma lru_lock_upd:
  assumes "lru_lock_ok R l c" "lru_heap c b = Some e" "le_key e' = le_key e" "set R' \<subseteq> set R"
  shows "lru_lock_ok R' l (c\<lparr> lru_heap := (lru_heap c)(b \<mapsto> e') \<rparr>)"
proof (cases l)
  case (Caching ph)
  then show ?thesis
    using assms lru_missing_heap [OF _ assms(2,3)] by (cases ph) (auto simp: lru_lock_ok_def)
qed (simp_all add: lru_lock_ok_def)

lemma lru_lock_size: "lru_lock_ok R l c \<Longrightarrow> lru_lock_ok R l (c\<lparr> lru_size := n \<rparr>)"
  by (cases l; simp add: lru_lock_ok_def; case_tac x2; simp)

lemma lru_drop_counted:
  assumes "lru_counted R c" "lru_heap c b = Some e" "b \<notin> set R"
  shows "\<exists>c'. lru_drop b c = Some (e, c') \<and> lru_counted R c' \<and> lru_heap c' = (lru_heap c)(b := None)"
proof -
  obtain c' where "lru_drop b c = Some (e, c')" "lru_wf c'" "lru_heap c' = (lru_heap c)(b := None)"
    using lru_drop_wf [OF _ assms(2)] assms(1) by (auto simp: lru_counted_def)
  with assms(1,3) show ?thesis by (auto simp: lru_counted_def)
qed

lemma lru_begin_ok:
  assumes "lru_counted R c" "nul_free key" "length R + 1 < 2 ^ 31"
  shows "\<exists>x c'. lru_begin self key klen c = Some (x, c') \<and>
    (case x of Inr r \<Rightarrow> lru_counted R c'
     | Inl ph \<Rightarrow> lru_counted (case ph of Found b \<Rightarrow> b # R | _ \<Rightarrow> R) c' \<and> lru_phase_ok (case ph of Found b \<Rightarrow> b # R | _ \<Rightarrow> R) ph c')"
proof -
  let ?k = "lru_key c key klen"
  have wf: "lru_wf c" and nf: "nul_free ?k" using assms(1) nul_free_lru_key [OF assms(2)] by (auto simp: lru_counted_def)
  show ?thesis
  proof (cases "avl_lookup lru_compare (0, ?k) (lru_tree c)")
    case None
    then have "lru_missing ?k c" using lru_lookup(1) [OF wf nf] nf by (auto simp: lru_missing_def)
    with None assms(1) show ?thesis by (simp add: lru_begin_def Let_def)
  next
    case (Some n)
    then obtain b e where n: "n = (b, ?k)" and e: "lru_heap c b = Some e"
      using lru_lookup(2) [OF wf nf, of n] by (cases n) (auto simp: lru_entries_in)
    let ?c = "c\<lparr> lru_heap := (lru_heap c)(b \<mapsto> e\<lparr> le_users := le_users e + 1 \<rparr>) \<rparr>"
    have "le_users e = int (count_list R b)" using assms(1) e by (simp add: lru_counted_def)
    then have c: "lru_counted (b # R) ?c"
      using count_list_less [of R b] assms(3) by (intro lru_counted_upd [OF assms(1) e]) simp_all
    have "lru_wf (?c\<lparr> lru_q := remove1 b (lru_q c) @ [b] \<rparr>)"
      using lru_used_wf [OF wf e] by (simp add: lru_used_def)
    note used = lru_counted_queue [OF c this]
    have "lru_begin self key klen c =
        (if le_pending e \<and> le_thread e = self then Some (Inr LRU_recurse, lru_stat ''CACHE RECURSE'' c)
         else Some (Inl (Found b), ?c\<lparr> lru_q := remove1 b (lru_q c) @ [b] \<rparr>))"
      unfolding lru_begin_def Let_def Some n by (simp add: e)
    then show ?thesis using used assms(1) by (cases "le_pending e \<and> le_thread e = self") simp_all
  qed
qed

lemma lru_advance_ok:
  assumes "lru_counted R c" "lru_phase_ok R ph c" "a \<notin> dom (lru_heap c)"
  shows "\<exists>x c'. lru_advance a ph c = Some (x, c') \<and>
    (case x of Inl ph \<Rightarrow> lru_counted R c' \<and> lru_phase_ok R ph c'
     | Inr r \<Rightarrow> lru_counted (case r of LRU_new b \<Rightarrow> b # R | _ \<Rightarrow> R) c')"
proof -
  have wf: "lru_wf c" using assms(1) by (simp add: lru_counted_def)
  show ?thesis
  proof (cases ph)
    case (Found b)
    then show ?thesis using assms(1,2) by auto
  next
    case (Room self k)
    show ?thesis
    proof (cases "lru_max_size c \<le> lru_size c")
      case True
      then show ?thesis using Room assms(1,2) by simp
    next
      case False
      obtain t where t: "avl_insert lru_compare (a, k) (lru_tree c) = Some t"
        "lru_wf (c\<lparr> lru_heap := (lru_heap c)(a \<mapsto> \<lparr> le_key = k, le_users = 1, le_pending = True,
           le_thread = self, le_storage = None, le_size = 0 \<rparr>), lru_q := lru_q c @ [a], lru_tree := t \<rparr>)"
        using lru_insert_wf [OF wf _ assms(3), of k self] assms(2) Room by (auto simp: lru_missing_def)
      have "a \<notin> set R" using assms(1,3) by (auto simp: lru_counted_def)
      then show ?thesis using False Room t assms(1) by (auto simp: lru_counted_def)
    qed
  next
    case (Scan self k i)
    show ?thesis
    proof (cases "i < length (lru_q c)")
      case True
      then obtain e where e: "lru_heap c (lru_q c ! i) = Some e"
        using wf nth_mem [OF True] by (auto simp: lru_wf_def)
      then have "le_users e = 0 \<Longrightarrow> lru_q c ! i \<notin> set R" by (rule lru_counted_idle [OF assms(1)])
      with True e Scan assms(1,2) show ?thesis by auto
    qed (use Scan assms(1) in simp)
  next
    case (Out self k b)
    then obtain e where e: "lru_heap c b = Some e" using assms(2) by auto
    have "b \<notin> set R" using Out assms(2) by simp
    then obtain c' where "lru_drop b (lru_stat ''CACHE OUT'' c) = Some (e, c')" "lru_counted R c'" "lru_heap c' = (lru_heap c)(b := None)"
      using lru_drop_counted [of R "lru_stat ''CACHE OUT'' c" b e] assms(1) e by auto
    with Out assms(2) show ?thesis by (auto simp: lru_missing_def)
  qed (use assms in simp_all)
qed

lemma lru_flush_ok:
  assumes "lru_counted R c"
  shows "\<exists>finished c'. lru_flush c = Some (finished, c') \<and> lru_counted R c'"
proof (cases "lru_q c")
  case Nil
  then show ?thesis using assms by (intro exI [of _ True] exI [of _ "c\<lparr> lru_size := 0 \<rparr>"]) (simp add: lru_flush_def)
next
  case (Cons a q)
  then have "a \<in> set (lru_q c)" by simp
  then obtain e where e: "lru_heap c a = Some e" using assms by (auto simp: lru_counted_def lru_wf_def)
  show ?thesis
  proof (cases "le_users e = 0")
    case True
    then have "a \<notin> set R" by (rule lru_counted_idle [OF assms e])
    from lru_drop_counted [OF assms e this] Cons e True show ?thesis by (auto simp: lru_flush_def)
  next
    case False
    with Cons e have "lru_flush c = Some (False, c)" by (simp add: lru_flush_def)
    with assms show ?thesis by blast
  qed
qed

definition act_kept :: "'v lru_run outcome \<Rightarrow> bool" where
  "act_kept r = (case r of Blocked \<Rightarrow> True | Crash \<Rightarrow> False | Next s \<Rightarrow> lru_inv s)"

lemma lru_invD:
  assumes "lru_inv s"
  shows "lru_counted (rn_held s) (rn_c s)" "lru_lock_ok (rn_held s) (rn_lock s) (rn_c s)"
    "a \<in> set (rn_held s) \<Longrightarrow> \<exists>e. lru_heap (rn_c s) a = Some e \<and> le_users e = int (count_list (rn_held s) a)
       \<and> count_list (rn_held s) a < 2 ^ 31"
  using assms by (auto simp: lru_inv_def lru_counted_def)

lemma call_kept:
  assumes "lru_inv s"
  shows "act_kept (lru_act (Call self key klen) s)"
proof (cases "rn_lock s \<noteq> Unlocked \<or> \<not> nul_free key \<or> 2 ^ 31 \<le> int (length (rn_held s)) + 1")
  case True
  then show ?thesis by (simp add: act_kept_def)
next
  case False
  obtain x c' where x: "lru_begin self key klen (rn_c s) = Some (x, c')"
    "case x of Inr r \<Rightarrow> lru_counted (rn_held s) c'
     | Inl ph \<Rightarrow> lru_counted (case ph of Found b \<Rightarrow> b # rn_held s | _ \<Rightarrow> rn_held s) c'
         \<and> lru_phase_ok (case ph of Found b \<Rightarrow> b # rn_held s | _ \<Rightarrow> rn_held s) ph c'"
    using lru_begin_ok [OF lru_invD(1) [OF assms], of key self klen] False by auto
  have lock: "rn_lock s = Unlocked" using False by simp
  have st: "fst ` set (rn_stores s) \<subseteq> set (rn_held s)" using assms by (simp add: lru_inv_def)
  show ?thesis
  proof (cases x)
    case (Inl ph)
    have "fst ` set (rn_stores s) \<subseteq> set (case ph of Found b \<Rightarrow> b # rn_held s | _ \<Rightarrow> rn_held s)"
      using st by (cases ph) auto
    with x Inl False show ?thesis by (simp add: act_kept_def lru_inv_def lru_lock_ok_def)
  next
    case (Inr r)
    with x st lock False show ?thesis by (simp add: act_kept_def lru_inv_def lru_lock_ok_def)
  qed
qed

lemma advance_kept:
  assumes "lru_inv s"
  shows "act_kept (lru_act (Advance a) s)"
proof (cases "\<exists>ph. rn_lock s = Caching ph \<and> lru_heap (rn_c s) a = None")
  case False
  then show ?thesis by (cases "rn_lock s") (auto simp: act_kept_def)
next
  case True
  then obtain ph where ph: "rn_lock s = Caching ph" "a \<notin> dom (lru_heap (rn_c s))" by auto
  have ok: "lru_phase_ok (rn_held s) ph (rn_c s)" using lru_invD(2) [OF assms] ph by (simp add: lru_lock_ok_def)
  obtain x c' where x: "lru_advance a ph (rn_c s) = Some (x, c')"
    "case x of Inl ph \<Rightarrow> lru_counted (rn_held s) c' \<and> lru_phase_ok (rn_held s) ph c'
     | Inr r \<Rightarrow> lru_counted (case r of LRU_new b \<Rightarrow> b # rn_held s | _ \<Rightarrow> rn_held s) c'"
    using lru_advance_ok [OF lru_invD(1) [OF assms] ok ph(2)] by blast
  have st: "fst ` set (rn_stores s) \<subseteq> set (rn_held s)" using assms by (simp add: lru_inv_def)
  show ?thesis
  proof (cases x)
    case (Inl ph')
    with x st True ph show ?thesis by (auto simp: act_kept_def lru_inv_def lru_lock_ok_def)
  next
    case (Inr r)
    have "fst ` set (rn_stores s) \<subseteq> set (case r of LRU_new b \<Rightarrow> b # rn_held s | _ \<Rightarrow> rn_held s)"
      using st by (cases r) auto
    with x Inr True ph show ?thesis by (auto simp: act_kept_def lru_inv_def lru_lock_ok_def)
  qed
qed

text \<open>An operation of a holder that changes one entry and the references to it.\<close>

lemma entry_kept:
  assumes "lru_inv s" "lru_heap (rn_c s) a = Some e" "le_key e' = le_key e" "le_users e' = int (count_list R a)"
    "count_list R a < 2 ^ 31" "\<forall>b. b \<noteq> a \<longrightarrow> count_list R b = count_list (rn_held s) b"
    "set R \<subseteq> set (rn_held s)" "fst ` set S \<subseteq> set R"
  shows "lru_inv (s\<lparr> rn_c := (rn_c s)\<lparr> lru_heap := (lru_heap (rn_c s))(a \<mapsto> e') \<rparr>, rn_held := R, rn_stores := S \<rparr>)"
  using lru_counted_upd [OF lru_invD(1) [OF assms(1)] assms(2-6)] lru_lock_upd [OF lru_invD(2) [OF assms(1)] assms(2,3,7)] assms(8)
  by (simp add: lru_inv_def)

lemma entry_kept_same:
  assumes "lru_inv s" "lru_heap (rn_c s) a = Some e" "le_key e' = le_key e" "le_users e' = le_users e" "fst ` set S \<subseteq> set (rn_held s)"
  shows "lru_inv (s\<lparr> rn_c := (rn_c s)\<lparr> lru_heap := (lru_heap (rn_c s))(a \<mapsto> e') \<rparr>, rn_stores := S \<rparr>)"
proof -
  have "le_users e' = int (count_list (rn_held s) a)" "count_list (rn_held s) a < 2 ^ 31"
    using lru_invD(1) [OF assms(1)] assms(2,4) by (auto simp: lru_counted_def)
  from entry_kept [OF assms(1-3) this _ _ assms(5)] show ?thesis by simp
qed

lemma store_kept:
  assumes "lru_inv s"
  shows "act_kept (lru_act (Store a sz) s)"
proof (cases "a \<in> set (rn_held s)")
  case True
  then obtain e where e: "lru_heap (rn_c s) a = Some e" using lru_invD(3) [OF assms] by blast
  have st: "fst ` set (rn_stores s) \<subseteq> set (rn_held s)" using assms by (simp add: lru_inv_def)
  have "lru_inv (s\<lparr> rn_c := (rn_c s)\<lparr> lru_heap := (lru_heap (rn_c s))(a \<mapsto> e\<lparr> le_size := sz \<rparr>) \<rparr>,
      rn_stores := (a, sz, False) # rn_stores s \<rparr>)"
    by (rule entry_kept_same [OF assms e]) (use st True in auto)
  with e show ?thesis by (simp add: act_kept_def run_c_def lru_store_size_def)
qed (simp add: act_kept_def)

lemma store_next_kept:
  assumes "lru_inv s"
  shows "act_kept (lru_act (Store_next a) s)"
proof (cases "map_of (rn_stores s) a")
  case (Some p)
  obtain sz added where p: "p = (sz, added)" by (cases p)
  have st: "fst ` set (rn_stores s) \<subseteq> set (rn_held s)" using assms by (simp add: lru_inv_def)
  have a: "a \<in> set (rn_held s)" using st map_of_SomeD [OF Some] by force
  then obtain e where e: "lru_heap (rn_c s) a = Some e" using lru_invD(3) [OF assms] by blast
  let ?S = "filter (\<lambda>st. fst st \<noteq> a) (rn_stores s)"
  have S: "fst ` set ?S \<subseteq> set (rn_held s)" using st by auto
  show ?thesis
  proof (cases added)
    case True
    have "lru_inv (s\<lparr> rn_c := (rn_c s)\<lparr> lru_heap := (lru_heap (rn_c s))(a \<mapsto> e\<lparr> le_pending := False \<rparr>) \<rparr>, rn_stores := ?S \<rparr>)"
      by (rule entry_kept_same [OF assms e]) (use S in auto)
    with e Some p True show ?thesis by (simp add: act_kept_def run_c_def lru_store_end_def Let_def)
  next
    case False
    have "lru_inv (s\<lparr> rn_c := (rn_c s)\<lparr> lru_size := lru_size (rn_c s) + sz \<rparr>, rn_stores := (a, sz, True) # ?S \<rparr>)"
      using assms S a by (simp add: lru_inv_def lru_lock_size)
    with Some p False show ?thesis by (simp add: act_kept_def lru_store_add_def Let_def)
  qed
qed (simp add: act_kept_def Let_def)

lemma assign_kept:
  assumes "lru_inv s"
  shows "act_kept (lru_act (Assign a v) s)"
proof (cases "a \<in> set (rn_held s)")
  case True
  then obtain e where e: "lru_heap (rn_c s) a = Some e" using lru_invD(3) [OF assms] by blast
  have "fst ` set (rn_stores s) \<subseteq> set (rn_held s)" using assms by (simp add: lru_inv_def)
  from entry_kept_same [OF assms e _ _ this, of "e\<lparr> le_storage := v \<rparr>"] e True show ?thesis by (simp add: act_kept_def run_c_def)
qed (simp add: act_kept_def)

lemma retain_kept:
  assumes "lru_inv s"
  shows "act_kept (lru_act (Retain a) s)"
proof (cases "a \<in> set (rn_held s) \<and> int (length (rn_held s)) + 1 < 2 ^ 31")
  case True
  then obtain e where e: "lru_heap (rn_c s) a = Some e" "le_users e = int (count_list (rn_held s) a)"
    using lru_invD(3) [OF assms] by blast
  have "count_list (rn_held s) a \<le> length (rn_held s)" by (rule count_list_less)
  then have "lru_counted (a # rn_held s) ((rn_c s)\<lparr> lru_heap := (lru_heap (rn_c s))(a \<mapsto> e\<lparr> le_users := le_users e + 1 \<rparr>) \<rparr>)"
    using True e(2) by (intro lru_counted_upd [OF lru_invD(1) [OF assms] e(1)]) auto
  moreover have "lru_lock_ok (a # rn_held s) (rn_lock s) ((rn_c s)\<lparr> lru_heap := (lru_heap (rn_c s))(a \<mapsto> e\<lparr> le_users := le_users e + 1 \<rparr>) \<rparr>)"
    using True by (intro lru_lock_upd [OF lru_invD(2) [OF assms] e(1)]) auto
  ultimately show ?thesis
    using True e(1) assms by (auto simp: act_kept_def run_c_def lru_retain_def lru_inv_def)
qed (auto simp: act_kept_def)

lemma leave_kept:
  assumes "lru_inv s"
  shows "act_kept (lru_act (Leave a) s)"
proof (cases "a \<in> set (rn_held s) \<and> (a \<in> fst ` set (rn_stores s) \<longrightarrow> 1 < count_list (rn_held s) a)")
  case True
  then obtain e where e: "lru_heap (rn_c s) a = Some e" "le_users e = int (count_list (rn_held s) a)"
    "count_list (rn_held s) a < 2 ^ 31" using lru_invD(3) [OF assms] by blast
  let ?R = "remove1 a (rn_held s)"
  have pos: "0 < count_list (rn_held s) a" using True by (metis count_list_0_iff gr0I)
  have R: "b \<in> set ?R \<longleftrightarrow> 0 < count_list ?R b" for b by (metis count_list_0_iff gr0I less_numeral_extra(3))
  have "b \<in> set ?R" if "b \<in> fst ` set (rn_stores s)" for b
  proof (cases "b = a")
    case True
    then show ?thesis using \<open>a \<in> set (rn_held s) \<and> _\<close> that unfolding R count_list_remove1 by simp
  next
    case False
    have "b \<in> set (rn_held s)" using that assms by (auto simp: lru_inv_def)
    with False show ?thesis by simp
  qed
  then have st: "fst ` set (rn_stores s) \<subseteq> set ?R" by blast
  have "lru_inv (s\<lparr> rn_c := (rn_c s)\<lparr> lru_heap := (lru_heap (rn_c s))(a \<mapsto> e\<lparr> le_users := le_users e - 1 \<rparr>) \<rparr>, rn_held := ?R, rn_stores := rn_stores s \<rparr>)"
    by (rule entry_kept [OF assms e(1)]) (use e pos st in \<open>auto simp: count_list_remove1 dest: set_remove1_subset [THEN subsetD]\<close>)
  with e(1) True show ?thesis by (simp add: act_kept_def run_c_def lru_leave_def)
next
  case False
  then have "lru_act (Leave a) s = Blocked" unfolding lru_act.simps by (rule if_not_P)
  then show ?thesis by (simp add: act_kept_def)
qed

lemma lru_act_kept:
  assumes "lru_inv s"
  shows "act_kept (lru_act act s)"
proof (cases act)
  case Invalidate
  have "lru_counted R (snd (lru_invalidate c)) = lru_counted R c" for R and c :: "'a lru"
    by (simp add: lru_invalidate_def Let_def lru_counted_def lru_wf_def lru_entries_def)
  with Invalidate assms show ?thesis by (simp add: act_kept_def lru_inv_def lru_lock_ok_def)
next
  case Flush
  with assms show ?thesis by (simp add: act_kept_def lru_inv_def lru_lock_ok_def)
next
  case Flush_next
  with lru_flush_ok [OF lru_invD(1) [OF assms]] assms show ?thesis
    by (auto simp: act_kept_def lru_inv_def lru_lock_ok_def)
qed (simp_all only: call_kept advance_kept store_kept store_next_kept assign_kept retain_kept leave_kept assms)

lemma lru_reach_inv: "lru_reach s \<Longrightarrow> lru_inv s"
proof (induction rule: lru_reach.induct)
  case (init n)
  then show ?case
    by (simp add: lru_inv_def lru_counted_def lru_lock_ok_def lru_start_def lru_init_def lru_wf_def lru_entries_def avl_tree_def)
next
  case (step s act s')
  then show ?case using lru_act_kept [of s act] by (simp add: act_kept_def)
qed

lemma lru_acts_reach: "lru_acts acts s = Next s' \<Longrightarrow> lru_reach s \<Longrightarrow> lru_reach s'"
  by (induction acts arbitrary: s) (auto split: outcome.splits intro: lru_reach.step)

section \<open>Properties\<close>

text \<open>
  C23: in every state that any interleaving of the steps of several threads reaches, with fewer than
  $2^{31}$ references at a time, an entry some thread has a reference to is allocated and its use count is
  the number of references, so that the \<open>int\<close> does not overflow; the queue and the tree hold the
  allocated entries, each once. No step that a thread can take next touches a freed entry.
\<close>

theorem lru_held_alive:
  assumes "lru_reach s"
  shows "set (rn_held s) \<subseteq> dom (lru_heap (rn_c s))
    \<and> (\<forall>a e. lru_heap (rn_c s) a = Some e \<longrightarrow> le_users e = int (count_list (rn_held s) a) \<and> le_users e < 2 ^ 31)
    \<and> distinct (lru_q (rn_c s)) \<and> set (lru_q (rn_c s)) = dom (lru_heap (rn_c s))
    \<and> set (inorder (lru_tree (rn_c s))) = lru_entries (rn_c s)
    \<and> (\<forall>act. lru_act act s \<noteq> Crash)"
proof -
  have inv: "lru_inv s" by (rule lru_reach_inv [OF assms])
  have "lru_act act s \<noteq> Crash" for act using lru_act_kept [OF inv, of act] by (auto simp: act_kept_def)
  then show ?thesis using inv by (auto simp: lru_inv_def lru_counted_def lru_wf_def)
qed

lemma dec_zero: "dec_string 0 = ''0''"
  by code_simp

text \<open>A cache with one entry that the thread 7 is about to fill.\<close>

definition lru_sample :: "nat lru" where
  "lru_sample = snd (the (cache_lru 7 100 ''k'' (-1) (lru_init 1000)))"

lemma lru_sample_reach:
  "lru_reach \<lparr> rn_c = lru_sample, rn_lock = Unlocked, rn_held = [100], rn_stores = [] \<rparr>"
proof (rule lru_acts_reach [OF _ lru_reach.init [of 1000]])
  show "lru_acts [Call 7 ''k'' (-1), Advance 100] (lru_start 1000) =
      Next \<lparr> rn_c = lru_sample, rn_lock = Unlocked, rn_held = [100], rn_stores = [] \<rparr>"
    by (simp add: lru_start_def lru_begin_def lru_sample_def cache_lru_def lru_init_def lru_evict.simps Let_def uchar_def)
qed

theorem lru_held_alive_witness: "100 \<in> dom (lru_heap lru_sample) \<and> lru_q lru_sample = [100]"
proof -
  have "lru_q lru_sample = [100]" by (simp add: lru_sample_def cache_lru_def lru_init_def lru_evict.simps Let_def)
  with lru_held_alive [OF lru_sample_reach] show ?thesis by simp
qed


text \<open>
  C25: a call for a key whose entry is in the cache returns that entry, counts a use, makes it the
  newest and drops nothing, except that the thread that is filling it gets null; a call for
  another key first drops the oldest entries without users, one at a time and only while the cache
  is full, and returns null only when no entry without users is left, otherwise the new entry,
  which is the newest and pending.
\<close>

theorem cache_lru_finds_or_evicts:
  assumes "lru_wf c" "nul_free key" "a \<notin> dom (lru_heap c)"
  shows "(\<forall>b e. lru_heap c b = Some e \<and> le_key e = lru_key c key klen \<longrightarrow>
            cache_lru self a key klen c =
              Some (if le_pending e \<and> le_thread e = self then (LRU_recurse, lru_stat ''CACHE RECURSE'' c)
                    else if le_pending e then (LRU_wait b, lru_stat ''CACHE PENDING'' (lru_used b e c))
                    else (LRU_hit b, lru_used b e c)))
    \<and> ((\<forall>b e. lru_heap c b = Some e \<longrightarrow> le_key e \<noteq> lru_key c key klen) \<longrightarrow>
         (\<exists>room c1 k c'. cache_lru self a key klen c = Some (if room then LRU_new a else LRU_full, c')
            \<and> lru_evicted c room c1 k
            \<and> (if room then lru_added self a (lru_key c key klen) c1 c' else c' = c1)))"
  using cache_lru_hit [OF assms(1,2)] cache_lru_miss [OF assms(1,2) _ assms(3), of klen self] by blast

theorem cache_lru_finds_or_evicts_witness:
  "cache_lru 8 200 ''kilo'' 1 lru_sample =
     Some (LRU_wait 100, lru_stat ''CACHE PENDING'' (lru_used 100 (the (lru_heap lru_sample 100)) lru_sample))"
proof -
  have wf: "lru_wf lru_sample" using lru_reach_inv [OF lru_sample_reach] by (simp add: lru_inv_def lru_counted_def)
  have s: "lru_heap lru_sample = [100 \<mapsto> \<lparr> le_key = ''0#k'', le_users = 1, le_pending = True, le_thread = 7,
      le_storage = None, le_size = 0 \<rparr>]" "lru_rindex lru_sample = 0"
    by (simp_all add: lru_sample_def cache_lru_def lru_init_def lru_evict.simps Let_def lru_key_def dec_zero)
  have "nul_free ''kilo''" "200 \<notin> dom (lru_heap lru_sample)" by (simp_all add: uchar_def s)
  note call = cache_lru_finds_or_evicts [OF wf this, of 1 8, THEN conjunct1, rule_format, of 100]
  have "lru_heap lru_sample 100 = Some (the (lru_heap lru_sample 100)) \<and>
      le_key (the (lru_heap lru_sample 100)) = lru_key lru_sample ''kilo'' 1" by (simp add: s lru_key_def dec_zero)
  from call [OF this] show ?thesis by (simp add: s)
qed

end
