(* ===== verification/HashTable.thy ===== *)
theory HashTable
  imports Prelude "HOL-Library.Monad_Syntax"
begin

text \<open>
  The chained hash table and the perfect hash table of \<open>src/util/lib/hash.c\<close>. A key is the list of
  its \<open>klen\<close> bytes; an entry also has the whole string its \<open>key\<close> points to, of which the key may be
  only a part. Data are pointers: where the code tests them or returns them in a place of NULL they
  are of an option type, \<open>None\<close> being the null pointer. An entry carries the address of its \<open>struct hash_entry\<close>: the addresses up to
  \<open>no_buckets\<close> are those of the entries in the main allocation, the greater ones come from \<open>xmalloc\<close>.
  The calls of \<open>free_func\<close> and of \<open>free\<close> on keys and entries are recorded in \<open>ht_frees\<close>.
\<close>

unbundle bit_operations_syntax

section \<open>The hash function\<close>

text \<open>The value of a \<open>char\<close>, which is signed, in the arithmetic on \<open>unsigned long\<close>.\<close>

definition schar :: "char \<Rightarrow> int" where
  "schar c = signed_take_bit 7 (uchar c)"

definition hash_step :: "64 word \<Rightarrow> char \<Rightarrow> 64 word" where
  "hash_step hash c = (push_bit 5 hash + hash) + word_of_int (schar c)"

text \<open>The reference variant under \<open>#if 0\<close>.\<close>

definition hash_table_key_ref :: "char list \<Rightarrow> 64 word" where
  "hash_table_key_ref key = foldl hash_step 5381 key"

text \<open>
  The switch: control enters at the label that is the number of bytes left and falls through the
  labels below it. Then the loop unrolled eight times. Reading \<open>*arKey++\<close> takes the first byte of the
  rest of the key.
\<close>

definition hash_char :: "64 word \<times> char list \<Rightarrow> 64 word \<times> char list" where
  "hash_char s = (hash_step (fst s) (hd (snd s)), tl (snd s))"

definition hash_switch :: "nat \<Rightarrow> 64 word \<Rightarrow> char list \<Rightarrow> 64 word" where
  "hash_switch nKeyLength hash arKey =
     (let s = (hash, arKey);
          s = (if nKeyLength \<in> {7} then hash_char s else s);
          s = (if nKeyLength \<in> {7, 6} then hash_char s else s);
          s = (if nKeyLength \<in> {7, 6, 5} then hash_char s else s);
          s = (if nKeyLength \<in> {7, 6, 5, 4} then hash_char s else s);
          s = (if nKeyLength \<in> {7, 6, 5, 4, 3} then hash_char s else s);
          s = (if nKeyLength \<in> {7, 6, 5, 4, 3, 2} then hash_char s else s);
          s = (if nKeyLength \<in> {7, 6, 5, 4, 3, 2, 1} then hash_char s else s)
      in fst s)"

fun hash_unrolled :: "64 word \<Rightarrow> char list \<Rightarrow> 64 word" where
  "hash_unrolled hash (c1 # c2 # c3 # c4 # c5 # c6 # c7 # c8 # key) =
     (let hash = hash_step hash c1;
          hash = hash_step hash c2;
          hash = hash_step hash c3;
          hash = hash_step hash c4;
          hash = hash_step hash c5;
          hash = hash_step hash c6;
          hash = hash_step hash c7;
          hash = hash_step hash c8
      in hash_unrolled hash key)"
| "hash_unrolled hash key = hash_switch (length key) hash key"

definition hash_table_key :: "char list \<Rightarrow> 64 word" where
  "hash_table_key key = hash_unrolled 5381 key"

section \<open>The table\<close>

function hash_size_loop :: "nat \<Rightarrow> int \<Rightarrow> nat" where
  "hash_size_loop new_size sz =
     (if int new_size < sz then hash_size_loop (2 * new_size + 1) sz else new_size)"
  by pat_completeness auto
termination hash_size_loop
  by (relation "measure (\<lambda>(n, s). nat (s - int n))") auto

declare hash_size_loop.simps [simp del]

definition hash_table_get_size :: "int \<Rightarrow> nat" where
  "hash_table_get_size sz = hash_size_loop 3 sz"

text \<open>
  \<open>he_key\<close> are the \<open>klen\<close> bytes at \<open>entry->key\<close>, \<open>he_str\<close> is the string there up to its terminating NUL
  byte, which may be longer than \<open>klen\<close>.
\<close>

record 'v hash_entry =
  he_addr :: nat
  he_key :: "char list"
  he_str :: "char list"
  he_data :: 'v

datatype 'v hash_free = FreeData 'v | FreeKey "char list" | FreeEntry nat

record 'v hash_table =
  ht_buckets :: "'v hash_entry list list"
  ht_free_func :: bool
  ht_free_keys :: bool
  ht_no_buckets :: nat
  ht_pool :: "nat list"
  ht_next :: nat
  ht_frees :: "'v hash_free list"

text \<open>
  \<open>hash_table_initialize\<close> on zeroed memory for a table of mask \<open>sz\<close>. \<open>ht_next\<close> is an address no
  entry has. The mask is an \<open>int\<close> and \<open>hash_table_alloc_size\<close> adds one to it, so \<open>hash_table_create\<close> is
  for sizes of at most $2^{30} - 1$: a greater one gives the mask $2^{31} - 1$ and the sum overflows.
\<close>

definition hash_table_initialize :: "nat \<Rightarrow> bool \<Rightarrow> 'v hash_table" where
  "hash_table_initialize sz free_func =
     \<lparr> ht_buckets = replicate (sz + 1) [], ht_free_func = free_func, ht_free_keys = False,
       ht_no_buckets = sz, ht_pool = [0..<sz + 1], ht_next = sz + 1, ht_frees = [] \<rparr>"

definition hash_table_create :: "int \<Rightarrow> bool \<Rightarrow> 'v hash_table" where
  "hash_table_create sz free_func = hash_table_initialize (hash_table_get_size sz) free_func"

definition hash_table_get_entry :: "'v hash_table \<Rightarrow> nat \<times> 'v hash_table" where
  "hash_table_get_entry tbl =
     (case ht_pool tbl of
        entry # next \<Rightarrow> (entry, tbl\<lparr> ht_pool := next \<rparr>)
      | [] \<Rightarrow> (ht_next tbl, tbl\<lparr> ht_next := ht_next tbl + 1 \<rparr>))"

definition hash_table_put_entry :: "nat \<Rightarrow> 'v hash_table \<Rightarrow> 'v hash_table" where
  "hash_table_put_entry entry tbl = tbl\<lparr> ht_pool := entry # ht_pool tbl \<rparr>"

definition hash_table_free_keys :: "bool \<Rightarrow> 'v hash_table \<Rightarrow> 'v hash_table" where
  "hash_table_free_keys flag tbl = tbl\<lparr> ht_free_keys := flag \<rparr>"

definition main_alloced :: "'v hash_table \<Rightarrow> nat \<Rightarrow> bool" where
  "main_alloced tbl entry = (entry \<le> ht_no_buckets tbl)"

text \<open>The calls \<open>tbl->free_func(entry->data)\<close> and \<open>free(entry->key)\<close> under their conditions.\<close>

definition free_data :: "'v hash_table \<Rightarrow> 'v \<Rightarrow> 'v hash_free list" where
  "free_data tbl d = (if ht_free_func tbl then [FreeData d] else [])"

definition free_key :: "'v hash_table \<Rightarrow> char list \<Rightarrow> 'v hash_free list" where
  "free_key tbl k = (if ht_free_keys tbl then [FreeKey k] else [])"

definition free_entry :: "'v hash_table \<Rightarrow> nat \<Rightarrow> 'v hash_free list" where
  "free_entry tbl a = (if main_alloced tbl a then [] else [FreeEntry a])"

text \<open>What \<open>hash_table_free\<close> frees before the table itself.\<close>

definition hash_table_free :: "'v hash_table \<Rightarrow> 'v hash_free list" where
  "hash_table_free tbl =
     concat (map (\<lambda>bucket. concat (map (\<lambda>entry. free_data tbl (he_data entry) @ free_key tbl (he_key entry)
                                          @ free_entry tbl (he_addr entry)) bucket)) (ht_buckets tbl))
     @ concat (map (free_entry tbl) (ht_pool tbl))"

section \<open>Operations on a key\<close>

text \<open>
  The bytes a caller's \<open>key\<close> and \<open>klen\<close> stand for: \<open>key\<close> is the string or buffer without its
  terminating NUL, and \<open>klen\<close> is -1 or a number of bytes that it has.
\<close>

definition hkey :: "char list \<Rightarrow> int \<Rightarrow> char list" where
  "hkey key klen = (if klen = -1 then key else take (nat klen) key)"

definition bucket_index :: "'v hash_table \<Rightarrow> char list \<Rightarrow> nat" where
  "bucket_index tbl k = unat (hash_table_key k AND of_nat (ht_no_buckets tbl))"

definition bucket_of :: "'v hash_table \<Rightarrow> char list \<Rightarrow> 'v hash_entry list" where
  "bucket_of tbl k = ht_buckets tbl ! bucket_index tbl k"

definition set_bucket :: "char list \<Rightarrow> 'v hash_entry list \<Rightarrow> 'v hash_table \<Rightarrow> 'v hash_table" where
  "set_bucket k b tbl = tbl\<lparr> ht_buckets := (ht_buckets tbl)[bucket_index tbl k := b] \<rparr>"

text \<open>The data that \<open>hash_table_search\<close> returns and the string it stores in \<open>*out_key\<close>.\<close>

definition hash_table_search :: "'v option hash_table \<Rightarrow> char list \<Rightarrow> int \<Rightarrow> 'v option \<times> char list option" where
  "hash_table_search tbl key klen =
     (let k = hkey key klen
      in case find (\<lambda>entry. he_key entry = k) (bucket_of tbl k) of
           Some entry \<Rightarrow> (he_data entry, Some (he_str entry))
         | None \<Rightarrow> (None, None))"

text \<open>The loop over a chain that stops at the entry with the key, and the entry it changes.\<close>

fun chain_update :: "char list \<Rightarrow> ('v hash_entry \<Rightarrow> 'v hash_entry) \<Rightarrow> 'v hash_entry list \<Rightarrow> 'v hash_entry list" where
  "chain_update k f [] = []"
| "chain_update k f (entry # next) = (if he_key entry = k then f entry # next else entry # chain_update k f next)"

fun chain_unlink :: "char list \<Rightarrow> 'v hash_entry list \<Rightarrow> 'v hash_entry list" where
  "chain_unlink k [] = []"
| "chain_unlink k (entry # next) = (if he_key entry = k then next else entry # chain_unlink k next)"

definition hash_table_insert :: "char list \<Rightarrow> int \<Rightarrow> 'v \<Rightarrow> 'v hash_table \<Rightarrow> 'v hash_table" where
  "hash_table_insert key klen data tbl =
     (let k = hkey key klen; bucket = bucket_of tbl k
      in case find (\<lambda>entry. he_key entry = k) bucket of
           Some entry \<Rightarrow>
             set_bucket k (chain_update k (\<lambda>entry. entry\<lparr> he_key := k, he_str := key, he_data := data \<rparr>) bucket)
               (tbl\<lparr> ht_frees := ht_frees tbl @ free_data tbl (he_data entry) @ free_key tbl (he_key entry) \<rparr>)
         | None \<Rightarrow>
             (let (entry, tbl) = hash_table_get_entry tbl
              in set_bucket k (\<lparr> he_addr = entry, he_key = k, he_str = key, he_data = data \<rparr> # bucket) tbl))"

definition hash_table_replace :: "char list \<Rightarrow> int \<Rightarrow> 'v \<Rightarrow> 'v hash_table \<Rightarrow> bool \<times> 'v hash_table" where
  "hash_table_replace key klen data tbl =
     (let k = hkey key klen; bucket = bucket_of tbl k
      in case find (\<lambda>entry. he_key entry = k) bucket of
           Some entry \<Rightarrow>
             (True, set_bucket k (chain_update k (\<lambda>entry. entry\<lparr> he_data := data \<rparr>) bucket)
               (tbl\<lparr> ht_frees := ht_frees tbl @ free_data tbl (he_data entry) \<rparr>))
         | None \<Rightarrow> (False, tbl))"

definition hash_table_delete :: "char list \<Rightarrow> int \<Rightarrow> 'v hash_table \<Rightarrow> 'v hash_table" where
  "hash_table_delete key klen tbl =
     (let k = hkey key klen; bucket = bucket_of tbl k
      in case find (\<lambda>entry. he_key entry = k) bucket of
           Some entry \<Rightarrow>
             hash_table_put_entry (he_addr entry)
               (set_bucket k (chain_unlink k bucket)
                 (tbl\<lparr> ht_frees := ht_frees tbl @ free_data tbl (he_data entry) @ free_key tbl (he_key entry) \<rparr>))
         | None \<Rightarrow> tbl)"

text \<open>
  \<open>update_func\<close> returns the string for the key of the new entry and its data, \<open>None\<close> for a null pointer.
  The new entry is put in the bucket of the key that was searched for and keeps its length.
\<close>

definition hash_table_update ::
  "char list \<Rightarrow> int \<Rightarrow> (char list \<Rightarrow> char list option \<times> 'v option) \<Rightarrow> 'v option hash_table \<Rightarrow> 'v option \<times> 'v option hash_table" where
  "hash_table_update key klen update_func tbl =
     (let k = hkey key klen; bucket = bucket_of tbl k
      in case find (\<lambda>entry. he_key entry = k) bucket of
           Some entry \<Rightarrow> (he_data entry, tbl)
         | None \<Rightarrow>
             (case update_func k of
                (Some k', Some d) \<Rightarrow>
                  (let (entry, tbl) = hash_table_get_entry tbl
                   in (Some d, set_bucket k (\<lparr> he_addr = entry, he_key = take (length k) k', he_str = k', he_data = Some d \<rparr> # bucket) tbl))
              | _ \<Rightarrow> (None, tbl)))"

section \<open>Loops over the whole table\<close>

text \<open>
  The loops of \<open>hash_table_empty\<close> and \<open>hash_table_delete_by_key_prefix\<close> read the next entry of a
  chain before they delete the current one, which leaves the rest of the chain linked: they visit
  the entries the chain had when the loop reached it.
\<close>

definition hash_table_delete_if :: "('v hash_entry \<Rightarrow> bool) \<Rightarrow> 'v hash_table \<Rightarrow> 'v hash_table" where
  "hash_table_delete_if P tbl =
     fold (\<lambda>cnt tbl. fold (\<lambda>entry tbl. if P entry
                                       then hash_table_delete (he_key entry) (int (length (he_key entry))) tbl
                                       else tbl)
                       (ht_buckets tbl ! cnt) tbl) [0..<ht_no_buckets tbl + 1] tbl"

definition hash_table_empty :: "'v hash_table \<Rightarrow> 'v hash_table" where
  "hash_table_empty tbl = hash_table_delete_if (\<lambda>entry. True) tbl"

definition hash_table_delete_by_key_prefix :: "cstring \<Rightarrow> 'v hash_table \<Rightarrow> 'v hash_table" where
  "hash_table_delete_by_key_prefix key_prefix tbl =
     hash_table_delete_if (\<lambda>entry. strncmp (length key_prefix) key_prefix (he_str entry) = 0) tbl"

text \<open>The entries \<open>hash_table_do\<close> passes to its callback.\<close>

definition hash_table_do :: "'v hash_table \<Rightarrow> (char list \<times> 'v) list" where
  "hash_table_do tbl = concat (map (map (\<lambda>entry. (he_key entry, he_data entry))) (ht_buckets tbl))"

text \<open>
  \<open>hash_table_next\<close>: the state is the number of the current bucket and what is left of its chain;
  \<open>None\<close> before the first call and after the last. The result is the data of the entry, or NULL at the
  end; the second component is what is stored in \<open>*key\<close>, \<open>None\<close> when nothing is.
\<close>

fun next_bucket :: "'v hash_entry list list \<Rightarrow> nat \<Rightarrow> (nat \<times> 'v hash_entry \<times> 'v hash_entry list) option" where
  "next_bucket [] cnt = None"
| "next_bucket ([] # bs) cnt = next_bucket bs (cnt + 1)"
| "next_bucket ((entry # next) # bs) cnt = Some (cnt, entry, next)"

definition hash_table_next ::
  "'v option hash_table \<Rightarrow> (nat \<times> 'v option hash_entry list) option
     \<Rightarrow> 'v option \<times> char list option \<times> (nat \<times> 'v option hash_entry list) option" where
  "hash_table_next tbl state =
     (let (cnt, chain) = (case state of None \<Rightarrow> (0, ht_buckets tbl ! 0) | Some st \<Rightarrow> st)
      in case chain of
           entry # next \<Rightarrow> (he_data entry, Some (he_key entry), Some (cnt, next))
         | [] \<Rightarrow>
             (case next_bucket (drop (cnt + 1) (ht_buckets tbl)) (cnt + 1) of
                Some (cnt, entry, next) \<Rightarrow> (he_data entry, Some (he_key entry), Some (cnt, next))
              | None \<Rightarrow> (None, None, None)))"

section \<open>Perfect hash tables\<close>

text \<open>
  The keys are the byte strings that \<open>keys\<close> and \<open>klens\<close> describe. An entry that no key was put
  into has a null \<open>key\<close> and \<open>klen\<close> 0.
\<close>

record 'v perfect_hash_entry =
  pe_key :: "char list option"
  pe_klen :: nat
  pe_data :: "'v option"

type_synonym 'v perfect_hash_table = "'v perfect_hash_entry list"

text \<open>The loop over the keys with the bitmap of the buckets that are taken.\<close>

fun perfect_fits :: "nat \<Rightarrow> bool list \<Rightarrow> 64 word list \<Rightarrow> bool" where
  "perfect_fits nbuckets bitmap [] = True"
| "perfect_fits nbuckets bitmap (v # vals) =
     (let b = unat v mod nbuckets
      in if bitmap ! b then False else perfect_fits nbuckets (bitmap[b := True]) vals)"

function perfect_size :: "nat \<Rightarrow> nat \<Rightarrow> 64 word list \<Rightarrow> nat option" where
  "perfect_size nbuckets max_buckets vals =
     (if nbuckets \<le> max_buckets
      then if perfect_fits nbuckets (replicate nbuckets False) vals then Some nbuckets
           else perfect_size (nbuckets + 1) max_buckets vals
      else None)"
  by pat_completeness auto
termination perfect_size
  by (relation "measure (\<lambda>(n, m, vals). m + 1 - n)") auto

declare perfect_size.simps [simp del]

definition perfect_hash_create :: "nat \<Rightarrow> char list list \<Rightarrow> 'v perfect_hash_table option" where
  "perfect_hash_create max_buckets keys =
     (let vals = map hash_table_key keys
      in case perfect_size (length keys) max_buckets vals of
           None \<Rightarrow> None
         | Some nbuckets \<Rightarrow>
             Some (fold (\<lambda>key buckets. buckets[unat (hash_table_key key) mod nbuckets :=
                                  (buckets ! (unat (hash_table_key key) mod nbuckets))\<lparr> pe_key := Some key, pe_klen := length key \<rparr>])
                     keys (replicate nbuckets \<lparr> pe_key = None, pe_klen = 0, pe_data = None \<rparr>)))"

text \<open>
  The number of the entry whose \<open>data\<close> the result points to, \<open>None\<close> for a null pointer. The outer
  \<open>None\<close> is the division by the number of buckets when that is zero. \<open>memcmp\<close> of no bytes is 0,
  also when the entry has a null key.
\<close>

definition perfect_hash_search :: "'v perfect_hash_table \<Rightarrow> char list \<Rightarrow> int \<Rightarrow> nat option option" where
  "perfect_hash_search tbl key klen =
     (let k = hkey key klen; num_buckets = length tbl
      in if num_buckets = 0 then None
         else let b = (if num_buckets = 1 then 0 else unat (hash_table_key k) mod num_buckets); entry = tbl ! b
              in Some (if length k = pe_klen entry \<and> (k = [] \<or> pe_key entry = Some k) then Some b else None))"

definition perfect_hash_map_values ::
  "bool \<Rightarrow> ('v option \<Rightarrow> 'v option) \<Rightarrow> 'v perfect_hash_table \<Rightarrow> 'v perfect_hash_table" where
  "perfect_hash_map_values only_set f tbl =
     map (\<lambda>entry. if \<not> only_set \<or> pe_data entry \<noteq> None then entry\<lparr> pe_data := f (pe_data entry) \<rparr> else entry) tbl"

text \<open>What \<open>perfect_hash_free\<close> frees before the table itself.\<close>

definition perfect_hash_free :: "bool \<Rightarrow> bool \<Rightarrow> 'v perfect_hash_table \<Rightarrow> 'v hash_free list" where
  "perfect_hash_free free_keys has_free_data tbl =
     concat (map (\<lambda>entry. (case pe_key entry of Some k \<Rightarrow> if free_keys then [FreeKey k] else [] | None \<Rightarrow> [])
                        @ (case pe_data entry of Some d \<Rightarrow> if has_free_data then [FreeData d] else [] | None \<Rightarrow> [])) tbl)"

end
