(* ===== verification/HashTableSpec.thy ===== *)
theory HashTableSpec
  imports HashTable "HOL-Library.Multiset"
begin

text \<open>
  Correctness of the hash tables: the unrolled hash function computes the reference one, the table
  is a map from keys to data whose entry structures each have one owner, and a perfect hash table
  finds exactly the keys it was made from.
\<close>

section \<open>Dictionaries\<close>

text \<open>
  What a client of a table of keys relies on: a view as a map and how deletion and insertion act on
  it.
\<close>

locale deletable =
  fixes inv :: "'t \<Rightarrow> bool" and view :: "'t \<Rightarrow> 'k \<rightharpoonup> 'v" and delete :: "'k \<Rightarrow> 't \<Rightarrow> 't"
  assumes delete_inv: "inv t \<Longrightarrow> inv (delete k t)"
    and view_delete: "inv t \<Longrightarrow> view (delete k t) = (view t)(k := None)"
begin

lemma fold_delete:
  "inv t \<Longrightarrow> inv (fold delete ks t) \<and> view (fold delete ks t) = view t |` (- set ks)"
proof (induction ks arbitrary: t)
  case (Cons k ks)
  have "view (delete k t) |` (- set ks) = view t |` (- set (k # ks))"
    unfolding view_delete [OF Cons.prems] by (rule ext) (auto simp: restrict_map_def)
  with Cons.IH [OF delete_inv [OF Cons.prems]] show ?case by simp
qed (simp add: restrict_map_def)

end

locale dictionary = deletable inv view delete
  for inv :: "'t \<Rightarrow> bool" and view :: "'t \<Rightarrow> 'k \<rightharpoonup> 'v" and delete :: "'k \<Rightarrow> 't \<Rightarrow> 't" +
  fixes insert :: "'k \<Rightarrow> 'v \<Rightarrow> 't \<Rightarrow> 't"
  assumes insert_inv: "inv t \<Longrightarrow> inv (insert k v t)"
    and view_insert: "inv t \<Longrightarrow> view (insert k v t) = (view t)(k \<mapsto> v)"
begin

lemma fold_insert:
  "inv t \<Longrightarrow> inv (fold (\<lambda>(k, v). insert k v) kvs t) \<and> view (fold (\<lambda>(k, v). insert k v) kvs t) = view t ++ map_of (rev kvs)"
proof (induction kvs arbitrary: t)
  case (Cons kv kvs)
  obtain k v where kv: "kv = (k, v)" by (cases kv)
  have "view (insert k v t) ++ map_of (rev kvs) = view t ++ map_of (rev (kv # kvs))"
    unfolding view_insert [OF Cons.prems] kv by (rule ext) (auto simp: map_add_def split: option.splits)
  with Cons.IH [OF insert_inv [OF Cons.prems]] show ?case by (simp add: kv)
qed simp

end

section \<open>The hash function\<close>

lemma hash_unrolled_foldl: "hash_unrolled hash key = foldl hash_step hash key"
  by (induction hash key rule: hash_unrolled.induct) (simp_all add: Let_def hash_switch_def hash_char_def)

section \<open>The mask of a table\<close>

lemma hash_size_loop_mask:
  assumes "sz < 2 ^ 30" "\<exists>m \<le> 30. n = 2 ^ m - 1"
  shows "\<exists>m \<le> 30. hash_size_loop n sz = 2 ^ m - 1"
  using assms
proof (induction n sz rule: hash_size_loop.induct)
  case (1 n sz)
  then obtain m where m: "n = 2 ^ m - 1" "m \<le> 30" by blast
  show ?case
  proof (cases "int n < sz")
    case True
    have "m \<noteq> 30" using True 1(2) m(1) by auto
    have "1 \<le> (2 :: nat) ^ m" by simp
    then have "2 * n + 1 = 2 ^ Suc m - 1" unfolding m(1) power_Suc by linarith
    with \<open>m \<noteq> 30\<close> m(2) have "\<exists>m \<le> 30. 2 * n + 1 = 2 ^ m - 1" by (intro exI [of _ "Suc m"]) simp
    with 1(1) [OF True 1(2)] True show ?thesis unfolding hash_size_loop.simps [of n sz] by simp
  next
    case False
    with m show ?thesis unfolding hash_size_loop.simps [of n sz] by auto
  qed
qed

lemma hash_size_loop_ge: "sz \<le> int (hash_size_loop n sz) \<and> n \<le> hash_size_loop n sz"
proof (induction n sz rule: hash_size_loop.induct)
  case (1 n sz)
  then show ?case unfolding hash_size_loop.simps [of n sz] by (cases "int n < sz") simp_all
qed

section \<open>Chains\<close>

lemma find_he_key: "find (\<lambda>entry. he_key entry = k) b = Some e \<Longrightarrow> e \<in> set b \<and> he_key e = k"
  by (auto simp: find_Some_iff)

lemma chain_update_find:
  assumes "\<And>e. he_key e = k \<Longrightarrow> he_key (f e) = k"
  shows "find (\<lambda>e. he_key e = k') (chain_update k f b) =
    (if k' = k then map_option f (find (\<lambda>e. he_key e = k) b) else find (\<lambda>e. he_key e = k') b)"
  by (induction b) (auto simp: assms)

lemma chain_update_keys:
  assumes "\<And>e. he_key e = k \<Longrightarrow> he_key (f e) = k" "\<And>e. he_addr (f e) = he_addr e"
  shows "map he_key (chain_update k f b) = map he_key b" "map he_addr (chain_update k f b) = map he_addr b"
  by (induction b) (auto simp: assms)

lemma chain_unlink_filter:
  "distinct (map he_key b) \<Longrightarrow> chain_unlink k b = filter (\<lambda>e. he_key e \<noteq> k) b"
proof (induction b)
  case (Cons e b)
  have "he_key x \<noteq> he_key e" if "x \<in> set b" for x
    using Cons.prems imageI [OF that, of he_key] by auto
  then have "filter (\<lambda>x. he_key x \<noteq> he_key e) b = b" by (simp add: filter_id_conv)
  with Cons show ?case by auto
qed simp

lemma chain_unlink_mset:
  "find (\<lambda>e. he_key e = k) b = Some e \<Longrightarrow> add_mset e (mset (chain_unlink k b)) = mset b"
  by (induction b) (auto split: if_splits)

lemma mset_concat_update:
  "i < length bs \<Longrightarrow> mset (concat (bs[i := b])) + mset (bs ! i) = mset (concat bs) + mset b"
  by (induction bs arbitrary: i) (auto split: nat.splits simp: add.assoc add.commute add.left_commute)

section \<open>The invariant\<close>

text \<open>
  Every entry is in the bucket of its key, no chain has a key twice, and every entry structure is
  in exactly one place: linked in a chain, or in the pool of unused ones.
\<close>

definition ht_shape :: "'v hash_table \<Rightarrow> bool" where
  "ht_shape tbl = (length (ht_buckets tbl) = ht_no_buckets tbl + 1 \<and> ht_no_buckets tbl < 2 ^ 31
     \<and> (\<forall>i < length (ht_buckets tbl). \<forall>e \<in> set (ht_buckets tbl ! i). bucket_index tbl (he_key e) = i)
     \<and> (\<forall>b \<in> set (ht_buckets tbl). distinct (map he_key b)))"

definition ht_owned :: "'v hash_table \<Rightarrow> bool" where
  "ht_owned tbl = (ht_no_buckets tbl < ht_next tbl
     \<and> mset (map he_addr (concat (ht_buckets tbl))) + mset (ht_pool tbl) = mset [0..<ht_next tbl])"

definition ht_ok :: "'v hash_table \<Rightarrow> bool" where
  "ht_ok tbl = (ht_shape tbl \<and> ht_owned tbl)"

text \<open>The entry of a key, and the maps from keys to data and to the strings of their entries.\<close>

definition ht_find :: "('v hash_entry \<Rightarrow> 'a) \<Rightarrow> 'v hash_table \<Rightarrow> char list \<rightharpoonup> 'a" where
  "ht_find g tbl k = map_option g (find (\<lambda>e. he_key e = k) (bucket_of tbl k))"

abbreviation ht_view :: "'v hash_table \<Rightarrow> char list \<rightharpoonup> 'v" where
  "ht_view \<equiv> ht_find he_data"

abbreviation ht_str :: "'v hash_table \<Rightarrow> char list \<rightharpoonup> char list" where
  "ht_str \<equiv> ht_find he_str"

lemma bucket_index_le: "ht_no_buckets tbl < 2 ^ 31 \<Longrightarrow> bucket_index tbl k \<le> ht_no_buckets tbl"
proof -
  assume nb: "ht_no_buckets tbl < 2 ^ 31"
  let ?m = "of_nat (ht_no_buckets tbl) :: 64 word"
  have "uint (hash_table_key k AND ?m) \<le> uint ?m"
    unfolding uint_and by (rule AND_upper2) simp
  then have "unat (hash_table_key k AND ?m) \<le> unat ?m"
    unfolding word_le_def [symmetric] word_le_nat_alt .
  also have "unat ?m = ht_no_buckets tbl" using nb by (simp add: unsigned_of_nat take_bit_nat_eq_self_iff)
  finally show ?thesis by (simp add: bucket_index_def)
qed

lemma bucket_index_less: "ht_shape tbl \<Longrightarrow> bucket_index tbl k < length (ht_buckets tbl)"
  using bucket_index_le [of tbl k] by (simp add: ht_shape_def)

lemma bucket_index_cong: "ht_no_buckets t = ht_no_buckets t' \<Longrightarrow> bucket_index t k = bucket_index t' k"
  by (simp add: bucket_index_def)

lemma bucket_distinct: "ht_shape tbl \<Longrightarrow> distinct (map he_key (bucket_of tbl k))"
  using bucket_index_less [of tbl k] by (simp add: ht_shape_def bucket_of_def)

lemma ht_find_same:
  "bucket_index tbl k' = bucket_index tbl k \<Longrightarrow>
   ht_find g tbl k' = map_option g (find (\<lambda>e. he_key e = k') (bucket_of tbl k))"
  by (simp add: ht_find_def bucket_of_def)

text \<open>Putting another chain in the bucket of a key.\<close>

lemma set_bucket_shape:
  assumes "ht_shape tbl" "distinct (map he_key b)"
    "\<forall>e \<in> set b. he_key e = k \<or> e \<in> set (bucket_of tbl k) \<or> he_key e \<in> he_key ` set (bucket_of tbl k)"
  shows "ht_shape (set_bucket k b tbl)"
proof -
  let ?i = "bucket_index tbl k"
  have i: "?i < length (ht_buckets tbl)" by (rule bucket_index_less [OF assms(1)])
  have "bucket_index tbl (he_key e) = ?i" if "e \<in> set b" for e
    using assms(1,3) that i by (auto simp: ht_shape_def bucket_of_def)
  then show ?thesis
    using assms(1,2) i
    by (auto simp: ht_shape_def set_bucket_def nth_list_update bucket_index_def dest!: set_update_subset_insert [THEN subsetD])
qed

lemma set_bucket_view:
  assumes "ht_shape tbl"
  shows "ht_find g (set_bucket k b tbl) k' =
    (if bucket_index tbl k' = bucket_index tbl k then map_option g (find (\<lambda>e. he_key e = k') b) else ht_find g tbl k')"
  using bucket_index_less [OF assms]
  by (auto simp: ht_find_def set_bucket_def bucket_of_def bucket_index_def nth_list_update)

lemma set_bucket_owned:
  assumes "ht_shape tbl" "ht_no_buckets tbl < ht_next tbl"
    "mset (map he_addr (concat (ht_buckets tbl))) + mset (map he_addr b) + mset (ht_pool tbl) =
     mset [0..<ht_next tbl] + mset (map he_addr (bucket_of tbl k))"
  shows "ht_owned (set_bucket k b tbl)"
proof -
  let ?i = "bucket_index tbl k"
  have "mset (concat ((ht_buckets tbl)[?i := b])) + mset (bucket_of tbl k) = mset (concat (ht_buckets tbl)) + mset b"
    unfolding bucket_of_def by (rule mset_concat_update [OF bucket_index_less [OF assms(1)]])
  then have "image_mset he_addr (mset (concat ((ht_buckets tbl)[?i := b])) + mset (bucket_of tbl k))
    = image_mset he_addr (mset (concat (ht_buckets tbl)) + mset b)" by simp
  then have "mset (map he_addr (concat ((ht_buckets tbl)[?i := b]))) + mset (ht_pool tbl) + mset (map he_addr (bucket_of tbl k))
    = mset [0..<ht_next tbl] + mset (map he_addr (bucket_of tbl k))"
    using assms(3) by (simp add: ac_simps)
  then show ?thesis using assms(2) by (simp add: ht_owned_def set_bucket_def)
qed

section \<open>The operations as map operations\<close>

lemma hkey_self [simp]: "hkey k (-1) = k" "hkey k (int (length k)) = k"
  by (simp_all add: hkey_def)

lemma ht_frees_irrelevant [simp]:
  "ht_shape (tbl\<lparr> ht_frees := fs \<rparr>) = ht_shape tbl" "ht_owned (tbl\<lparr> ht_frees := fs \<rparr>) = ht_owned tbl"
  "ht_find g (tbl\<lparr> ht_frees := fs \<rparr>) = ht_find g tbl" "bucket_of (tbl\<lparr> ht_frees := fs \<rparr>) = bucket_of tbl"
  by (auto simp: ht_shape_def ht_owned_def ht_find_def [abs_def] bucket_of_def [abs_def] bucket_index_def)

lemma ht_pool_irrelevant [simp]:
  "ht_shape (tbl\<lparr> ht_pool := p \<rparr>) = ht_shape tbl" "ht_find g (tbl\<lparr> ht_pool := p \<rparr>) = ht_find g tbl"
  "bucket_of (tbl\<lparr> ht_pool := p \<rparr>) = bucket_of tbl" "ht_shape (tbl\<lparr> ht_next := n \<rparr>) = ht_shape tbl"
  "ht_find g (tbl\<lparr> ht_next := n \<rparr>) = ht_find g tbl" "bucket_of (tbl\<lparr> ht_next := n \<rparr>) = bucket_of tbl"
  by (auto simp: ht_shape_def ht_find_def [abs_def] bucket_of_def [abs_def] bucket_index_def)

lemma update_chain_ok:
  assumes "ht_ok tbl" "\<And>e. he_key e = k \<Longrightarrow> he_key (f e) = k" "\<And>e. he_addr (f e) = he_addr e"
    "find (\<lambda>e. he_key e = k) (bucket_of tbl k) = Some e"
  shows "ht_ok (set_bucket k (chain_update k f (bucket_of tbl k)) tbl)"
    and "ht_find g (set_bucket k (chain_update k f (bucket_of tbl k)) tbl) = (ht_find g tbl)(k \<mapsto> g (f e))"
proof -
  let ?b = "chain_update k f (bucket_of tbl k)"
  have sh: "ht_shape tbl" and ow: "ht_owned tbl" using assms(1) by (auto simp: ht_ok_def)
  note keys = chain_update_keys [where b = "bucket_of tbl k", OF assms(2,3)]
  have "he_key ` set ?b = he_key ` set (bucket_of tbl k)" using arg_cong [OF keys(1), of set] by simp
  then have "ht_shape (set_bucket k ?b tbl)"
    using bucket_distinct [OF sh, of k] keys(1) by (intro set_bucket_shape [OF sh]) auto
  moreover have "ht_owned (set_bucket k ?b tbl)"
    using ow keys(2) by (intro set_bucket_owned [OF sh]) (auto simp: ht_owned_def ac_simps)
  ultimately show "ht_ok (set_bucket k ?b tbl)" by (simp add: ht_ok_def)
  show "ht_find g (set_bucket k ?b tbl) = (ht_find g tbl)(k \<mapsto> g (f e))"
  proof (rule ext)
    fix k'
    show "ht_find g (set_bucket k ?b tbl) k' = ((ht_find g tbl)(k \<mapsto> g (f e))) k'"
      using assms(4) ht_find_same [of tbl k' k g]
      by (auto simp: set_bucket_view [OF sh] chain_update_find [OF assms(2)])
  qed
qed

lemma get_entry_ok:
  assumes "ht_ok tbl" "hash_table_get_entry tbl = (a, tbl')"
  shows "ht_shape tbl'" "ht_find g tbl' = ht_find g tbl" "bucket_of tbl' = bucket_of tbl" "ht_no_buckets tbl' < ht_next tbl'"
    "mset (map he_addr (concat (ht_buckets tbl'))) + mset (ht_pool tbl') + {#a#} = mset [0..<ht_next tbl']"
  using assms by (auto simp: hash_table_get_entry_def ht_ok_def ht_owned_def atLeastLessThanSuc split: list.splits)

lemma add_entry_ok:
  assumes "ht_ok tbl" "hash_table_get_entry tbl = (a, tbl')" "find (\<lambda>e. he_key e = k) (bucket_of tbl k) = None"
  shows "ht_ok (set_bucket k (\<lparr> he_addr = a, he_key = k, he_str = str, he_data = d \<rparr> # bucket_of tbl k) tbl')"
    and "ht_find g (set_bucket k (\<lparr> he_addr = a, he_key = k, he_str = str, he_data = d \<rparr> # bucket_of tbl k) tbl') = (ht_find g tbl)(k \<mapsto> g \<lparr> he_addr = a, he_key = k, he_str = str, he_data = d \<rparr>)"
proof -
  let ?b = "\<lparr> he_addr = a, he_key = k, he_str = str, he_data = d \<rparr> # bucket_of tbl k"
  note t' = get_entry_ok [OF assms(1,2)]
  have "k \<notin> he_key ` set (bucket_of tbl k)" using assms(3) by (auto simp: find_None_iff)
  then have "ht_shape (set_bucket k ?b tbl')"
    using bucket_distinct [OF t'(1), of k] t'(3) by (intro set_bucket_shape [OF t'(1)]) auto
  moreover have "ht_owned (set_bucket k ?b tbl')"
    using t'(4,5) by (intro set_bucket_owned [OF t'(1)]) (simp_all add: t'(3) ac_simps)
  ultimately show "ht_ok (set_bucket k ?b tbl')" by (simp add: ht_ok_def)
  have "ht_find g tbl k' = map_option g (find (\<lambda>e. he_key e = k') (bucket_of tbl k))"
    if "bucket_index tbl' k' = bucket_index tbl' k" for k'
  proof -
    have "bucket_of tbl k' = bucket_of tbl k" unfolding t'(3) [symmetric] bucket_of_def that ..
    then show ?thesis by (simp add: ht_find_def)
  qed
  then show "ht_find g (set_bucket k ?b tbl') = (ht_find g tbl)(k \<mapsto> g \<lparr> he_addr = a, he_key = k, he_str = str, he_data = d \<rparr>)"
    by (intro ext) (auto simp: set_bucket_view [OF t'(1)] t'(2))
qed

lemma delete_chain_ok:
  assumes "ht_ok tbl" "find (\<lambda>e. he_key e = k) (bucket_of tbl k) = Some e"
  shows "ht_ok (hash_table_put_entry (he_addr e) (set_bucket k (chain_unlink k (bucket_of tbl k)) tbl))"
    and "ht_find g (hash_table_put_entry (he_addr e) (set_bucket k (chain_unlink k (bucket_of tbl k)) tbl)) = (ht_find g tbl)(k := None)"
proof -
  let ?b = "chain_unlink k (bucket_of tbl k)"
  have sh: "ht_shape tbl" and ow: "ht_owned tbl" using assms(1) by (auto simp: ht_ok_def)
  have b: "?b = filter (\<lambda>e. he_key e \<noteq> k) (bucket_of tbl k)"
    by (rule chain_unlink_filter [OF bucket_distinct [OF sh]])
  let ?t = "tbl\<lparr> ht_pool := he_addr e # ht_pool tbl \<rparr>"
  have sh': "ht_shape ?t" using sh by simp
  have "image_mset he_addr (mset (bucket_of tbl k)) = add_mset (he_addr e) (image_mset he_addr (mset ?b))"
    using arg_cong [OF chain_unlink_mset [OF assms(2)], of "image_mset he_addr"] by simp
  then have "ht_owned (set_bucket k ?b ?t)"
    using ow by (intro set_bucket_owned [OF sh']) (auto simp: ht_owned_def ac_simps)
  moreover have "ht_shape (set_bucket k ?b ?t)"
    using bucket_distinct [OF sh, of k] unfolding b
    by (intro set_bucket_shape [OF sh']) (auto simp: distinct_map_filter)
  moreover have put: "hash_table_put_entry (he_addr e) (set_bucket k ?b tbl) = set_bucket k ?b ?t"
    by (simp add: hash_table_put_entry_def set_bucket_def bucket_index_def)
  ultimately show "ht_ok (hash_table_put_entry (he_addr e) (set_bucket k ?b tbl))" by (simp add: ht_ok_def)
  have f: "find (\<lambda>e. he_key e = k') (filter (\<lambda>e. he_key e \<noteq> k) xs) = (if k' = k then None else find (\<lambda>e. he_key e = k') xs)" for k' and xs :: "'a hash_entry list"
    by (induction xs) auto
  have "ht_find g tbl k' = map_option g (find (\<lambda>e. he_key e = k') (bucket_of tbl k))"
    if "bucket_index ?t k' = bucket_index ?t k" for k'
    using that by (simp add: ht_find_def bucket_of_def bucket_index_def)
  then show "ht_find g (hash_table_put_entry (he_addr e) (set_bucket k ?b tbl)) = (ht_find g tbl)(k := None)"
    unfolding put by (intro ext) (auto simp: set_bucket_view [OF sh'] b f)
qed

lemma insert_ok:
  assumes "ht_ok tbl"
  shows "ht_ok (hash_table_insert key klen d tbl)"
    "ht_view (hash_table_insert key klen d tbl) = (ht_view tbl)(hkey key klen \<mapsto> d)"
    "ht_str (hash_table_insert key klen d tbl) = (ht_str tbl)(hkey key klen \<mapsto> key)"
proof -
  let ?k = "hkey key klen"
  have "ht_ok (hash_table_insert key klen d tbl)
      \<and> ht_view (hash_table_insert key klen d tbl) = (ht_view tbl)(?k \<mapsto> d)
      \<and> ht_str (hash_table_insert key klen d tbl) = (ht_str tbl)(?k \<mapsto> key)"
  proof (cases "find (\<lambda>e. he_key e = ?k) (bucket_of tbl ?k)")
    case None
    obtain a tbl' where "hash_table_get_entry tbl = (a, tbl')" by fastforce
    with add_entry_ok(1) [OF assms this None] add_entry_ok(2) [OF assms this None, of he_data] add_entry_ok(2) [OF assms this None, of he_str] None show ?thesis by (simp add: hash_table_insert_def Let_def)
  next
    case (Some e)
    let ?t = "tbl\<lparr> ht_frees := ht_frees tbl @ free_data tbl (he_data e) @ free_key tbl (he_key e) \<rparr>"
    have "ht_ok ?t" using assms by (simp add: ht_ok_def)
    note upd = update_chain_ok [OF this, of ?k "\<lambda>entry. entry\<lparr> he_key := ?k, he_str := key, he_data := d \<rparr>" e]
    from upd(1) upd(2) [of he_data] upd(2) [of he_str] Some show ?thesis
      by (simp add: hash_table_insert_def Let_def)
  qed
  then show "ht_ok (hash_table_insert key klen d tbl)"
    "ht_view (hash_table_insert key klen d tbl) = (ht_view tbl)(?k \<mapsto> d)"
    "ht_str (hash_table_insert key klen d tbl) = (ht_str tbl)(?k \<mapsto> key)" by auto
qed

lemma delete_ok:
  assumes "ht_ok tbl"
  shows "ht_ok (hash_table_delete key klen tbl)"
    "ht_find g (hash_table_delete key klen tbl) = (ht_find g tbl)(hkey key klen := None)"
proof -
  let ?k = "hkey key klen"
  have "ht_ok (hash_table_delete key klen tbl)
      \<and> ht_find g (hash_table_delete key klen tbl) = (ht_find g tbl)(?k := None)"
  proof (cases "find (\<lambda>e. he_key e = ?k) (bucket_of tbl ?k)")
    case None
    then have "ht_find g tbl ?k = None" by (simp add: ht_find_def)
    then have "(ht_find g tbl)(?k := None) = ht_find g tbl" by (rule fun_upd_idem)
    with None assms show ?thesis by (simp add: hash_table_delete_def Let_def)
  next
    case (Some e)
    let ?t = "tbl\<lparr> ht_frees := ht_frees tbl @ free_data tbl (he_data e) @ free_key tbl (he_key e) \<rparr>"
    have "ht_ok ?t" using assms by (simp add: ht_ok_def)
    from delete_chain_ok [OF this, of ?k e] Some show ?thesis
      by (simp add: hash_table_delete_def Let_def)
  qed
  then show "ht_ok (hash_table_delete key klen tbl)"
    "ht_find g (hash_table_delete key klen tbl) = (ht_find g tbl)(?k := None)" by auto
qed

interpretation ht_any: deletable ht_ok "ht_find g" "\<lambda>k. hash_table_delete k (-1)"
  for g :: "'v hash_entry \<Rightarrow> 'a"
  by unfold_locales (simp_all add: delete_ok)

interpretation ht: dictionary ht_ok ht_view "\<lambda>k. hash_table_delete k (-1)" "\<lambda>k. hash_table_insert k (-1)"
  by unfold_locales (simp_all add: insert_ok)

lemma replace_ok:
  assumes "ht_ok tbl"
  shows "fst (hash_table_replace key klen d tbl) \<longleftrightarrow> ht_view tbl (hkey key klen) \<noteq> None"
    "ht_ok (snd (hash_table_replace key klen d tbl))"
    "ht_view (snd (hash_table_replace key klen d tbl)) =
       (if ht_view tbl (hkey key klen) = None then ht_view tbl else (ht_view tbl)(hkey key klen \<mapsto> d))"
    "ht_str (snd (hash_table_replace key klen d tbl)) = ht_str tbl"
proof -
  let ?k = "hkey key klen"
  have "(fst (hash_table_replace key klen d tbl) \<longleftrightarrow> ht_view tbl ?k \<noteq> None)
    \<and> ht_ok (snd (hash_table_replace key klen d tbl))
    \<and> ht_view (snd (hash_table_replace key klen d tbl)) =
       (if ht_view tbl ?k = None then ht_view tbl else (ht_view tbl)(?k \<mapsto> d))
    \<and> ht_str (snd (hash_table_replace key klen d tbl)) = ht_str tbl"
  proof (cases "find (\<lambda>e. he_key e = ?k) (bucket_of tbl ?k)")
    case None
    then show ?thesis using assms by (simp add: hash_table_replace_def Let_def ht_find_def)
  next
    case (Some e)
    let ?t = "tbl\<lparr> ht_frees := ht_frees tbl @ free_data tbl (he_data e) \<rparr>"
    have "ht_ok ?t" using assms by (simp add: ht_ok_def)
    note upd = update_chain_ok [OF this, of ?k "\<lambda>entry. entry\<lparr> he_data := d \<rparr>" e]
    from upd(1) upd(2) [of he_data] upd(2) [of he_str] Some show ?thesis
      by (simp add: hash_table_replace_def Let_def) (simp add: ht_find_def fun_upd_idem)
  qed
  then show "fst (hash_table_replace key klen d tbl) \<longleftrightarrow> ht_view tbl ?k \<noteq> None"
    "ht_ok (snd (hash_table_replace key klen d tbl))"
    "ht_view (snd (hash_table_replace key klen d tbl)) =
       (if ht_view tbl ?k = None then ht_view tbl else (ht_view tbl)(?k \<mapsto> d))"
    "ht_str (snd (hash_table_replace key klen d tbl)) = ht_str tbl" by auto
qed

lemma update_ok:
  assumes "ht_ok tbl" "\<forall>k'. fst (f (hkey key klen)) = Some k' \<longrightarrow> take (length (hkey key klen)) k' = hkey key klen"
  shows "ht_ok (snd (hash_table_update key klen f tbl))"
    "case ht_view tbl (hkey key klen) of
       Some d \<Rightarrow> hash_table_update key klen f tbl = (d, tbl)
     | None \<Rightarrow>
         (case f (hkey key klen) of
            (Some k', Some d) \<Rightarrow> fst (hash_table_update key klen f tbl) = Some d
              \<and> ht_view (snd (hash_table_update key klen f tbl)) = (ht_view tbl)(hkey key klen \<mapsto> Some d)
              \<and> ht_str (snd (hash_table_update key klen f tbl)) = (ht_str tbl)(hkey key klen \<mapsto> k')
          | _ \<Rightarrow> hash_table_update key klen f tbl = (None, tbl))"
proof -
  let ?k = "hkey key klen"
  obtain a tbl' where e: "hash_table_get_entry tbl = (a, tbl')" by fastforce
  obtain k' d where f: "f ?k = (k', d)" by fastforce
  have k': "\<And>k''. k' = Some k'' \<Longrightarrow> take (length ?k) k'' = ?k" using assms(2) f by simp
  show "ht_ok (snd (hash_table_update key klen f tbl))"
    using assms(1) add_entry_ok(1) [OF assms(1) e, of ?k] k'
    by (auto simp: hash_table_update_def Let_def e f split: option.split)
  show "case ht_view tbl ?k of
       Some d \<Rightarrow> hash_table_update key klen f tbl = (d, tbl)
     | None \<Rightarrow>
         (case f ?k of
            (Some k', Some d) \<Rightarrow> fst (hash_table_update key klen f tbl) = Some d
              \<and> ht_view (snd (hash_table_update key klen f tbl)) = (ht_view tbl)(?k \<mapsto> Some d)
              \<and> ht_str (snd (hash_table_update key klen f tbl)) = (ht_str tbl)(?k \<mapsto> k')
          | _ \<Rightarrow> hash_table_update key klen f tbl = (None, tbl))"
  proof (cases "find (\<lambda>e. he_key e = ?k) (bucket_of tbl ?k)")
    case None
    then have "ht_view tbl ?k = None" by (simp add: ht_find_def)
    with None add_entry_ok(2) [OF assms(1) e None, of he_data] add_entry_ok(2) [OF assms(1) e None, of he_str] k' show ?thesis
      by (auto simp: hash_table_update_def Let_def e f split: option.split)
  next
    case (Some e)
    then have "ht_view tbl ?k = Some (he_data e)" by (simp add: ht_find_def)
    with Some show ?thesis by (simp add: hash_table_update_def Let_def)
  qed
qed

section \<open>Whole tables\<close>

lemma initialize_ok:
  assumes sz: "sz < 2 ^ 31"
  shows "ht_ok (hash_table_initialize sz f :: 'v hash_table)"
    "ht_find g (hash_table_initialize sz f :: 'v hash_table) = Map.empty"
proof -
  let ?t = "hash_table_initialize sz f :: 'v hash_table"
  have "ht_shape ?t" using sz by (auto simp: hash_table_initialize_def ht_shape_def nth_append nth_replicate simp del: replicate_Suc replicate.simps)
  moreover have "concat (replicate n []) = []" for n by (induction n) auto
  then have "ht_owned ?t" by (simp add: hash_table_initialize_def ht_owned_def del: replicate_Suc replicate.simps)
  moreover have "ht_find g ?t k = None" for k
    using bucket_index_less [OF \<open>ht_shape ?t\<close>, of k]
    by (simp add: ht_find_def bucket_of_def hash_table_initialize_def del: replicate_Suc replicate.simps)
  ultimately show "ht_ok ?t" "ht_find g ?t = Map.empty" by (auto simp: ht_ok_def)
qed

lemma create_ok:
  assumes "sz < 2 ^ 30"
  shows "ht_ok (hash_table_create sz f :: 'v hash_table)" "ht_find g (hash_table_create sz f :: 'v hash_table) = Map.empty"
    "\<exists>m \<le> 30. ht_no_buckets (hash_table_create sz f :: 'v hash_table) = 2 ^ m - 1"
    "sz \<le> int (ht_no_buckets (hash_table_create sz f :: 'v hash_table))"
proof -
  have "\<exists>m \<le> 30. (3 :: nat) = 2 ^ m - 1" by (intro exI [of _ 2]) simp
  from hash_size_loop_mask [OF assms this] obtain m where m: "m \<le> 30" "hash_table_get_size sz = 2 ^ m - 1"
    by (auto simp: hash_table_get_size_def)
  have "(2 :: nat) ^ m \<le> 2 ^ 30" using m(1) by (rule power_increasing) simp
  then have "hash_table_get_size sz < 2 ^ 31" using m(2) by (simp add: less_imp_diff_less order_le_less_trans)
  from initialize_ok [OF this] show "ht_ok (hash_table_create sz f :: 'v hash_table)"
    "ht_find g (hash_table_create sz f :: 'v hash_table) = Map.empty"
    by (simp_all add: hash_table_create_def)
  show "\<exists>m \<le> 30. ht_no_buckets (hash_table_create sz f :: 'v hash_table) = 2 ^ m - 1"
    using m by (auto simp: hash_table_create_def hash_table_initialize_def)
  show "sz \<le> int (ht_no_buckets (hash_table_create sz f :: 'v hash_table))"
    using hash_size_loop_ge [of sz 3] by (simp add: hash_table_create_def hash_table_initialize_def hash_table_get_size_def)
qed

lemma delete_no_buckets: "ht_no_buckets (hash_table_delete key klen tbl) = ht_no_buckets tbl"
  by (simp add: hash_table_delete_def Let_def hash_table_put_entry_def set_bucket_def split: option.split)

lemma fold_delete_no_buckets: "ht_no_buckets (fold (\<lambda>k. hash_table_delete k (-1)) ks tbl) = ht_no_buckets tbl"
  by (induction ks arbitrary: tbl) (simp_all add: delete_no_buckets)

lemma fold_delete_if:
  "fold (\<lambda>e t. if P e then hash_table_delete (he_key e) (int (length (he_key e))) t else t) es tbl =
   fold (\<lambda>k. hash_table_delete k (-1)) (map he_key (filter P es)) tbl"
  by (induction es arbitrary: tbl) (simp_all add: hash_table_delete_def)

text \<open>Deleting the entries with a property, which depends on the entry and not only on its key.\<close>

definition ht_del :: "('v hash_entry \<Rightarrow> bool) \<Rightarrow> 'v hash_table \<Rightarrow> char list set" where
  "ht_del P tbl = {k. ht_find P tbl k = Some True}"

lemma del_bucket:
  assumes "ht_shape t" "j < length (ht_buckets t)"
  shows "set (map he_key (filter P (ht_buckets t ! j))) = {k \<in> ht_del P t. bucket_index t k = j}"
proof -
  have idx: "e \<in> set (ht_buckets t ! j) \<Longrightarrow> bucket_index t (he_key e) = j" for e
    using assms by (auto simp: ht_shape_def)
  have d: "distinct (map he_key (ht_buckets t ! j))" using assms by (simp add: ht_shape_def)
  have "find (\<lambda>x. he_key x = he_key e) (ht_buckets t ! j) = Some e" if "e \<in> set (ht_buckets t ! j)" for e
    using find_by_key [OF d that] .
  then show ?thesis by (auto simp: ht_del_def ht_find_def bucket_of_def idx dest!: find_he_key)
qed

lemma delete_if_ok:
  assumes "ht_ok tbl"
  shows "ht_ok (hash_table_delete_if P tbl)"
    "ht_find g (hash_table_delete_if P tbl) = ht_find g tbl |` (- ht_del P tbl)"
proof -
  define D where "D = (\<lambda>cnt t. fold (\<lambda>e t. if P e then hash_table_delete (he_key e) (int (length (he_key e))) t else t)
    (ht_buckets t ! cnt) (t :: 'a hash_table))"
  have D: "ht_ok (fold D [0..<j] tbl) \<and> ht_no_buckets (fold D [0..<j] tbl) = ht_no_buckets tbl
      \<and> ht_find P (fold D [0..<j] tbl) = ht_find P tbl |` (- {k \<in> ht_del P tbl. bucket_index tbl k < j})
      \<and> ht_find g (fold D [0..<j] tbl) = ht_find g tbl |` (- {k \<in> ht_del P tbl. bucket_index tbl k < j})"
    if "j \<le> ht_no_buckets tbl + 1" for j
    using that
  proof (induction j)
    case 0
    then show ?case using assms by (simp add: restrict_map_def)
  next
    case (Suc j)
    define t where "t = fold D [0..<j] tbl"
    let ?X = "{k \<in> ht_del P tbl. bucket_index tbl k < j}"
    have t: "ht_ok t" "ht_no_buckets t = ht_no_buckets tbl"
      "ht_find P t = ht_find P tbl |` (- ?X)" "ht_find g t = ht_find g tbl |` (- ?X)" using Suc by (auto simp: t_def)
    let ?ks = "map he_key (filter P (ht_buckets t ! j))"
    have j: "j < length (ht_buckets t)" using t(1,2) Suc.prems by (simp add: ht_ok_def ht_shape_def)
    have Dt: "D j t = fold (\<lambda>k. hash_table_delete k (-1)) ?ks t" by (simp add: D_def fold_delete_if)
    have idx: "bucket_index t k = bucket_index tbl k" for k using t(2) by (simp add: bucket_index_def)
    have sh: "ht_shape t" using t(1) by (simp add: ht_ok_def)
    have ks: "set ?ks = {k \<in> ht_del P tbl. bucket_index tbl k = j}"
      unfolding del_bucket [OF sh j] idx unfolding ht_del_def t(3) by (auto simp: restrict_map_def)
    have res: "(m |` (- ?X)) |` (- set ?ks) = m |` (- {k \<in> ht_del P tbl. bucket_index tbl k < Suc j})"
      for m :: "char list \<rightharpoonup> 'z"
      unfolding ks by (rule ext) (auto simp: restrict_map_def less_Suc_eq)
    show ?case
      using t(2) ht_any.fold_delete [OF t(1), of ?ks P] ht_any.fold_delete [OF t(1), of ?ks g]
      by (simp add: t_def [symmetric] Dt fold_delete_no_buckets del: set_map) (simp only: t(3,4) res)
  qed
  have eq: "hash_table_delete_if P tbl = fold D [0..<ht_no_buckets tbl + 1] tbl"
    by (simp add: hash_table_delete_if_def D_def)
  have "bucket_index tbl k < ht_no_buckets tbl + 1" for k
    using bucket_index_le [of tbl k] assms by (simp add: ht_ok_def ht_shape_def)
  then show "ht_ok (hash_table_delete_if P tbl)" "ht_find g (hash_table_delete_if P tbl) = ht_find g tbl |` (- ht_del P tbl)"
    unfolding eq using D [of "ht_no_buckets tbl + 1"] by auto
qed

section \<open>Iteration\<close>

definition entry_kv :: "'v hash_entry \<Rightarrow> char list \<times> 'v" where
  "entry_kv e = (he_key e, he_data e)"

definition next_rest :: "'v hash_table \<Rightarrow> (nat \<times> 'v hash_entry list) option \<Rightarrow> (char list \<times> 'v) list" where
  "next_rest tbl state =
     (case state of
        None \<Rightarrow> concat (map (map entry_kv) (ht_buckets tbl))
      | Some (cnt, chain) \<Rightarrow> map entry_kv chain @ concat (map (map entry_kv) (drop (cnt + 1) (ht_buckets tbl))))"

lemma next_bucket_rest:
  "case next_bucket (drop n bs) n of
     None \<Rightarrow> concat (map (map entry_kv) (drop n bs)) = []
   | Some (cnt, e, next) \<Rightarrow>
       concat (map (map entry_kv) (drop n bs)) = entry_kv e # map entry_kv next @ concat (map (map entry_kv) (drop (cnt + 1) bs))"
proof (induction "length bs - n" arbitrary: n)
  case 0
  then show ?case by simp
next
  case (Suc m)
  then have n: "drop n bs = bs ! n # drop (Suc n) bs" by (metis Cons_nth_drop_Suc Suc_le_eq diff_is_0_eq' not_less_eq_eq nat.simps(3) linorder_not_less)
  show ?case
  proof (cases "bs ! n")
    case Nil
    have "m = length bs - Suc n" using Suc by simp
    moreover have c: "concat (map (map entry_kv) (drop n bs)) = concat (map (map entry_kv) (drop (Suc n) bs))"
      unfolding n Nil by simp
    ultimately show ?thesis unfolding c using Suc(1) [of "Suc n"] n Nil by simp
  next
    case (Cons e es)
    with n show ?thesis by simp
  qed
qed

lemma hash_next_yields:
  assumes "ht_buckets tbl \<noteq> []"
  shows "case next_rest tbl st of
     [] \<Rightarrow> hash_table_next tbl st = (None, None, None)
   | (k, d) # kvs \<Rightarrow> \<exists>st'. hash_table_next tbl st = (d, Some k, Some st') \<and> next_rest tbl (Some st') = kvs"
proof -
  define st1 where "st1 = (case st of None \<Rightarrow> (0, ht_buckets tbl ! 0) | Some st \<Rightarrow> st)"
  obtain cnt chain where st1: "st1 = (cnt, chain)" by (cases st1)
  have r: "next_rest tbl st = next_rest tbl (Some (cnt, chain))"
    unfolding st1 [symmetric]
    using assms by (cases "ht_buckets tbl"; cases st) (auto simp: st1_def next_rest_def)
  have n: "hash_table_next tbl st = hash_table_next tbl (Some (cnt, chain))"
    unfolding st1 [symmetric] by (simp add: hash_table_next_def st1_def)
  show ?thesis
  proof (cases chain)
    case Nil
    show ?thesis
    proof (cases "next_bucket (drop (cnt + 1) (ht_buckets tbl)) (cnt + 1)")
      case None
      have "next_rest tbl (Some (cnt, [])) = []"
        using next_bucket_rest [of "cnt + 1" "ht_buckets tbl"] None by (simp add: next_rest_def)
      then show ?thesis unfolding r n using None Nil by (simp add: hash_table_next_def)
    next
      case (Some p)
      with Nil next_bucket_rest [of "cnt + 1" "ht_buckets tbl"] show ?thesis
        unfolding r n by (cases p) (auto simp: hash_table_next_def next_rest_def entry_kv_def)
    qed
  next
    case (Cons e es)
    then show ?thesis unfolding r n by (simp add: hash_table_next_def next_rest_def entry_kv_def)
  qed
qed

text \<open>
  The loop \<open>while ((data = hash_table_next(tbl, &state, &key, &klen)))\<close> of a caller: the keys and data
  it sees, and the state that is left when it ends.
\<close>

partial_function (option) next_loop ::
  "'v option hash_table \<Rightarrow> (nat \<times> 'v option hash_entry list) option
     \<Rightarrow> ((char list option \<times> 'v) list \<times> (nat \<times> 'v option hash_entry list) option) option" where
  [code]: "next_loop tbl st =
     (case hash_table_next tbl st of
        (None, _, st') \<Rightarrow> Some ([], st')
      | (Some d, k, st') \<Rightarrow> next_loop tbl st' \<bind> (\<lambda>(kvs, st'). Some ((k, d) # kvs, st')))"

text \<open>The entries before the first one with NULL as its data.\<close>

fun set_prefix :: "(char list \<times> 'v option) list \<Rightarrow> (char list option \<times> 'v) list" where
  "set_prefix ((k, Some d) # kvs) = (Some k, d) # set_prefix kvs"
| "set_prefix _ = []"

lemma set_prefix_all:
  "\<forall>(k, d) \<in> set kvs. d \<noteq> None \<Longrightarrow>
   \<exists>kvs'. kvs = map (\<lambda>(k, d). (k, Some d)) kvs' \<and> set_prefix kvs = map (\<lambda>(k, d). (Some k, d)) kvs'"
proof (induction kvs)
  case (Cons kv kvs)
  then obtain kvs' where "kvs = map (\<lambda>(k, d). (k, Some d)) kvs'" "set_prefix kvs = map (\<lambda>(k, d). (Some k, d)) kvs'" by auto
  moreover obtain k d where "kv = (k, Some d)" using Cons.prems by (cases kv) auto
  ultimately show ?case by (intro exI [of _ "(k, d) # kvs'"]) simp
qed simp

lemma next_loop_rest:
  assumes "ht_buckets tbl \<noteq> []"
  shows "\<exists>st'. next_loop tbl st = Some (set_prefix (next_rest tbl st), st')
    \<and> (st' = None \<longleftrightarrow> (\<forall>(k, d) \<in> set (next_rest tbl st). d \<noteq> None))"
  using assms
proof (induction "next_rest tbl st" arbitrary: st)
  case Nil
  then show ?case using hash_next_yields [of tbl st] by (subst next_loop.simps) simp
next
  case (Cons kv kvs)
  obtain k d where kv: "kv = (k, d)" by (cases kv)
  with Cons obtain st1 where st1: "hash_table_next tbl st = (d, Some k, Some st1)" "next_rest tbl (Some st1) = kvs"
    using hash_next_yields [of tbl st] by (auto simp flip: Cons(2))
  show ?case
  proof (cases d)
    case None
    then show ?thesis using st1 by (subst next_loop.simps) (simp add: kv flip: Cons(2))
  next
    case (Some v)
    from Cons(1) [OF st1(2) [symmetric] Cons(3)] st1 show ?thesis
      by (subst next_loop.simps) (auto simp: kv Some simp flip: Cons(2))
  qed
qed

section \<open>Perfect hashing\<close>

lemma perfect_fits_distinct:
  assumes "0 < n" "length bitmap = n"
  shows "perfect_fits n bitmap vals \<longleftrightarrow>
    distinct (map (\<lambda>v. unat v mod n) vals) \<and> (\<forall>v \<in> set vals. \<not> bitmap ! (unat v mod n))"
  using assms
proof (induction vals arbitrary: bitmap)
  case (Cons v vals)
  then show ?case by (auto simp: Let_def nth_list_update image_iff)
qed simp

lemma perfect_fits_new: "0 < n \<Longrightarrow> perfect_fits n (replicate n False) vals \<longleftrightarrow> distinct (map (\<lambda>v. unat v mod n) vals)"
  by (subst perfect_fits_distinct) auto

lemma perfect_size_spec:
  "case perfect_size n m vals of
     None \<Rightarrow> \<forall>k. n \<le> k \<and> k \<le> m \<longrightarrow> \<not> perfect_fits k (replicate k False) vals
   | Some k \<Rightarrow> n \<le> k \<and> k \<le> m \<and> perfect_fits k (replicate k False) vals"
proof (induction n m vals rule: perfect_size.induct)
  case (1 n m vals)
  show ?case
  proof (cases "n \<le> m \<and> \<not> perfect_fits n (replicate n False) vals")
    case True
    then have "perfect_size n m vals = perfect_size (n + 1) m vals" by (subst perfect_size.simps) simp
    moreover have "n \<le> k \<and> k \<le> m \<longrightarrow> \<not> perfect_fits k (replicate k False) vals"
      if "n + 1 \<le> k \<and> k \<le> m \<longrightarrow> \<not> perfect_fits k (replicate k False) vals" for k
      using that True by (cases "k = n") auto
    ultimately show ?thesis using 1 True by (auto split: option.splits)
  next
    case False
    then show ?thesis by (subst perfect_size.simps) auto
  qed
qed

definition slot :: "nat \<Rightarrow> char list \<Rightarrow> nat" where
  "slot n key = unat (hash_table_key key) mod n"

definition place :: "nat \<Rightarrow> char list \<Rightarrow> 'v perfect_hash_table \<Rightarrow> 'v perfect_hash_table" where
  "place n key buckets = buckets[slot n key := (buckets ! slot n key)\<lparr> pe_key := Some key, pe_klen := length key \<rparr>]"

lemma fold_place:
  assumes "distinct (map (slot n) keys)" "0 < n" "length t = n" "b < n"
  shows "length (fold (place n) keys t) = n"
    "fold (place n) keys t ! b = (case find (\<lambda>k. slot n k = b) keys of
       None \<Rightarrow> t ! b | Some k \<Rightarrow> (t ! b)\<lparr> pe_key := Some k, pe_klen := length k \<rparr>)"
proof -
  have "length (fold (place n) keys t) = n \<and> fold (place n) keys t ! b = (case find (\<lambda>k. slot n k = b) keys of
       None \<Rightarrow> t ! b | Some k \<Rightarrow> (t ! b)\<lparr> pe_key := Some k, pe_klen := length k \<rparr>)"
    using assms
  proof (induction keys arbitrary: t)
    case (Cons key keys)
    have s: "slot n key < n" using assms(2) by (simp add: slot_def)
    have len: "length (place n key t) = n" using Cons.prems by (simp add: place_def)
    have "find (\<lambda>k. slot n k = slot n key) keys = None" using Cons.prems(1) by (auto simp: find_None_iff image_iff)
    with Cons.IH [of "place n key t"] Cons.prems len s show ?case
      by (cases "slot n key = b") (auto simp: place_def split: option.splits)
  qed simp
  then show "length (fold (place n) keys t) = n"
    "fold (place n) keys t ! b = (case find (\<lambda>k. slot n k = b) keys of
       None \<Rightarrow> t ! b | Some k \<Rightarrow> (t ! b)\<lparr> pe_key := Some k, pe_klen := length k \<rparr>)" by auto
qed

lemma perfect_hash_create_place:
  "perfect_hash_create m keys = (case perfect_size (length keys) m (map hash_table_key keys) of
     None \<Rightarrow> None
   | Some n \<Rightarrow> Some (fold (place n) keys (replicate n \<lparr> pe_key = None, pe_klen = 0, pe_data = None \<rparr>)))"
  by (simp add: perfect_hash_create_def Let_def place_def [abs_def] slot_def split: option.split)

lemma perfect_table:
  assumes "keys \<noteq> []" "perfect_hash_create m keys = Some tbl"
  shows "length keys \<le> length tbl" "length tbl \<le> m" "distinct (map (slot (length tbl)) keys)"
    "b < length tbl \<Longrightarrow> pe_key (tbl ! b) = find (\<lambda>k. slot (length tbl) k = b) keys"
    "b < length tbl \<Longrightarrow> pe_klen (tbl ! b) = (case pe_key (tbl ! b) of None \<Rightarrow> 0 | Some k \<Rightarrow> length k)"
proof -
  obtain n where n: "perfect_size (length keys) m (map hash_table_key keys) = Some n"
    and tbl: "tbl = fold (place n) keys (replicate n \<lparr> pe_key = None, pe_klen = 0, pe_data = None \<rparr>)"
    using assms(2) by (auto simp: perfect_hash_create_place split: option.splits)
  have nm: "length keys \<le> n" "n \<le> m" and fit: "perfect_fits n (replicate n False) (map hash_table_key keys)"
    using perfect_size_spec [of "length keys" m "map hash_table_key keys"] n by auto
  have n0: "0 < n" using nm(1) assms(1) by (cases keys) auto
  have d: "distinct (map (slot n) keys)"
    using fit n0 by (simp add: perfect_fits_new slot_def [abs_def] comp_def)
  have len: "length tbl = n" unfolding tbl by (rule fold_place(1) [OF d n0 _ n0]) simp
  have f: "b < n \<Longrightarrow> tbl ! b = (case find (\<lambda>k. slot n k = b) keys of
      None \<Rightarrow> \<lparr> pe_key = None, pe_klen = 0, pe_data = None \<rparr>
    | Some k \<Rightarrow> \<lparr> pe_key = Some k, pe_klen = length k, pe_data = None \<rparr>)"
    unfolding tbl by (subst fold_place(2) [OF d n0]) (auto split: option.split)
  show "length keys \<le> length tbl" "length tbl \<le> m" "distinct (map (slot (length tbl)) keys)"
    using nm d by (simp_all add: len)
  show "b < length tbl \<Longrightarrow> pe_key (tbl ! b) = find (\<lambda>k. slot (length tbl) k = b) keys"
    "b < length tbl \<Longrightarrow> pe_klen (tbl ! b) = (case pe_key (tbl ! b) of None \<Rightarrow> 0 | Some k \<Rightarrow> length k)"
    using f by (auto simp: len split: option.splits)
qed

lemma search_slot:
  assumes "tbl \<noteq> []"
  shows "perfect_hash_search tbl k (-1) =
    (let b = slot (length tbl) k; entry = tbl ! b
     in Some (if length k = pe_klen entry \<and> (k = [] \<or> pe_key entry = Some k) then Some b else None))"
  using assms by (simp add: perfect_hash_search_def Let_def slot_def)

section \<open>The entries of a table\<close>

lemma option_eq: "(\<And>v. a = Some v \<longleftrightarrow> b = Some v) \<Longrightarrow> a = b"
  by (cases a; cases b) auto

lemma in_concat: "x \<in> set (concat bs) \<longleftrightarrow> (\<exists>i < length bs. x \<in> set (bs ! i))"
  by (induction bs) (auto simp: less_Suc_eq_0_disj)

lemma concat_distinct_by:
  assumes "\<forall>b \<in> set bs. distinct (map f b)" "\<forall>i < length bs. \<forall>x \<in> set (bs ! i). g (f x) = i + n"
  shows "distinct (map f (concat bs))"
  using assms
proof (induction bs arbitrary: n)
  case (Cons b bs)
  have rest: "\<forall>i < length bs. \<forall>x \<in> set (bs ! i). g (f x) = i + Suc n"
    using Cons.prems(2) by (auto dest: spec [of _ "Suc _"])
  have "g (f x) = n" if "x \<in> set b" for x using Cons.prems(2) that by force
  moreover have "g (f x) > n" if "x \<in> set (concat bs)" for x
    using that rest by (auto simp: in_concat simp del: set_concat)
  ultimately have "f ` set b \<inter> f ` set (concat bs) = {}" by fastforce
  with Cons.IH [OF _ rest] Cons.prems(1) show ?case by auto
qed simp

lemma keys_distinct: "ht_shape tbl \<Longrightarrow> distinct (map he_key (concat (ht_buckets tbl)))"
  by (rule concat_distinct_by [where g = "bucket_index tbl" and n = 0]) (auto simp: ht_shape_def)

lemma entry_bucket:
  assumes "ht_shape tbl"
  shows "e \<in> set (concat (ht_buckets tbl)) \<longleftrightarrow> e \<in> set (bucket_of tbl (he_key e))"
proof
  assume "e \<in> set (concat (ht_buckets tbl))"
  then obtain i where i: "i < length (ht_buckets tbl)" "e \<in> set (ht_buckets tbl ! i)" by (auto simp: in_concat simp del: set_concat)
  then have "bucket_index tbl (he_key e) = i" using assms by (auto simp: ht_shape_def)
  with i show "e \<in> set (bucket_of tbl (he_key e))" by (simp add: bucket_of_def)
next
  assume "e \<in> set (bucket_of tbl (he_key e))"
  then show "e \<in> set (concat (ht_buckets tbl))"
    using bucket_index_less [OF assms, of "he_key e"] by (auto simp: bucket_of_def)
qed

lemma view_Some:
  assumes "ht_shape tbl"
  shows "ht_view tbl k = Some v \<longleftrightarrow> (\<exists>e \<in> set (bucket_of tbl k). he_key e = k \<and> he_data e = v)"
proof -
  have "find (\<lambda>x. he_key x = he_key e) (bucket_of tbl k) = Some e" if "e \<in> set (bucket_of tbl k)" for e
    using find_by_key [OF bucket_distinct [OF assms] that] .
  then show ?thesis by (auto simp: ht_find_def dest: find_he_key)
qed

section \<open>Freeing\<close>

definition frees_of :: "'v hash_table \<Rightarrow> 'v hash_entry \<Rightarrow> 'v hash_free list" where
  "frees_of tbl e = free_data tbl (he_data e) @ free_key tbl (he_key e) @ free_entry tbl (he_addr e)"

lemma hash_table_free_alt:
  "hash_table_free tbl = concat (map (frees_of tbl) (concat (ht_buckets tbl))) @ concat (map (free_entry tbl) (ht_pool tbl))"
proof -
  have "concat (map (\<lambda>b. concat (map g b)) bs) = concat (map g (concat bs))" for g :: "'a hash_entry \<Rightarrow> 'a hash_free list" and bs
    by (induction bs) auto
  then show ?thesis by (simp add: hash_table_free_def frees_of_def [abs_def])
qed

definition is_data :: "'v hash_free \<Rightarrow> bool" where
  "is_data x = (case x of FreeData _ \<Rightarrow> True | _ \<Rightarrow> False)"

definition is_key :: "'v hash_free \<Rightarrow> bool" where
  "is_key x = (case x of FreeKey _ \<Rightarrow> True | _ \<Rightarrow> False)"

definition is_entry :: "'v hash_free \<Rightarrow> bool" where
  "is_entry x = (case x of FreeEntry _ \<Rightarrow> True | _ \<Rightarrow> False)"

lemmas free_kinds = is_data_def is_key_def is_entry_def free_data_def free_key_def free_entry_def

lemma filter_frees:
  "filter is_data (concat (map (frees_of tbl) es)) = (if ht_free_func tbl then map (\<lambda>e. FreeData (he_data e)) es else [])"
  "filter is_key (concat (map (frees_of tbl) es)) = (if ht_free_keys tbl then map (\<lambda>e. FreeKey (he_key e)) es else [])"
  "filter is_entry (concat (map (frees_of tbl) es)) = map FreeEntry (filter (\<lambda>a. \<not> main_alloced tbl a) (map he_addr es))"
  by (induction es) (auto simp: frees_of_def free_kinds)

lemma count_map_entry: "count (mset (map FreeEntry as)) (FreeEntry a) = count (mset as) a"
  by (induction as) auto

lemma filter_pool:
  "filter is_data (concat (map (free_entry tbl) as)) = []"
  "filter is_key (concat (map (free_entry tbl) as)) = []"
  "filter is_entry (concat (map (free_entry tbl) as)) = map FreeEntry (filter (\<lambda>a. \<not> main_alloced tbl a) as)"
  by (induction as) (auto simp: free_kinds)

section \<open>Properties\<close>

text \<open>
  C26: the hash function unrolled eight times with its fall through switch computes, on keys of
  every length, what the simple loop of the reference variant computes.
\<close>

theorem hash_key_unrolled: "hash_table_key key = hash_table_key_ref key"
  by (simp add: hash_table_key_def hash_table_key_ref_def hash_unrolled_foldl)

text \<open>
  C27: a table is a map from byte strings to data. A new table for a size below $2^{30}$ is empty and
  its mask is one less than a power of two and not less than the size asked for; search reads the
  map and the string of the entry; insert, replace, delete, update and emptying the table change the
  map as the operation of that name changes a map, and each keeps the invariant of the table.
  Deletion by prefix goes by the strings that the entries point to and not by their keys: it removes
  the entries whose string starts with the prefix.
\<close>

theorem hash_table_is_map:
  assumes "ht_ok (tbl :: 'v option hash_table)" "sz < 2 ^ 30"
    "\<forall>s. fst (update_func (hkey key klen)) = Some s \<longrightarrow> take (length (hkey key klen)) s = hkey key klen"
  shows "ht_ok (hash_table_create sz f :: 'v hash_table) \<and> ht_view (hash_table_create sz f :: 'v hash_table) = Map.empty
      \<and> (\<exists>m \<le> 30. ht_no_buckets (hash_table_create sz f :: 'v hash_table) = 2 ^ m - 1)
      \<and> sz \<le> int (ht_no_buckets (hash_table_create sz f :: 'v hash_table))
    \<and> hash_table_search tbl key klen = (Option.bind (ht_view tbl (hkey key klen)) id, ht_str tbl (hkey key klen))
    \<and> ht_ok (hash_table_insert key klen d tbl)
      \<and> ht_view (hash_table_insert key klen d tbl) = (ht_view tbl)(hkey key klen \<mapsto> d)
      \<and> ht_str (hash_table_insert key klen d tbl) = (ht_str tbl)(hkey key klen \<mapsto> key)
    \<and> (fst (hash_table_replace key klen d tbl) \<longleftrightarrow> ht_view tbl (hkey key klen) \<noteq> None)
      \<and> ht_ok (snd (hash_table_replace key klen d tbl))
      \<and> ht_view (snd (hash_table_replace key klen d tbl)) =
          (if ht_view tbl (hkey key klen) = None then ht_view tbl else (ht_view tbl)(hkey key klen \<mapsto> d))
      \<and> ht_str (snd (hash_table_replace key klen d tbl)) = ht_str tbl
    \<and> ht_ok (hash_table_delete key klen tbl)
      \<and> ht_view (hash_table_delete key klen tbl) = (ht_view tbl)(hkey key klen := None)
      \<and> ht_str (hash_table_delete key klen tbl) = (ht_str tbl)(hkey key klen := None)
    \<and> ht_ok (snd (hash_table_update key klen update_func tbl))
      \<and> (case ht_view tbl (hkey key klen) of
           Some d \<Rightarrow> hash_table_update key klen update_func tbl = (d, tbl)
         | None \<Rightarrow>
             (case update_func (hkey key klen) of
                (Some s, Some d) \<Rightarrow> fst (hash_table_update key klen update_func tbl) = Some d
                  \<and> ht_view (snd (hash_table_update key klen update_func tbl)) = (ht_view tbl)(hkey key klen \<mapsto> Some d)
                  \<and> ht_str (snd (hash_table_update key klen update_func tbl)) = (ht_str tbl)(hkey key klen \<mapsto> s)
              | _ \<Rightarrow> hash_table_update key klen update_func tbl = (None, tbl)))
    \<and> ht_ok (hash_table_empty tbl) \<and> ht_view (hash_table_empty tbl) = Map.empty
    \<and> ht_ok (hash_table_delete_by_key_prefix prefix tbl)
      \<and> ht_view (hash_table_delete_by_key_prefix prefix tbl) =
          ht_view tbl |` {k. \<forall>s. ht_str tbl k = Some s \<longrightarrow> strncmp (length prefix) prefix s \<noteq> 0}"
proof -
  let ?k = "hkey key klen"
  have search: "hash_table_search tbl key klen = (Option.bind (ht_view tbl ?k) id, ht_str tbl ?k)"
    by (cases "find (\<lambda>e. he_key e = ?k) (bucket_of tbl ?k)") (auto simp: hash_table_search_def ht_find_def Let_def)
  have all: "ht_view tbl |` (- ht_del (\<lambda>_. True) tbl) = Map.empty"
    by (rule ext) (auto simp: restrict_map_def ht_del_def ht_find_def)
  have empty: "ht_ok (hash_table_empty tbl)" "ht_view (hash_table_empty tbl) = Map.empty"
    by (simp_all add: hash_table_empty_def delete_if_ok [OF assms(1)] all)
  have del: "- ht_del (\<lambda>e. strncmp (length prefix) prefix (he_str e) = 0) tbl
      = {k. \<forall>s. ht_str tbl k = Some s \<longrightarrow> strncmp (length prefix) prefix s \<noteq> 0}"
    by (auto simp: ht_del_def ht_find_def)
  have prefix: "ht_ok (hash_table_delete_by_key_prefix prefix tbl)"
    "ht_view (hash_table_delete_by_key_prefix prefix tbl) =
       ht_view tbl |` {k. \<forall>s. ht_str tbl k = Some s \<longrightarrow> strncmp (length prefix) prefix s \<noteq> 0}"
    unfolding del [symmetric] by (simp_all add: hash_table_delete_by_key_prefix_def delete_if_ok [OF assms(1)])
  show ?thesis
    by (intro conjI create_ok [OF assms(2)] search insert_ok [OF assms(1)] replace_ok [OF assms(1)] delete_ok [OF assms(1)]
        update_ok [OF assms(1), of update_func key klen, OF assms(3)] empty prefix)
qed

theorem hash_table_is_map_witness:
  "ht_view (hash_table_insert ''ab'' 1 (Some (7 :: nat)) (hash_table_create 4 False)) = [''a'' \<mapsto> Some 7]
   \<and> ht_view (hash_table_delete_by_key_prefix ''ab'' (hash_table_insert ''ab'' 1 (Some (7 :: nat)) (hash_table_create 4 False))) = Map.empty"
proof -
  have ok: "ht_ok (hash_table_create 4 False :: nat option hash_table)" by (rule create_ok(1)) simp
  let ?t = "hash_table_insert ''ab'' 1 (Some (7 :: nat)) (hash_table_create 4 False)"
  have "\<forall>s. fst ((\<lambda>k. (None, None :: nat option)) (hkey ''ab'' 1)) = Some s \<longrightarrow> take (length (hkey ''ab'' 1)) s = hkey ''ab'' 1"
    by simp
  from hash_table_is_map [OF ok, of 4 _ "''ab''" 1 False "Some 7", OF _ this]
  have t: "ht_ok ?t" "ht_view ?t = [''a'' \<mapsto> Some 7]" "ht_str ?t = [''a'' \<mapsto> ''ab'']"
    by (simp_all add: hkey_def create_ok(2))
  have "\<forall>s. fst ((\<lambda>k. (None, None :: nat option)) (hkey ''ab'' 1)) = Some s \<longrightarrow> take (length (hkey ''ab'' 1)) s = hkey ''ab'' 1"
    by simp
  from hash_table_is_map [OF t(1), of 4 _ "''ab''" 1 False "Some 7" "''ab''", OF _ this]
  have "ht_view (hash_table_delete_by_key_prefix ''ab'' ?t) = Map.empty"
    unfolding t by (auto simp: restrict_map_def fun_eq_iff)
  with t(2) show ?thesis by simp
qed

text \<open>
  C28: every entry structure of a table, whether from the main allocation or from \<open>xmalloc\<close>, is in
  exactly one place, a chain or the pool; freeing the table frees every one that came from
  \<open>xmalloc\<close> exactly once and none of the main allocation, and frees the data and the key of every
  entry in a chain exactly as often as it is linked, when the table was told to.
\<close>

theorem hash_table_frees_once:
  assumes "ht_ok tbl"
  shows "distinct (map he_addr (concat (ht_buckets tbl)) @ ht_pool tbl)
    \<and> (\<forall>a. count (mset (hash_table_free tbl)) (FreeEntry a) = (if ht_no_buckets tbl < a \<and> a < ht_next tbl then 1 else 0))
    \<and> filter is_data (hash_table_free tbl)
        = (if ht_free_func tbl then map (\<lambda>e. FreeData (he_data e)) (concat (ht_buckets tbl)) else [])
    \<and> filter is_key (hash_table_free tbl)
        = (if ht_free_keys tbl then map (\<lambda>e. FreeKey (he_key e)) (concat (ht_buckets tbl)) else [])"
proof -
  have m: "mset (map he_addr (concat (ht_buckets tbl)) @ ht_pool tbl) = mset [0..<ht_next tbl]"
    using assms by (simp add: ht_ok_def ht_owned_def)
  then have d: "distinct (map he_addr (concat (ht_buckets tbl)) @ ht_pool tbl)"
    by (metis distinct_upt mset_eq_imp_distinct_iff)
  have "count (mset (hash_table_free tbl)) (FreeEntry a) = (if ht_no_buckets tbl < a \<and> a < ht_next tbl then 1 else 0)" for a
  proof -
    let ?os = "map he_addr (concat (ht_buckets tbl)) @ ht_pool tbl"
    have "count (mset (hash_table_free tbl)) (FreeEntry a) = count (mset (filter is_entry (hash_table_free tbl))) (FreeEntry a)"
      by (simp add: is_entry_def)
    also have "filter is_entry (hash_table_free tbl) = map FreeEntry (filter (\<lambda>a. \<not> main_alloced tbl a) ?os)"
      by (simp add: hash_table_free_alt filter_frees filter_pool)
    also have "count (mset \<dots>) (FreeEntry a) = count (mset (filter (\<lambda>a. \<not> main_alloced tbl a) ?os)) a"
      by (rule count_map_entry)
    also have "\<dots> = (if main_alloced tbl a then 0 else count (mset ?os) a)"
      unfolding mset_filter by simp
    also have "mset ?os = mset [0..<ht_next tbl]" by (rule m)
    finally show ?thesis by (auto simp: main_alloced_def count_mset_set')
  qed
  moreover have "filter is_data (hash_table_free tbl) = (if ht_free_func tbl then map (\<lambda>e. FreeData (he_data e)) (concat (ht_buckets tbl)) else [])"
    "filter is_key (hash_table_free tbl) = (if ht_free_keys tbl then map (\<lambda>e. FreeKey (he_key e)) (concat (ht_buckets tbl)) else [])"
    by (simp_all add: hash_table_free_alt filter_frees filter_pool)
  ultimately show ?thesis using d by blast
qed

text \<open>Five entries in a table with four in its main allocation.\<close>

definition five_entries :: "nat hash_table" where
  "five_entries = fold (\<lambda>(k, v). hash_table_insert k (-1) v) [(''a'', 1), (''b'', 2), (''c'', 3), (''d'', 4), (''e'', 5)]
     (hash_table_create 3 True)"

theorem hash_table_frees_once_witness:
  "count (mset (hash_table_free five_entries)) (FreeEntry 4) = 1 \<and> count (mset (hash_table_free five_entries)) (FreeEntry 3) = 0
   \<and> length (filter is_data (hash_table_free five_entries)) = 5"
proof -
  have "ht_ok (hash_table_create 3 True :: nat hash_table)" by (rule create_ok(1)) simp
  then have ok: "ht_ok five_entries" unfolding five_entries_def by (rule ht.fold_insert [THEN conjunct1])
  have "ht_no_buckets five_entries = 3" "ht_next five_entries = 5" "ht_free_func five_entries"
    "length (concat (ht_buckets five_entries)) = 5" by code_simp+
  with hash_table_frees_once [OF ok] show ?thesis by simp
qed

text \<open>
  C29: a loop that calls \<open>hash_table_next\<close> until it returns NULL ends, and sees the entries in the order
  in which \<open>hash_table_do\<close> passes them to its callback, which are the pairs of the map, each exactly
  once. The data of an entry are the result of the call, so the loop stops at the first entry that was
  inserted with NULL as its data; the state is freed by the last call only when there is no such entry.
\<close>

theorem hash_table_next_all:
  assumes "ht_ok tbl"
  shows "distinct (map fst (hash_table_do tbl)) \<and> map_of (hash_table_do tbl) = ht_view tbl
    \<and> (\<exists>st. next_loop tbl None = Some (set_prefix (hash_table_do tbl), st)
         \<and> (st = None \<longleftrightarrow> (\<forall>k. ht_view tbl k \<noteq> Some None)))
    \<and> ((\<forall>k. ht_view tbl k \<noteq> Some None) \<longrightarrow>
         (\<exists>kvs. hash_table_do tbl = map (\<lambda>(k, d). (k, Some d)) kvs
            \<and> next_loop tbl None = Some (map (\<lambda>(k, d). (Some k, d)) kvs, None)))"
proof -
  have sh: "ht_shape tbl" using assms by (simp add: ht_ok_def)
  then have ne: "ht_buckets tbl \<noteq> []" by (auto simp: ht_shape_def)
  have do: "hash_table_do tbl = map entry_kv (concat (ht_buckets tbl))"
    by (simp add: hash_table_do_def entry_kv_def [abs_def] map_concat)
  have d: "distinct (map fst (hash_table_do tbl))"
    using keys_distinct [OF sh] by (simp add: do entry_kv_def comp_def)
  have mo: "map_of (hash_table_do tbl) k = ht_view tbl k" for k
  proof (rule option_eq)
    fix v
    have "(k, v) \<in> set (hash_table_do tbl) \<longleftrightarrow> (\<exists>e \<in> set (bucket_of tbl k). he_key e = k \<and> he_data e = v)"
      using entry_bucket [OF sh] by (auto simp: do entry_kv_def image_iff)
    then show "map_of (hash_table_do tbl) k = Some v \<longleftrightarrow> ht_view tbl k = Some v"
      unfolding map_of_eq_Some_iff [OF d] view_Some [OF sh] .
  qed
  have all: "(\<forall>(k, d) \<in> set (hash_table_do tbl). d \<noteq> None) \<longleftrightarrow> (\<forall>k. ht_view tbl k \<noteq> Some None)"
    unfolding mo [symmetric] map_of_eq_Some_iff [OF d] by (auto simp: split_beta) (metis not_None_eq)
  have rest: "next_rest tbl None = hash_table_do tbl" unfolding do by (simp add: next_rest_def map_concat)
  obtain st where st: "next_loop tbl None = Some (set_prefix (hash_table_do tbl), st)"
    "st = None \<longleftrightarrow> (\<forall>k. ht_view tbl k \<noteq> Some None)"
    using next_loop_rest [OF ne, of None] unfolding rest all by blast
  have "(\<forall>k. ht_view tbl k \<noteq> Some None) \<longrightarrow> (\<exists>kvs. hash_table_do tbl = map (\<lambda>(k, d). (k, Some d)) kvs
      \<and> set_prefix (hash_table_do tbl) = map (\<lambda>(k, d). (Some k, d)) kvs)"
    unfolding all [symmetric] using set_prefix_all by blast
  with st d mo show ?thesis by auto
qed

theorem hash_table_next_all_witness:
  "next_loop (hash_table_insert ''a'' (-1) (Some (7 :: nat)) (hash_table_create 3 False)) None = Some ([(Some ''a'', 7)], None)
   \<and> fst (the (next_loop (hash_table_insert ''a'' (-1) (None :: nat option) (hash_table_create 3 False)) None)) = []"
proof -
  have "ht_ok (hash_table_create 3 False :: nat option hash_table)" by (rule create_ok(1)) simp
  note ok = insert_ok [OF this, of "''a''" "-1"]
  have "hash_table_do (hash_table_insert ''a'' (-1) d (hash_table_create 3 False)) = [(''a'', d)]" for d :: "nat option"
    by code_simp
  note do = this
  have v: "ht_view (hash_table_insert ''a'' (-1) d (hash_table_create 3 False)) = [''a'' \<mapsto> d]" for d :: "nat option"
    by (simp add: ok(2) create_ok(2))
  have "next_loop (hash_table_insert ''a'' (-1) (Some (7 :: nat)) (hash_table_create 3 False)) None = Some ([(Some ''a'', 7)], None)"
    using hash_table_next_all [OF ok(1) [of "Some 7"]] unfolding v do by (auto split: if_splits)
  moreover have "fst (the (next_loop (hash_table_insert ''a'' (-1) (None :: nat option) (hash_table_create 3 False)) None)) = []"
    using hash_table_next_all [OF ok(1) [of None]] unfolding v do by auto
  ultimately show ?thesis ..
qed

text \<open>
  C30: when \<open>perfect_hash_create\<close> makes a table from a list of keys, the search for each of them
  finds the entry that holds it, no two keys share an entry, and the search for any other key that
  is not empty finds nothing; it fails only when no number of buckets from the number of keys up to
  the limit separates the keys.
\<close>

theorem perfect_hash_finds:
  assumes "keys \<noteq> []"
  shows "case perfect_hash_create max_buckets keys :: 'v perfect_hash_table option of
      None \<Rightarrow> \<forall>n. length keys \<le> n \<and> n \<le> max_buckets \<longrightarrow> \<not> distinct (map (\<lambda>k. unat (hash_table_key k) mod n) keys)
    | Some tbl \<Rightarrow> length tbl \<le> max_buckets \<and> distinct keys
        \<and> (\<forall>k \<in> set keys. \<exists>b < length tbl. perfect_hash_search tbl k (-1) = Some (Some b) \<and> pe_key (tbl ! b) = Some k)
        \<and> (\<forall>k. k \<notin> set keys \<and> k \<noteq> [] \<longrightarrow> perfect_hash_search tbl k (-1) = Some None)"
proof (cases "perfect_hash_create max_buckets keys :: 'v perfect_hash_table option")
  case None
  then have "perfect_size (length keys) max_buckets (map hash_table_key keys) = None"
    by (simp add: perfect_hash_create_def Let_def split: option.splits)
  with perfect_size_spec [of "length keys" max_buckets "map hash_table_key keys"]
  have "\<forall>n. length keys \<le> n \<and> n \<le> max_buckets \<longrightarrow> \<not> perfect_fits n (replicate n False) (map hash_table_key keys)" by simp
  moreover have "0 < n" if "length keys \<le> n" for n using that assms by (cases keys) auto
  ultimately show ?thesis using None by (auto simp: perfect_fits_new comp_def)
next
  case (Some tbl)
  note t = perfect_table [OF assms Some]
  have ne: "tbl \<noteq> []" using t(1) assms by auto
  then have slt: "slot (length tbl) k < length tbl" for k by (simp add: slot_def)
  have "perfect_hash_search tbl k (-1) = Some (Some (slot (length tbl) k)) \<and> pe_key (tbl ! slot (length tbl) k) = Some k"
    if "k \<in> set keys" for k
  proof -
    have "pe_key (tbl ! slot (length tbl) k) = Some k" using t(4) [OF slt] find_by_key [OF t(3) that] by simp
    then show ?thesis using t(5) [OF slt, of k] by (simp add: search_slot [OF ne] Let_def)
  qed
  moreover have "perfect_hash_search tbl k (-1) = Some None" if "k \<notin> set keys" "k \<noteq> []" for k
  proof -
    have "pe_key (tbl ! slot (length tbl) k) \<noteq> Some k" using t(4) [OF slt, of k] that(1) by (auto simp: find_Some_iff)
    then show ?thesis using that(2) by (simp add: search_slot [OF ne] Let_def)
  qed
  moreover have "distinct keys" using t(3) by (simp add: distinct_map)
  ultimately show ?thesis using Some t(2) slt by auto
qed

theorem perfect_hash_finds_witness:
  "case perfect_hash_create 8 [''a'', ''b''] of
      None \<Rightarrow> False
    | Some tbl \<Rightarrow> perfect_hash_search (tbl :: nat perfect_hash_table) ''c'' (-1) = Some None"
proof -
  have "perfect_hash_create 8 [''a'', ''b''] \<noteq> (None :: nat perfect_hash_table option)"
    by (simp add: perfect_hash_create_def perfect_size.simps hash_table_key_def hash_unrolled_foldl hash_step_def schar_def uchar_def push_bit_eq_mult Let_def)
  then obtain tbl where "perfect_hash_create 8 [''a'', ''b''] = Some (tbl :: nat perfect_hash_table)" by blast
  with perfect_hash_finds [of "[''a'', ''b'']" 8, where 'v = nat] show ?thesis by simp
qed

end
