(* ===== verification/Rcycle.thy ===== *)
theory Rcycle
  imports Prelude
begin

text \<open>
  The random cycle generator of \<open>src/util/lib/rcycle.c\<close>: a Galois shift register
  (\<open>struct rcycle_lfsr\<close>) whose values outside the range are discarded, and the generator
  (\<open>struct rcycle\<close>) that reseeds it after every \<open>rc_range\<close> values from a second register of 32 bits.

  Every integer keeps its width of 32 bits.  A run of \<open>rcycle_reseed\<close> can stop the process: on a
  shift by 32 or more, on a division by a range of zero and at the assertion of \<open>lfsr_init\<close>; these
  are the values of \<open>rc_error\<close>.  The shift \<open>1 << 31\<close> of a signed one is taken as the compilers
  define it, that is modulo \<open>2 ^ 32\<close>.  The loop of \<open>rcycle_generate\<close> has no bound in the code, so
  \<open>rcycle_scan\<close> is a partial function and its value \<open>None\<close> is a loop that never ends.
\<close>

unbundle bit_operations_syntax

type_synonym uint32 = "32 word"

datatype rc_error = Undefined_shift | Division_by_zero | Assertion_failed

record rcycle_lfsr =
  lfsr_state :: uint32
  lfsr_bits :: uint32
  lfsr_taps :: uint32

record rcycle =
  rc_lfsr :: rcycle_lfsr
  rc_lfsr_reseed :: rcycle_lfsr
  rc_range :: uint32
  rc_count :: uint32
  rc_flip :: uint32

definition lfsr_taps_table :: "uint32 list" where
  "lfsr_taps_table =
    [0, 0, 0x3, 0x5, 0x9, 0x12,
     0x21, 0x41, 0x8e, 0x108, 0x204, 0x402,
     0x829, 0x100d, 0x2015, 0x4001, 0x8016, 0x10004,
     0x20040, 0x40013, 0x80004, 0x100002, 0x200001, 0x400010,
     0x80000d, 0x1000080, 0x2000023, 0x4000013, 0x8000004, 0x10000002,
     0x20000029, 0x40000004, 0x80000062]"

definition lfsr_init :: "uint32 \<Rightarrow> uint32 \<Rightarrow> rc_error + rcycle_lfsr" where
  "lfsr_init bits seed =
    (if 2 \<le> bits \<and> bits \<le> 32
     then Inr \<lparr>lfsr_state = seed AND (if bits = 32 then 0xffffffff else push_bit (unat bits) 1 - 1),
                lfsr_bits = bits,
                lfsr_taps = lfsr_taps_table ! unat bits\<rparr>
     else Inl Assertion_failed)"

definition lfsr_generate_u32 :: "rcycle_lfsr \<Rightarrow> uint32 \<times> rcycle_lfsr" where
  "lfsr_generate_u32 l =
    (lfsr_state l,
     l\<lparr>lfsr_state := drop_bit 1 (lfsr_state l) XOR (- (lfsr_state l AND 1) AND lfsr_taps l)\<rparr>)"

text \<open>The loop of \<open>round_2\<close> runs for \<open>i = 1, 2, 4, 8, 16\<close>, the powers of two below \<open>sizeof(x) * 8\<close>.\<close>

definition round_2 :: "uint32 \<Rightarrow> uint32" where
  "round_2 x = fold (\<lambda>i y. y OR drop_bit i y) [1, 2, 4, 8, 16] x + 1"

text \<open>The C library's \<open>ffs\<close>: one plus the index of the lowest bit set, 0 when there is none.\<close>

definition ffs :: "uint32 \<Rightarrow> nat" where
  "ffs x = (case List.find (bit x) [0..<32] of None \<Rightarrow> 0 | Some i \<Rightarrow> Suc i)"

definition rcycle_bits :: "uint32 \<Rightarrow> uint32" where
  "rcycle_bits rng = of_nat (ffs (round_2 (rng + 1))) - 1"

definition rcycle_reseed :: "rcycle \<Rightarrow> uint32 \<Rightarrow> rc_error + rcycle" where
  "rcycle_reseed rc seed =
    (let bits = rcycle_bits (rc_range rc) in
     if 32 \<le> bits then Inl Undefined_shift
     else
       let mask = push_bit (unat bits) 1 - 1;
           flip = (if bits < 16 then drop_bit (unat (bits + 1)) seed else drop_bit (unat (32 - bits)) seed);
           flip = flip AND mask;
           flip = (if flip < rc_range rc then flip XOR mask else flip)
       in if rc_range rc = 0 then Inl Division_by_zero
          else
            let seed = seed mod rc_range rc + 1;
                seed = (if rc_range rc < seed XOR flip then seed XOR flip else seed)
            in case lfsr_init bits seed of
                 Inl e \<Rightarrow> Inl e
               | Inr l \<Rightarrow> Inr (rc\<lparr>rc_flip := flip, rc_lfsr := l\<rparr>))"

text \<open>
  \<open>rcycle_init\<close> writes every field, so what the memory held before it plays no part: the record it
  starts from is built from the fields it sets before the first use.
\<close>

definition rcycle_init :: "uint32 \<Rightarrow> uint32 \<Rightarrow> rc_error + rcycle" where
  "rcycle_init rng seed =
    (case lfsr_init 32 seed of
       Inl e \<Rightarrow> Inl e
     | Inr l \<Rightarrow>
         rcycle_reseed
           \<lparr>rc_lfsr = l, rc_lfsr_reseed = l, rc_range = rng, rc_count = 0, rc_flip = 0\<rparr> seed)"

text \<open>The value a state of the register stands for: the body of the loop of \<open>rcycle_generate\<close>.\<close>

definition rcycle_value :: "uint32 \<Rightarrow> uint32 \<Rightarrow> uint32" where
  "rcycle_value flip v = (let ret = v XOR flip in if ret = 0 then flip else ret)"

partial_function (option) rcycle_scan :: "uint32 \<Rightarrow> uint32 \<Rightarrow> rcycle_lfsr \<Rightarrow> (uint32 \<times> rcycle_lfsr) option" where
  [code]: "rcycle_scan rng flip l =
    (let (v, l) = lfsr_generate_u32 l;
         ret = rcycle_value flip v
     in if rng < ret then rcycle_scan rng flip l else Some (ret, l))"

definition rcycle_generate :: "rcycle \<Rightarrow> (rc_error + uint32 \<times> rcycle) option" where
  "rcycle_generate rc =
    (case rcycle_scan (rc_range rc) (rc_flip rc) (rc_lfsr rc) of
       None \<Rightarrow> None
     | Some (ret, l) \<Rightarrow>
         let rc = rc\<lparr>rc_lfsr := l, rc_count := rc_count rc + 1\<rparr> in
         if rc_range rc = 0 then Some (Inl Division_by_zero)
         else if rc_count rc mod rc_range rc = 0 then
           let (seed, lr) = lfsr_generate_u32 (rc_lfsr_reseed rc) in
           case rcycle_reseed (rc\<lparr>rc_lfsr_reseed := lr\<rparr>) seed of
             Inl e \<Rightarrow> Some (Inl e)
           | Inr rc \<Rightarrow> Some (Inr (ret - 1, rc))
         else Some (Inr (ret - 1, rc)))"

text \<open>The values of \<open>n\<close> calls in a row, with the generator they leave.\<close>

primrec rcycle_generates :: "nat \<Rightarrow> rcycle \<Rightarrow> (rc_error + uint32 list \<times> rcycle) option" where
  "rcycle_generates 0 rc = Some (Inr ([], rc))"
| "rcycle_generates (Suc n) rc =
    (case rcycle_generate rc of
       None \<Rightarrow> None
     | Some (Inl e) \<Rightarrow> Some (Inl e)
     | Some (Inr (v, rc)) \<Rightarrow>
         (case rcycle_generates n rc of
            None \<Rightarrow> None
          | Some (Inl e) \<Rightarrow> Some (Inl e)
          | Some (Inr (vs, rc)) \<Rightarrow> Some (Inr (v # vs, rc))))"

end
