(* ===== verification/Sbalance.thy ===== *)
theory Sbalance
  imports Rcycle
begin

text \<open>
  The load balancer of \<open>src/util/lib/sbalance.c\<close>: a pool of services with costs
  (\<open>struct sbalance\<close>) and the order in which a connection tries them
  (\<open>struct sbalance_connection\<close>), sequentially, at random or by the hash of the client.

  The pool is shared between connections, so every operation takes it and returns it.  The number of
  services is below \<open>INT_MAX\<close>; \<open>sc_retries\<close>, \<open>sc_first\<close> and \<open>sc_offs\<close> are C ints and \<open>sb_retries\<close> is
  read as one.  Three things come from outside the repository and are arguments: the number
  \<open>arc4random\<close> returns in the call, the numbers \<open>drand48_r\<close> returns after a seed, and the arithmetic
  of \<open>double\<close> (\<open>double_ops\<close>), of which nothing is assumed.  A fault of the process, that is an index outside the
  services or a stop inside \<open>rcycle.c\<close>, is a value of \<open>sb_fault\<close>.
\<close>

datatype sbalance_strat = ST_SEQ | ST_RANDOM | ST_HASH

datatype sbalance_conn_status = SBCS_START | SBCS_FAIL | SBCS_TEMPFAIL

datatype sb_fault = Bad_index | Bad_cycle rc_error | Loops_forever | No_cycle

record 'a sb_service =
  cost :: uint32
  tempfailcost :: uint32
  sv_data :: 'a

record 'a sbalance =
  sb_retries :: uint32
  sb_failcost :: uint32
  sb_softfailcost :: uint32
  sb_service :: "'a sb_service list"
  sb_strat :: sbalance_strat
  sb_refs :: int

record sbalance_connection =
  sc_retries :: int
  sc_first :: int
  sc_rc :: "rcycle option"
  sc_offs :: int
  sc_last :: nat

record 'd double_ops =
  d_zero :: 'd
  d_recip :: "uint32 \<Rightarrow> 'd"
  d_add :: "'d \<Rightarrow> 'd \<Rightarrow> 'd"
  d_div :: "'d \<Rightarrow> 'd \<Rightarrow> 'd"
  d_gt :: "'d \<Rightarrow> 'd \<Rightarrow> bool"
  d_rand48 :: "uint32 \<Rightarrow> nat \<Rightarrow> 'd"

abbreviation sb_nserv :: "'a sbalance \<Rightarrow> nat" where
  "sb_nserv sb \<equiv> length (sb_service sb)"

definition sbalance_create :: "uint32 \<Rightarrow> uint32 \<Rightarrow> uint32 \<Rightarrow> sbalance_strat \<Rightarrow> 'a sbalance" where
  "sbalance_create retries failcost softfailcost strat =
    \<lparr>sb_retries = retries, sb_failcost = failcost, sb_softfailcost = softfailcost,
     sb_service = [], sb_strat = strat, sb_refs = 1\<rparr>"

definition sbalance_retain :: "'a sbalance \<Rightarrow> 'a sbalance" where
  "sbalance_retain sb = sb\<lparr>sb_refs := sb_refs sb + 1\<rparr>"

text \<open>Releasing returns the pool, unless it is freed, and the data passed to \<open>free_f\<close>, if there is one.\<close>

definition sbalance_release :: "'a sbalance \<Rightarrow> bool \<Rightarrow> 'a sbalance option \<times> 'a list" where
  "sbalance_release sb free_f =
    (if 1 < sb_refs sb then (Some (sb\<lparr>sb_refs := sb_refs sb - 1\<rparr>), [])
     else (None, if free_f then map sv_data (sb_service sb) else []))"

definition sbalance_add_serv :: "'a sbalance \<Rightarrow> uint32 \<Rightarrow> 'a \<Rightarrow> 'a sbalance" where
  "sbalance_add_serv sb c d =
    sb\<lparr>sb_service := sb_service sb @
         [\<lparr>cost = (if c = 0 then 1 else c), tempfailcost = 0, sv_data = d\<rparr>]\<rparr>"

definition sbalance_strat :: "'a sbalance \<Rightarrow> sbalance_strat" where
  "sbalance_strat sb = sb_strat sb"

subsection \<open>The strategies\<close>

definition sbalance_seq_reinit :: "nat \<Rightarrow> sbalance_connection \<Rightarrow> sbalance_connection" where
  "sbalance_seq_reinit nserv sc = sc\<lparr>sc_offs := 0, sc_first := int nserv\<rparr>"

definition sbalance_seq_init :: "'a sbalance \<Rightarrow> sbalance_connection \<Rightarrow> sbalance_connection" where
  "sbalance_seq_init sb sc = (sbalance_seq_reinit (sb_nserv sb) sc)\<lparr>sc_retries := sint (sb_retries sb)\<rparr>"

definition sbalance_seq_next :: "sbalance_connection \<Rightarrow> int \<times> sbalance_connection" where
  "sbalance_seq_next sc = (sc_offs sc, sc\<lparr>sc_offs := sc_offs sc + 1\<rparr>)"

definition sbalance_rand_reinit :: "nat \<Rightarrow> uint32 \<Rightarrow> sbalance_connection \<Rightarrow> sb_fault + sbalance_connection" where
  "sbalance_rand_reinit nserv arc4random sc =
    (case rcycle_init (of_nat nserv) arc4random of
       Inl e \<Rightarrow> Inl (Bad_cycle e)
     | Inr rc \<Rightarrow> Inr (sc\<lparr>sc_rc := Some rc, sc_first := int nserv, sc_offs := -1\<rparr>))"

text \<open>The loop that picks a service by weight: \<open>tw\<close> is the weight so far, \<open>i\<close> the index of the next one.\<close>

fun hash_pick :: "'d double_ops \<Rightarrow> uint32 \<Rightarrow> 'a sb_service list \<Rightarrow> nat \<Rightarrow> 'd \<Rightarrow> nat \<Rightarrow> nat" where
  "hash_pick ops hash [] i tw pick = pick"
| "hash_pick ops hash (sv # svs) i tw pick =
    (let w = d_recip ops (if tempfailcost sv \<noteq> 0 then tempfailcost sv else cost sv);
         tw = d_add ops tw w;
         r = d_rand48 ops hash i
     in hash_pick ops hash svs (Suc i) tw (if d_gt ops (d_div ops w tw) r then i else pick))"

definition sbalance_hash_init ::
  "'d double_ops \<Rightarrow> 'a sbalance \<Rightarrow> uint32 \<Rightarrow> sbalance_connection \<Rightarrow> sbalance_connection" where
  "sbalance_hash_init ops sb hash sc =
    sc\<lparr>sc_offs := int (hash_pick ops hash (sb_service sb) 0 (d_zero ops) 0),
       sc_first := 1, sc_retries := sint (sb_retries sb)\<rparr>"

definition sbalance_rand_init ::
  "'d double_ops \<Rightarrow> 'a sbalance \<Rightarrow> uint32 \<Rightarrow> sbalance_connection \<Rightarrow> sbalance_connection" where
  "sbalance_rand_init ops sb arc4random sc = sbalance_hash_init ops sb arc4random sc"

definition sbalance_rcycle_next :: "sbalance_connection \<Rightarrow> sb_fault + int \<times> sbalance_connection" where
  "sbalance_rcycle_next sc =
    (if sc_offs sc \<noteq> -1 then Inr (sc_offs sc, sc)
     else case sc_rc sc of
       None \<Rightarrow> Inl No_cycle
     | Some rc \<Rightarrow>
         (case rcycle_generate rc of
            None \<Rightarrow> Inl Loops_forever
          | Some (Inl e) \<Rightarrow> Inl (Bad_cycle e)
          | Some (Inr (v, rc)) \<Rightarrow> Inr (sint v, sc\<lparr>sc_rc := Some rc\<rparr>)))"

text \<open>The three functions of \<open>struct sb_strategy\<close>, dispatched on the strategy.\<close>

definition strat_init ::
  "'d double_ops \<Rightarrow> 'a sbalance \<Rightarrow> uint32 \<Rightarrow> uint32 \<Rightarrow> sbalance_connection \<Rightarrow> sbalance_connection" where
  "strat_init ops sb hash arc4random sc =
    (case sb_strat sb of
       ST_SEQ \<Rightarrow> sbalance_seq_init sb sc
     | ST_RANDOM \<Rightarrow> sbalance_rand_init ops sb arc4random sc
     | ST_HASH \<Rightarrow> sbalance_hash_init ops sb hash sc)"

definition strat_reinit ::
  "sbalance_strat \<Rightarrow> nat \<Rightarrow> uint32 \<Rightarrow> sbalance_connection \<Rightarrow> sb_fault + sbalance_connection" where
  "strat_reinit st nserv arc4random sc =
    (case st of
       ST_SEQ \<Rightarrow> Inr (sbalance_seq_reinit nserv sc)
     | ST_RANDOM \<Rightarrow> sbalance_rand_reinit nserv arc4random sc
     | ST_HASH \<Rightarrow> sbalance_rand_reinit nserv arc4random sc)"

definition strat_next :: "sbalance_strat \<Rightarrow> sbalance_connection \<Rightarrow> sb_fault + int \<times> sbalance_connection" where
  "strat_next st sc =
    (case st of
       ST_SEQ \<Rightarrow> Inr (sbalance_seq_next sc)
     | ST_RANDOM \<Rightarrow> sbalance_rcycle_next sc
     | ST_HASH \<Rightarrow> sbalance_rcycle_next sc)"

subsection \<open>Connections\<close>

text \<open>The fields that \<open>strat_init\<close> does not set keep what the memory of the connection held.\<close>

definition sbalance_conn_new ::
  "'d double_ops \<Rightarrow> 'a sbalance \<Rightarrow> uint32 \<Rightarrow> uint32 \<Rightarrow> sbalance_connection \<Rightarrow> 'a sbalance \<times> sbalance_connection" where
  "sbalance_conn_new ops sb hash arc4random sc =
    (let sb = sbalance_retain sb in (sb, strat_init ops sb hash arc4random sc))"

definition account_failure ::
  "'a sbalance \<Rightarrow> sbalance_connection \<Rightarrow> sbalance_conn_status \<Rightarrow> sb_fault + 'a sbalance" where
  "account_failure sb sc status =
    (if status = SBCS_START then Inr sb
     else if sb_nserv sb \<le> sc_last sc then Inl Bad_index
     else
       let newcost = (if status = SBCS_FAIL then sb_failcost sb else sb_softfailcost sb)
       in Inr (sb\<lparr>sb_service := (sb_service sb)[sc_last sc := (sb_service sb ! sc_last sc)\<lparr>tempfailcost := newcost\<rparr>]\<rparr>))"

definition try_next :: "'a sbalance \<Rightarrow> sbalance_connection \<Rightarrow> sb_fault + 'a option \<times> 'a sbalance \<times> sbalance_connection" where
  "try_next sb sc =
    (case strat_next (sb_strat sb) (sc\<lparr>sc_first := sc_first sc - 1\<rparr>) of
       Inl e \<Rightarrow> Inl e
     | Inr (i, sc) \<Rightarrow>
         if i < 0 \<or> int (sb_nserv sb) \<le> i then Inl Bad_index
         else Inr (Some (sv_data (sb_service sb ! nat i)), sb, sc\<lparr>sc_last := nat i\<rparr>))"

definition sbalance_conn_next ::
  "'a sbalance \<Rightarrow> sbalance_connection \<Rightarrow> sbalance_conn_status \<Rightarrow> uint32 \<Rightarrow>
   sb_fault + 'a option \<times> 'a sbalance \<times> sbalance_connection" where
  "sbalance_conn_next sb sc status arc4random =
    (if sb_nserv sb = 0 then Inr (None, sb, sc)
     else case account_failure sb sc status of
       Inl e \<Rightarrow> Inl e
     | Inr sb \<Rightarrow>
         if sc_first sc = 0 then
           if sc_retries sc = 0 then Inr (None, sb, sc\<lparr>sc_retries := sc_retries sc - 1\<rparr>)
           else
             (case strat_reinit (sb_strat sb) (sb_nserv sb) arc4random (sc\<lparr>sc_retries := sc_retries sc - 1\<rparr>) of
                Inl e \<Rightarrow> Inl e
              | Inr sc \<Rightarrow> try_next sb sc)
         else try_next sb sc)"

definition sbalance_conn_done :: "'a sbalance \<Rightarrow> sbalance_connection \<Rightarrow> sb_fault + 'a sbalance" where
  "sbalance_conn_done sb sc =
    (if sb_nserv sb \<noteq> 0 \<and> 0 \<le> sc_retries sc then
       if sb_nserv sb \<le> sc_last sc then Inl Bad_index
       else if tempfailcost (sb_service sb ! sc_last sc) \<noteq> 0 then
         Inr (sb\<lparr>sb_service := (sb_service sb)[sc_last sc := (sb_service sb ! sc_last sc)\<lparr>tempfailcost := 0\<rparr>]\<rparr>)
       else Inr sb
     else Inr sb)"

definition sbalance_hash_string :: "cstring \<Rightarrow> uint32" where
  "sbalance_hash_string str =
    fold (\<lambda>c hash. (hash * 16777619) XOR word_of_int (if uchar c < 128 then uchar c else uchar c - 256)) str 2166136261"

text \<open>A sequence of calls of \<open>sbalance_conn_next\<close>, each with its status and the number drawn in it.\<close>

fun sbalance_conn_nexts ::
  "(sbalance_conn_status \<times> uint32) list \<Rightarrow> 'a sbalance \<Rightarrow> sbalance_connection \<Rightarrow>
   sb_fault + 'a option list \<times> 'a sbalance \<times> sbalance_connection" where
  "sbalance_conn_nexts [] sb sc = Inr ([], sb, sc)"
| "sbalance_conn_nexts ((status, draw) # calls) sb sc =
    (case sbalance_conn_next sb sc status draw of
       Inl e \<Rightarrow> Inl e
     | Inr (r, sb, sc) \<Rightarrow>
         (case sbalance_conn_nexts calls sb sc of
            Inl e \<Rightarrow> Inl e
          | Inr (rs, sb, sc) \<Rightarrow> Inr (r # rs, sb, sc)))"

end
