(* ===== verification/FdPool.thy ===== *)
theory FdPool
  imports Sbalance VtreeDispatch Avl
begin

text \<open>
  The connection pool, \<open>src/core/lib/fd_pool.c\<close>: services found by name, each with a load balancer over its
  nodes, nodes shared between services and counted, and per port of a node the descriptors that wait
  to be used again.

  Memory is explicit.  Nodes, balancers and services are numbered in the order of their
  allocation and kept in lists (\<open>pm_nodes\<close>, \<open>pm_sbs\<close>, \<open>pm_srvs\<close>) in which \<open>None\<close> is memory that was
  freed; a service node belongs to one balancer and is its element, so a pointer to it is the pair of
  the balancer and the index.  A dereferenced null or freed pointer, a fault of the load balancer and
  a loop that does not end make a result \<open>None\<close>.  \<open>pm_closed\<close> and \<open>pm_tried\<close> record the descriptors
  closed and the ports a connection was attempted to.

  Each function is one step between threads.  The answers of the system are the fields of
  \<open>net_env\<close>: \<open>getaddrinfo\<close> and \<open>getnameinfo\<close>, \<open>poll\<close> on a stored descriptor, \<open>socket\<close> and
  \<open>connect\<close> of the \<open>k\<close>-th attempt, the limit on descriptors, \<open>realpath\<close>, \<open>arc4random\<close>
  and the arithmetic of \<open>double\<close>.  Pools here have no service discovery registry (\<open>sdr\<close> is \<open>NULL\<close>).  Counters for
  the log, the log itself and the timer attributes are left out.

  The counts \<open>nd_refs\<close> and \<open>sb_refs\<close> are of type \<open>int\<close> and \<open>sb_gen\<close> has 64 bits in the code; they are unbounded here,
  so what is shown is about pools with less than \<open>2 ^ 31\<close> uses of a node, less than \<open>2 ^ 31\<close> holders of a balancer
  and less than \<open>2 ^ 64\<close> updates of a service.
\<close>

subsection \<open>Structures\<close>

record addrinfo =
  ai_flags :: int
  ai_socktype :: int

record fd_pool_entry =
  fe_addr :: nat
  fe_fd :: int

record fd_pool_port =
  pt_port_key :: cstring
  pt_sockaddr :: cstring
  pt_peer :: cstring
  pt_entries :: "fd_pool_entry list"
  pt_last_ptr :: "nat option"

record fd_pool_node =
  nd_socktype :: int
  nd_cost :: int
  nd_ports :: "fd_pool_port list"
  nd_refs :: int

record fd_pool_service_node =
  sn_key :: "cstring option"
  sn_node :: nat

record fd_pool_service =
  srv_service :: cstring
  srv_sb :: nat
  srv_sb_gen :: nat
  srv_cycle_last :: bool
  srv_hints :: addrinfo
  srv_timeoutms :: int

record fd_pool =
  free_entries :: "nat list"
  all_nodes :: "nat list"
  services :: "(cstring \<times> nat) avl_node"
  upmap :: vtree_chain
  pm_nodes :: "fd_pool_node option list"
  pm_sbs :: "fd_pool_service_node sbalance option list"
  pm_srvs :: "fd_pool_service list"
  pm_entry :: nat
  pm_draws :: nat
  pm_closed :: "int list"
  pm_tried :: "(nat \<times> nat) list"

record fd_pool_conn =
  fc_srv :: "nat option"
  fc_sn :: "(nat \<times> nat) option"
  fc_port :: "(nat \<times> nat) option"
  fc_entry :: "fd_pool_entry option"
  fc_sc :: sbalance_connection
  fc_sc_sb :: "nat option"
  fc_sb_gen :: nat
  fc_port_key :: cstring
  fc_pk_ptr :: cstring
  fc_async :: bool
  fc_sc_hash :: uint32
  fc_node_filter :: "cstring option"
  fc_active_fd :: bool
  fc_nonblock :: bool

datatype eai = EAI_NONAME | EAI_SYSTEM | EAI_other

record 'd net_env =
  ne_ops :: "'d double_ops"
  ne_random :: "nat \<Rightarrow> uint32"
  ne_poll :: "int \<Rightarrow> bool"
  ne_connect :: "nat \<Rightarrow> fd_pool_port \<Rightarrow> int option"
  ne_keep :: "int \<Rightarrow> bool"
  ne_getaddrinfo :: "cstring \<Rightarrow> cstring \<Rightarrow> addrinfo \<Rightarrow> eai + (cstring \<times> cstring option) list"
  ne_realpath :: "cstring \<Rightarrow> cstring option"

definition EFDP_EMPTY_CONFIG :: int where "EFDP_EMPTY_CONFIG = -1"
definition EFDP_EAI_NONAME :: int where "EFDP_EAI_NONAME = -3"
definition EFDP_EAI_OTHER :: int where "EFDP_EAI_OTHER = -4"
definition EFDP_NO_SUCH_SERVICE :: int where "EFDP_NO_SUCH_SERVICE = -5"
definition EFDP_RACE_LOST :: int where "EFDP_RACE_LOST = -6"
definition EFDP_SYSTEM :: int where "EFDP_SYSTEM = -100"

definition FD_POOL_DEFAULT_TIMEOUT :: int where "FD_POOL_DEFAULT_TIMEOUT = 5000"
definition FD_POOL_DEFAULT_FAIL :: uint32 where "FD_POOL_DEFAULT_FAIL = 100"
definition FD_POOL_DEFAULT_TEMPFAIL :: uint32 where "FD_POOL_DEFAULT_TEMPFAIL = 0"

definition SOCK_STREAM :: int where "SOCK_STREAM = 1"
definition AI_ADDRCONFIG :: int where "AI_ADDRCONFIG = 32"

definition default_hints :: addrinfo where
  "default_hints = \<lparr>ai_flags = AI_ADDRCONFIG, ai_socktype = SOCK_STREAM\<rparr>"

definition default_upmap :: vtree_chain where
  "default_upmap =
    VT_literal (Keyvals vktDict
      (map (\<lambda>(k, v). Kv_elem (Some k) (vkvValue v))
        [(''80'', ''http_port''), (''443'', ''http_port''), (''8080'', ''port''), (''8081'', ''controller_port''),
         (''8082'', ''keepalive_port,port''), (''8180'', ''plog_port'')]))"

subsection \<open>Memory\<close>

text \<open>Reading memory: \<open>None\<close> is a pointer to nothing or to memory that was freed.\<close>

definition mem_at :: "'a option list \<Rightarrow> nat \<Rightarrow> 'a option" where
  "mem_at m i = (if i < length m then m ! i else None)"

definition pnode_at :: "fd_pool \<Rightarrow> nat \<Rightarrow> fd_pool_node option" where
  "pnode_at pool nid = mem_at (pm_nodes pool) nid"

definition sb_at :: "fd_pool \<Rightarrow> nat \<Rightarrow> fd_pool_service_node sbalance option" where
  "sb_at pool b = mem_at (pm_sbs pool) b"

definition set_node :: "nat \<Rightarrow> fd_pool_node option \<Rightarrow> fd_pool \<Rightarrow> fd_pool" where
  "set_node nid n pool = pool\<lparr>pm_nodes := (pm_nodes pool)[nid := n]\<rparr>"

definition set_sb :: "nat \<Rightarrow> fd_pool_service_node sbalance option \<Rightarrow> fd_pool \<Rightarrow> fd_pool" where
  "set_sb b sb pool = pool\<lparr>pm_sbs := (pm_sbs pool)[b := sb]\<rparr>"

definition srv_at :: "fd_pool \<Rightarrow> nat \<Rightarrow> fd_pool_service option" where
  "srv_at pool s = (if s < length (pm_srvs pool) then Some (pm_srvs pool ! s) else None)"

definition sn_at :: "fd_pool \<Rightarrow> nat \<times> nat \<Rightarrow> fd_pool_service_node option" where
  "sn_at pool p =
    do {
      sb \<leftarrow> sb_at pool (fst p);
      if snd p < sb_nserv sb then Some (sv_data (sb_service sb ! snd p)) else None
    }"

definition new_sb :: "fd_pool_service_node sbalance \<Rightarrow> fd_pool \<Rightarrow> nat \<times> fd_pool" where
  "new_sb sb pool = (length (pm_sbs pool), pool\<lparr>pm_sbs := pm_sbs pool @ [Some sb]\<rparr>)"

subsection \<open>Calls of the vtree\<close>

definition vt_get :: "vtree_chain option \<Rightarrow> cstring \<Rightarrow> cstring option option" where
  "vt_get v k = map_option fst (vtree_get_cache bpv_get v None None [k])"

definition vt_getint :: "vtree_chain option \<Rightarrow> cstring \<Rightarrow> int option" where
  "vt_getint v k = map_option fst (vtree_getint_cache bpv_get v None None [k])"

definition vt_haskey :: "vtree_chain option \<Rightarrow> cstring \<Rightarrow> bool option" where
  "vt_haskey v k = map_option (\<lambda>r. fst r \<noteq> 0) (vtree_haskey_cache bpv_haskey v None None [k])"

definition vt_keyvals :: "vtree_chain option \<Rightarrow> varg list \<Rightarrow> vtree_keyvals option" where
  "vt_keyvals v va = map_option fst (vtree_fetch_keys_and_values_cache bpv_fetch_keys_and_values v None va)"

definition fd_pool_upmap_lookup :: "vtree_chain \<Rightarrow> cstring option \<Rightarrow> cstring option" where
  "fd_pool_upmap_lookup um port_key =
    (case port_key of
       None \<Rightarrow> Some ''port''
     | Some k \<Rightarrow> if k = [] then Some ''port'' else map_option (\<lambda>v. case v of None \<Rightarrow> k | Some w \<Rightarrow> w) (vt_get (Some um) k))"

subsection \<open>Nodes\<close>

text \<open>The first node of the same type that has all the given ports.\<close>

definition same_port :: "fd_pool_port \<Rightarrow> fd_pool_port \<Rightarrow> bool" where
  "same_port pa pb \<longleftrightarrow> strcmp (pt_port_key pa) (pt_port_key pb) = 0 \<and>
    length (pt_sockaddr pa) = length (pt_sockaddr pb) \<and> pt_sockaddr pa = pt_sockaddr pb"

fun fetch_from :: "fd_pool \<Rightarrow> int \<Rightarrow> fd_pool_port list \<Rightarrow> nat list \<Rightarrow> nat option option" where
  "fetch_from pool socktype ports [] = Some None"
| "fetch_from pool socktype ports (nid # nids) =
    do {
      n \<leftarrow> pnode_at pool nid;
      if socktype = nd_socktype n \<and> list_all (\<lambda>pa. list_ex (same_port pa) (nd_ports n)) ports
      then Some (Some nid)
      else fetch_from pool socktype ports nids
    }"

definition fd_pool_fetch_node :: "fd_pool \<Rightarrow> int \<Rightarrow> fd_pool_port list \<Rightarrow> (nat option \<times> fd_pool) option" where
  "fd_pool_fetch_node pool socktype ports =
    do {
      r \<leftarrow> fetch_from pool socktype ports (all_nodes pool);
      (case r of
         None \<Rightarrow> Some (None, pool)
       | Some nid \<Rightarrow>
           do { n \<leftarrow> pnode_at pool nid; Some (Some nid, set_node nid (Some (n\<lparr>nd_refs := nd_refs n + 1\<rparr>)) pool) })
    }"

definition fd_pool_node_new :: "fd_pool \<Rightarrow> int \<Rightarrow> int \<Rightarrow> fd_pool_port list \<Rightarrow> nat \<times> fd_pool" where
  "fd_pool_node_new pool socktype c ports =
    (let nid = length (pm_nodes pool);
         node = \<lparr>nd_socktype = socktype, nd_cost = c, nd_ports = map (pt_entries_update (\<lambda>_. [])) ports, nd_refs = 1\<rparr>
     in (nid, pool\<lparr>pm_nodes := pm_nodes pool @ [Some node], all_nodes := all_nodes pool @ [nid]\<rparr>))"

definition fd_pool_add_node ::
  "fd_pool \<Rightarrow> nat \<Rightarrow> cstring option \<Rightarrow> vtree_chain option \<Rightarrow> int \<Rightarrow> fd_pool_port list \<Rightarrow> fd_pool option" where
  "fd_pool_add_node pool b key vtree socktype ports =
    (if ports = [] then Some pool
     else
       do {
         (nid, pool) \<leftarrow>
           do {
             r \<leftarrow> fd_pool_fetch_node pool socktype ports;
             (case r of
                (Some nid, pool) \<Rightarrow> Some (nid, pool)
              | (None, pool) \<Rightarrow>
                  do {
                    c \<leftarrow> vt_getint vtree ''cost'';
                    Some (fd_pool_node_new pool socktype (if c \<noteq> 0 then c else 1) ports)
                  })
           };
         node \<leftarrow> pnode_at pool nid;
         sb \<leftarrow> sb_at pool b;
         Some (set_sb b (Some (sbalance_add_serv sb (word_of_int (nd_cost node)) \<lparr>sn_key = key, sn_node = nid\<rparr>)) pool)
       })"

definition ports_cmp :: "fd_pool_port \<Rightarrow> fd_pool_port \<Rightarrow> int" where
  "ports_cmp a b =
    (let sza = length (takeWhile (\<lambda>c. c \<noteq> CHR '' '') (pt_peer a));
         szb = length (takeWhile (\<lambda>c. c \<noteq> CHR '' '') (pt_peer b))
     in if sza < szb then -1 else if szb < sza then 1 else strncmp sza (pt_peer a) (pt_peer b))"

text \<open>The order \<open>qsort\<close> leaves equal ports in is not specified; here they keep theirs.\<close>

fun insort_ports :: "fd_pool_port \<Rightarrow> fd_pool_port list \<Rightarrow> fd_pool_port list" where
  "insort_ports p [] = [p]"
| "insort_ports p (q # qs) = (if ports_cmp p q \<le> 0 then p # q # qs else q # insort_ports p qs)"

definition qsort_ports :: "fd_pool_port list \<Rightarrow> fd_pool_port list" where
  "qsort_ports ports = foldr insort_ports ports []"

text \<open>The loop of \<open>fd_pool_add\<close>: \<open>run\<close> are the ports from \<open>start\<close> on, not empty.\<close>

fun add_runs ::
  "fd_pool \<Rightarrow> nat \<Rightarrow> cstring option \<Rightarrow> vtree_chain option \<Rightarrow> int \<Rightarrow> fd_pool_port list \<Rightarrow> fd_pool_port list \<Rightarrow> fd_pool option" where
  "add_runs pool b key vtree socktype run [] = fd_pool_add_node pool b key vtree socktype run"
| "add_runs pool b key vtree socktype run (p # ps) =
    (if ports_cmp (hd run) p \<noteq> 0
     then do { pool \<leftarrow> fd_pool_add_node pool b key vtree socktype run; add_runs pool b key vtree socktype [p] ps }
     else add_runs pool b key vtree socktype (run @ [p]) ps)"

definition fd_pool_add ::
  "fd_pool \<Rightarrow> nat \<Rightarrow> cstring option \<Rightarrow> vtree_chain option \<Rightarrow> int \<Rightarrow> fd_pool_port list \<Rightarrow> fd_pool option" where
  "fd_pool_add pool b key vtree socktype ports =
    (case qsort_ports ports of
       [] \<Rightarrow> Some pool
     | p # ps \<Rightarrow> add_runs pool b key vtree socktype [p] ps)"

definition strlcpy :: "nat \<Rightarrow> cstring \<Rightarrow> cstring" where
  "strlcpy sz s = take (sz - 1) s"

definition fd_ports_add_addrinfo :: "fd_pool_port list \<Rightarrow> (cstring \<times> cstring option) list \<Rightarrow> cstring \<Rightarrow> fd_pool_port list" where
  "fd_ports_add_addrinfo ports res port_key =
    ports @ map (\<lambda>(addr, name).
      \<lparr>pt_port_key = strlcpy 32 port_key, pt_sockaddr = addr,
       pt_peer = (case name of None \<Rightarrow> [] | Some hs \<Rightarrow> strlcpy 256 hs), pt_entries = [], pt_last_ptr = None\<rparr>) res"

text \<open>The bytes of a \<open>struct sockaddr_un\<close> depend on nothing but the path, cut to its field.\<close>

definition fd_ports_add_unix :: "'d net_env \<Rightarrow> fd_pool_port list \<Rightarrow> cstring \<Rightarrow> cstring \<Rightarrow> fd_pool_port list" where
  "fd_ports_add_unix env ports path port_key =
    ports @ [\<lparr>pt_port_key = strlcpy 32 port_key,
              pt_sockaddr = CHR 0x01 # CHR 0x00 # (let p = strlcpy 108 path in p @ replicate (108 - length p) CHR 0x00),
              pt_peer = strlcpy 256 (case ne_realpath env path of None \<Rightarrow> path | Some r \<Rightarrow> r),
              pt_entries = [], pt_last_ptr = None\<rparr>]"

definition fd_pool_free_node :: "fd_pool_service_node \<Rightarrow> fd_pool \<Rightarrow> fd_pool option" where
  "fd_pool_free_node sn pool =
    do {
      node \<leftarrow> pnode_at pool (sn_node sn);
      if 0 < nd_refs node - 1
      then Some (set_node (sn_node sn) (Some (node\<lparr>nd_refs := nd_refs node - 1\<rparr>)) pool)
      else
        Some (set_node (sn_node sn) None
          (pool\<lparr>all_nodes := remove1 (sn_node sn) (all_nodes pool),
                pm_closed := pm_closed pool @ map fe_fd (concat (map pt_entries (nd_ports node)))\<rparr>))
    }"

fun free_nodes :: "fd_pool_service_node list \<Rightarrow> fd_pool \<Rightarrow> fd_pool option" where
  "free_nodes [] pool = Some pool"
| "free_nodes (sn # sns) pool = do { pool \<leftarrow> fd_pool_free_node sn pool; free_nodes sns pool }"

text \<open>\<open>sbalance_release(sb, fd_pool_free_node)\<close> on a balancer in memory.\<close>

definition release_sb :: "nat \<Rightarrow> fd_pool \<Rightarrow> fd_pool option" where
  "release_sb b pool =
    do {
      sb \<leftarrow> sb_at pool b;
      (case sbalance_release sb True of
         (Some sb, _) \<Rightarrow> Some (set_sb b (Some sb) pool)
       | (None, sns) \<Rightarrow> free_nodes sns (set_sb b None pool))
    }"

subsection \<open>Hosts from a configuration tree\<close>

fun find_port_err :: "eai \<Rightarrow> int" where
  "find_port_err EAI_NONAME = EFDP_EAI_NONAME"
| "find_port_err EAI_SYSTEM = EFDP_SYSTEM"
| "find_port_err EAI_other = EFDP_EAI_OTHER"

text \<open>The ports of a host: the values of its node with a key that ends in \<open>port\<close>, and \<open>path\<close>.\<close>

fun host_ports ::
  "'d net_env \<Rightarrow> addrinfo \<Rightarrow> cstring option \<Rightarrow> kv_elem list \<Rightarrow> fd_pool_port list \<Rightarrow> int \<Rightarrow> (fd_pool_port list \<times> int) option" where
  "host_ports env hints host [] ports err = Some (ports, err)"
| "host_ports env hints host (kv # kvs) ports err =
    (case kv_val kv of
       vkvValue v \<Rightarrow>
         (case kv_key kv of
            None \<Rightarrow> None
          | Some k \<Rightarrow>
              (case host of
                 Some h \<Rightarrow>
                   if 4 \<le> length k \<and> strcmp (drop (length k - 4) k) ''port'' = 0 then
                     (case ne_getaddrinfo env h v hints of
                        Inl e \<Rightarrow> host_ports env hints host kvs ports (find_port_err e)
                      | Inr res \<Rightarrow> host_ports env hints host kvs (fd_ports_add_addrinfo ports res k) err)
                   else if strcmp k ''path'' = 0 then host_ports env hints host kvs (fd_ports_add_unix env ports v ''port'') err
                   else host_ports env hints host kvs ports err
               | None \<Rightarrow>
                   if strcmp k ''path'' = 0 then host_ports env hints host kvs (fd_ports_add_unix env ports v ''port'') err
                   else host_ports env hints host kvs ports err))
     | _ \<Rightarrow> host_ports env hints host kvs ports err)"

text \<open>
  The loop over the hosts, with the counters \<open>cnt\<close> still to come.  The remainder in C has the sign of
  the sum, which is out of bounds when it is below 0; a sum beyond \<open>int\<close> overflows.
\<close>

fun populate_hosts ::
  "'d net_env \<Rightarrow> addrinfo \<Rightarrow> nat \<Rightarrow> kv_elem list \<Rightarrow> int \<Rightarrow> nat list \<Rightarrow> int \<Rightarrow> fd_pool \<Rightarrow> (int \<times> fd_pool) option" where
  "populate_hosts env hints b hosts start [] err pool = Some (err, pool)"
| "populate_hosts env hints b hosts start (cnt # cnts) err pool =
    (if 2 ^ 31 \<le> int cnt + start \<or> int cnt + start < 0 \<and> (int cnt + start) mod int (length hosts) \<noteq> 0 then None
     else
       let host = hosts ! nat ((int cnt + start) mod int (length hosts))
       in case kv_val host of
            vkvNode v \<Rightarrow>
              do {
                disabled \<leftarrow> vt_getint (Some v) ''disabled'';
                if disabled \<noteq> 0 then populate_hosts env hints b hosts start cnts err pool
                else
                  do {
                    name \<leftarrow> vt_get (Some v) ''name'';
                    kvs \<leftarrow> vt_keyvals (Some v) [VTREE_LOOP];
                    (ports, err) \<leftarrow> host_ports env hints name (kv_list kvs) [] err;
                    pool \<leftarrow> fd_pool_add pool b (kv_key host) (Some v) (ai_socktype hints) ports;
                    populate_hosts env hints b hosts start cnts err pool
                  }
              }
          | _ \<Rightarrow> populate_hosts env hints b hosts start cnts err pool)"

definition fd_pool_populate_from_vtree ::
  "'d net_env \<Rightarrow> fd_pool \<Rightarrow> nat \<Rightarrow> nat \<Rightarrow> vtree_chain option \<Rightarrow> (int \<times> fd_pool) option" where
  "fd_pool_populate_from_vtree env pool s b vtree =
    do {
      srv \<leftarrow> srv_at pool s;
      start \<leftarrow> vt_getint vtree ''start'';
      loop \<leftarrow> vt_keyvals vtree [Key ''host'', VTREE_LOOP];
      populate_hosts env (srv_hints srv) b (kv_list loop) (if start \<noteq> 0 then start - 1 else start)
        [0..<length (kv_list loop)] EFDP_EMPTY_CONFIG pool
    }"

subsection \<open>Services\<close>

definition fd_pool_new :: fd_pool where
  "fd_pool_new =
    \<lparr>free_entries = [], all_nodes = [], services = Null, upmap = default_upmap, pm_nodes = [], pm_sbs = [],
     pm_srvs = [], pm_entry = 0, pm_draws = 0, pm_closed = [], pm_tried = []\<rparr>"

definition fd_pool_get_strat :: "vtree_chain option \<Rightarrow> sbalance_strat option" where
  "fd_pool_get_strat vtree =
    do {
      strat \<leftarrow> vt_get vtree ''strat'';
      (case strat of
         Some (c # s) \<Rightarrow>
           Some (if strcmp (c # s) ''hash'' = 0 then ST_HASH
                 else if strcmp (c # s) ''random'' = 0 then ST_RANDOM else ST_SEQ)
       | _ \<Rightarrow>
           do {
             client_hash \<leftarrow> vt_getint vtree ''client_hash'';
             if client_hash \<noteq> 0 then Some ST_HASH
             else do { random_pick \<leftarrow> vt_getint vtree ''random_pick''; Some (if random_pick \<noteq> 0 then ST_RANDOM else ST_SEQ) }
           })
    }"

definition services_compare :: "cstring \<times> nat \<Rightarrow> cstring \<times> nat \<Rightarrow> int" where
  "services_compare a b = strcmp (fst a) (fst b)"

definition fd_pool_find_service :: "fd_pool \<Rightarrow> cstring \<Rightarrow> nat option" where
  "fd_pool_find_service pool service = map_option snd (avl_lookup services_compare (service, 0) (services pool))"

definition fd_pool_get_service ::
  "fd_pool \<Rightarrow> cstring \<Rightarrow> uint32 \<Rightarrow> uint32 \<Rightarrow> uint32 \<Rightarrow> sbalance_strat \<Rightarrow> int \<Rightarrow> addrinfo option \<Rightarrow> (nat \<times> fd_pool) option" where
  "fd_pool_get_service pool service retries failcost softcost st timeoutms hints =
    (case avl_lookup services_compare (service, 0) (services pool) of
       Some (_, s) \<Rightarrow> Some (s, pool)
     | None \<Rightarrow>
         let s = length (pm_srvs pool);
             (b, pool) = new_sb (sbalance_create retries failcost softcost st) pool;
             timeoutms = (if timeoutms \<noteq> 0 \<and> timeoutms < 1000 then 0 else timeoutms);
             srv = \<lparr>srv_service = service, srv_sb = b, srv_sb_gen = 1, srv_cycle_last = False,
                    srv_hints = (case hints of None \<Rightarrow> default_hints | Some h \<Rightarrow> h),
                    srv_timeoutms = (if timeoutms = 0 then FD_POOL_DEFAULT_TIMEOUT else timeoutms)\<rparr>
         in do {
              t \<leftarrow> avl_insert services_compare (service, s) (services pool);
              Some (s, pool\<lparr>pm_srvs := pm_srvs pool @ [srv], services := t\<rparr>)
            })"

definition or_default :: "int \<Rightarrow> uint32 \<Rightarrow> uint32" where
  "or_default v d = (if v \<noteq> 0 then word_of_int v else d)"

text \<open>The service of a configuration, as \<open>fd_pool_create\<close> and \<open>fd_pool_add_config\<close> make it.\<close>

definition config_service ::
  "fd_pool \<Rightarrow> cstring \<Rightarrow> vtree_chain option \<Rightarrow> addrinfo option \<Rightarrow> (nat \<times> fd_pool) option" where
  "config_service pool service vtree hints =
    do {
      st \<leftarrow> fd_pool_get_strat vtree;
      retries \<leftarrow> vt_getint vtree ''retries'';
      failcost \<leftarrow> vt_getint vtree ''failcost'';
      softcost \<leftarrow> vt_getint vtree ''tempfailcost'';
      connect_timeout \<leftarrow> vt_getint vtree ''connect_timeout'';
      timeout \<leftarrow> (if connect_timeout \<noteq> 0 then Some connect_timeout else vt_getint vtree ''timeout'');
      fd_pool_get_service pool service
        (word_of_int (if st \<noteq> ST_SEQ \<and> retries \<le> 0 then 1 else retries))
        (or_default failcost FD_POOL_DEFAULT_FAIL) (or_default softcost FD_POOL_DEFAULT_TEMPFAIL)
        st timeout hints
    }"

definition srv_nserv :: "fd_pool \<Rightarrow> nat \<Rightarrow> nat option" where
  "srv_nserv pool s = do { srv \<leftarrow> srv_at pool s; sb \<leftarrow> sb_at pool (srv_sb srv); Some (sb_nserv sb) }"

definition fd_pool_create ::
  "'d net_env \<Rightarrow> cstring \<Rightarrow> vtree_chain option \<Rightarrow> addrinfo option \<Rightarrow> fd_pool option option" where
  "fd_pool_create env service vtree hints =
    (if live vtree = None then Some None
     else
       do {
         (s, pool) \<leftarrow> config_service fd_pool_new service vtree hints;
         srv \<leftarrow> srv_at pool s;
         (err, pool) \<leftarrow> fd_pool_populate_from_vtree env pool s (srv_sb srv) vtree;
         n \<leftarrow> srv_nserv pool s;
         sd \<leftarrow> vt_haskey vtree ''sd'';
         if n = 0 \<and> \<not> sd then do { pool \<leftarrow> release_sb (srv_sb srv) pool; Some None }
         else Some (Some pool)
       })"

text \<open>
  \<open>fd_pool_add_config\<close>: \<open>hash_name\<close> is the name made from the hash of the hosts as JSON, by
  \<open>XXH64\<close> of the xxhash library.
\<close>

definition fd_pool_add_config ::
  "'d net_env \<Rightarrow> (vtree_chain option \<Rightarrow> cstring) \<Rightarrow> fd_pool \<Rightarrow> vtree_chain option \<Rightarrow> addrinfo option \<Rightarrow>
   (int \<times> cstring option \<times> fd_pool) option" where
  "fd_pool_add_config env hash_name pool vtree hints =
    (if live vtree = None then Some (EFDP_EMPTY_CONFIG, None, pool)
     else
       do {
         name \<leftarrow> vt_get vtree ''service'';
         (s, pool) \<leftarrow> config_service pool (case name of None \<Rightarrow> hash_name vtree | Some n \<Rightarrow> n) vtree hints;
         srv \<leftarrow> srv_at pool s;
         n \<leftarrow> srv_nserv pool s;
         if n \<noteq> 0 then Some (0, Some (srv_service srv), pool)
         else
           do {
             (err, pool) \<leftarrow> fd_pool_populate_from_vtree env pool s (srv_sb srv) vtree;
             n \<leftarrow> srv_nserv pool s;
             sd \<leftarrow> vt_haskey vtree ''sd'';
             Some (if n = 0 \<and> \<not> sd then (err, None, pool) else (0, Some (srv_service srv), pool))
           }
       })"

definition fd_pool_create_single ::
  "'d net_env \<Rightarrow> cstring \<Rightarrow> cstring \<Rightarrow> cstring \<Rightarrow> uint32 \<Rightarrow> int \<Rightarrow> addrinfo option \<Rightarrow> fd_pool option option" where
  "fd_pool_create_single env service host port retries timeoutms hints =
    (let hints = (case hints of None \<Rightarrow> default_hints | Some h \<Rightarrow> h)
     in case ne_getaddrinfo env host port hints of
          Inl _ \<Rightarrow> Some None
        | Inr res \<Rightarrow>
            do {
              (s, pool) \<leftarrow> fd_pool_get_service fd_pool_new service retries FD_POOL_DEFAULT_FAIL FD_POOL_DEFAULT_TEMPFAIL
                             ST_SEQ timeoutms (Some hints);
              srv \<leftarrow> srv_at pool s;
              pool \<leftarrow> fd_pool_add pool (srv_sb srv) None None (ai_socktype (srv_hints srv))
                       (fd_ports_add_addrinfo [] res ''port'');
              n \<leftarrow> srv_nserv pool s;
              if n = 0 then do { pool \<leftarrow> release_sb (srv_sb srv) pool; Some None } else Some (Some pool)
            })"

definition fd_pool_add_single ::
  "'d net_env \<Rightarrow> fd_pool \<Rightarrow> cstring \<Rightarrow> cstring \<Rightarrow> cstring \<Rightarrow> uint32 \<Rightarrow> int \<Rightarrow> addrinfo option \<Rightarrow> (int \<times> fd_pool) option" where
  "fd_pool_add_single env pool service host port retries timeoutms hints =
    (let hints = (case hints of None \<Rightarrow> default_hints | Some h \<Rightarrow> h)
     in case ne_getaddrinfo env host port hints of
          Inl e \<Rightarrow> Some (find_port_err e, pool)
        | Inr res \<Rightarrow>
            do {
              (s, pool) \<leftarrow> fd_pool_get_service pool service retries FD_POOL_DEFAULT_FAIL FD_POOL_DEFAULT_TEMPFAIL
                             ST_RANDOM timeoutms (Some hints);
              srv \<leftarrow> srv_at pool s;
              pool \<leftarrow> fd_pool_add pool (srv_sb srv) None None (ai_socktype (srv_hints srv))
                       (fd_ports_add_addrinfo [] res ''port'');
              n \<leftarrow> srv_nserv pool s;
              Some (if n = 0 then EFDP_EMPTY_CONFIG else 0, pool)
            })"

definition fd_pool_create_unix ::
  "'d net_env \<Rightarrow> cstring \<Rightarrow> cstring \<Rightarrow> uint32 \<Rightarrow> int \<Rightarrow> int \<Rightarrow> fd_pool option" where
  "fd_pool_create_unix env service path retries timeoutms socktype =
    do {
      (s, pool) \<leftarrow> fd_pool_get_service fd_pool_new service retries FD_POOL_DEFAULT_FAIL FD_POOL_DEFAULT_TEMPFAIL
                     ST_SEQ timeoutms (Some \<lparr>ai_flags = AI_ADDRCONFIG, ai_socktype = socktype\<rparr>);
      srv \<leftarrow> srv_at pool s;
      fd_pool_add pool (srv_sb srv) None None socktype (fd_ports_add_unix env [] path ''port'')
    }"

definition fd_pool_add_unix ::
  "'d net_env \<Rightarrow> fd_pool \<Rightarrow> cstring \<Rightarrow> cstring \<Rightarrow> uint32 \<Rightarrow> int \<Rightarrow> int \<Rightarrow> (int \<times> fd_pool) option" where
  "fd_pool_add_unix env pool service path retries timeoutms socktype =
    do {
      (s, pool) \<leftarrow> fd_pool_get_service pool service retries FD_POOL_DEFAULT_FAIL FD_POOL_DEFAULT_TEMPFAIL
                     ST_RANDOM timeoutms (Some \<lparr>ai_flags = AI_ADDRCONFIG, ai_socktype = socktype\<rparr>);
      srv \<leftarrow> srv_at pool s;
      pool \<leftarrow> fd_pool_add pool (srv_sb srv) None None socktype (fd_ports_add_unix env [] path ''port'');
      Some (0, pool)
    }"

text \<open>
  \<open>fd_pool_update_hosts\<close> in the two parts between which other threads can run: a new balancer is
  filled, then it is put in place under the lock, unless the service got another one meanwhile.
\<close>

definition update_begin ::
  "'d net_env \<Rightarrow> fd_pool \<Rightarrow> nat \<Rightarrow> vtree_chain option \<Rightarrow> (int \<times> nat \<times> nat \<times> fd_pool) option" where
  "update_begin env pool s vtree =
    do {
      srv \<leftarrow> srv_at pool s;
      src_sb \<leftarrow> sb_at pool (srv_sb srv);
      let (b, pool) = new_sb (sbalance_create (sb_retries src_sb) (sb_failcost src_sb) (sb_softfailcost src_sb) (sbalance_strat src_sb)) pool;
      (n, pool) \<leftarrow> fd_pool_populate_from_vtree env pool s b vtree;
      Some (n, srv_sb srv, b, pool)
    }"

definition update_commit :: "fd_pool \<Rightarrow> nat \<Rightarrow> int \<Rightarrow> nat \<Rightarrow> nat \<Rightarrow> (int \<times> fd_pool) option" where
  "update_commit pool s n src_sb b =
    do {
      sb \<leftarrow> sb_at pool b;
      srv \<leftarrow> srv_at pool s;
      let (n, b, pool) =
        (if sb_nserv sb = 0 then (n, b, pool)
         else if srv_sb srv = src_sb
         then (int (sb_nserv sb), src_sb,
               pool\<lparr>pm_srvs := (pm_srvs pool)[s := srv\<lparr>srv_sb := b, srv_sb_gen := srv_sb_gen srv + 1\<rparr>]\<rparr>)
         else (EFDP_RACE_LOST, b, pool));
      pool \<leftarrow> release_sb b pool;
      Some (n, pool)
    }"

definition fd_pool_update_hosts ::
  "'d net_env \<Rightarrow> fd_pool \<Rightarrow> cstring \<Rightarrow> vtree_chain option \<Rightarrow> (int \<times> fd_pool) option" where
  "fd_pool_update_hosts env pool service vtree =
    (if vtree = None then Some (EFDP_EMPTY_CONFIG, pool)
     else case fd_pool_find_service pool service of
       None \<Rightarrow> Some (EFDP_NO_SUCH_SERVICE, pool)
     | Some s \<Rightarrow>
         do {
           (n, src_sb, b, pool) \<leftarrow> update_begin env pool s vtree;
           update_commit pool s n src_sb b
         })"

text \<open>\<open>fd_pool_free\<close> frees the services in the reverse order of the tree; \<open>None\<close> also when its assertion fails.\<close>

fun release_all :: "(cstring \<times> nat) list \<Rightarrow> fd_pool \<Rightarrow> fd_pool option" where
  "release_all [] pool = Some pool"
| "release_all ((_, s) # ss) pool =
    do { srv \<leftarrow> srv_at pool s; pool \<leftarrow> release_sb (srv_sb srv) pool; release_all ss pool }"

definition fd_pool_free :: "fd_pool \<Rightarrow> fd_pool option" where
  "fd_pool_free pool =
    do {
      ss \<leftarrow> avl_it_drain (avl_it_init (services pool) None None services_compare);
      pool \<leftarrow> release_all (rev ss) pool;
      if all_nodes pool = [] then Some (pool\<lparr>free_entries := []\<rparr>) else None
    }"

definition fd_pool_set_portmap :: "fd_pool \<Rightarrow> vtree_chain option \<Rightarrow> fd_pool" where
  "fd_pool_set_portmap pool um = pool\<lparr>upmap := (case um of None \<Rightarrow> default_upmap | Some v \<Rightarrow> v)\<rparr>"

definition fd_pool_set_cycle_last :: "fd_pool \<Rightarrow> cstring \<Rightarrow> bool \<Rightarrow> fd_pool" where
  "fd_pool_set_cycle_last pool service cl =
    (case fd_pool_find_service pool service of
       None \<Rightarrow> pool
     | Some s \<Rightarrow> pool\<lparr>pm_srvs := (pm_srvs pool)[s := (pm_srvs pool ! s)\<lparr>srv_cycle_last := cl\<rparr>]\<rparr>)"

end
