(* ===== verification/FdPoolConn.thy ===== *)
theory FdPoolConn
  imports FdPool
begin

text \<open>
  Connections of the pool, the second half of \<open>src/core/lib/fd_pool.c\<close>: taking a descriptor
  from a pool (\<open>fd_pool_get\<close>), giving it back (\<open>fd_pool_put\<close>), and the walk over services, nodes and
  ports.  The loops of \<open>fd_pool_move_node\<close> and \<open>fd_pool_get\<close> have no bound in the code and are
  partial functions.
\<close>

subsection \<open>Making and freeing connections\<close>

definition zero_sc :: sbalance_connection where
  "zero_sc = \<lparr>sc_retries = 0, sc_first = 0, sc_rc = None, sc_offs = 0, sc_last = 0\<rparr>"

definition fd_pool_new_conn ::
  "fd_pool \<Rightarrow> cstring \<Rightarrow> cstring option \<Rightarrow> cstring option \<Rightarrow> fd_pool_conn option" where
  "fd_pool_new_conn pool service port_key remote_addr =
    do {
      k \<leftarrow> fd_pool_upmap_lookup (upmap pool) port_key;
      Some \<lparr>fc_srv = fd_pool_find_service pool service, fc_sn = None, fc_port = None, fc_entry = None,
            fc_sc = zero_sc, fc_sc_sb = None, fc_sb_gen = 0, fc_port_key = k, fc_pk_ptr = [], fc_async = False,
            fc_sc_hash = (case remote_addr of None \<Rightarrow> 0 | Some a \<Rightarrow> sbalance_hash_string a),
            fc_node_filter = None, fc_active_fd = False, fc_nonblock = False\<rparr>
    }"

text \<open>\<open>sbalance_conn_done\<close> on the balancer of a connection, if it has one.\<close>

definition conn_done :: "fd_pool \<Rightarrow> fd_pool_conn \<Rightarrow> fd_pool option" where
  "conn_done pool conn =
    (case fc_sc_sb conn of
       None \<Rightarrow> Some pool
     | Some b \<Rightarrow>
         do {
           sb \<leftarrow> sb_at pool b;
           (case sbalance_conn_done sb (fc_sc conn) of Inl _ \<Rightarrow> None | Inr sb \<Rightarrow> Some (set_sb b (Some sb) pool))
         })"

definition conn_release :: "fd_pool \<Rightarrow> fd_pool_conn \<Rightarrow> fd_pool option" where
  "conn_release pool conn = (case fc_sc_sb conn of None \<Rightarrow> Some pool | Some b \<Rightarrow> release_sb b pool)"

definition recycle_entry :: "fd_pool \<Rightarrow> fd_pool_conn \<Rightarrow> fd_pool" where
  "recycle_entry pool conn =
    (case fc_entry conn of None \<Rightarrow> pool | Some e \<Rightarrow> pool\<lparr>free_entries := fe_addr e # free_entries pool\<rparr>)"

definition fd_pool_free_conn :: "fd_pool \<Rightarrow> fd_pool_conn \<Rightarrow> fd_pool option" where
  "fd_pool_free_conn pool conn =
    do {
      pool \<leftarrow> conn_done pool conn;
      pool \<leftarrow> conn_release pool conn;
      Some (recycle_entry pool conn)
    }"

definition fd_pool_timeout :: "fd_pool \<Rightarrow> fd_pool_conn \<Rightarrow> int option" where
  "fd_pool_timeout pool conn =
    (case fc_srv conn of None \<Rightarrow> Some FD_POOL_DEFAULT_TIMEOUT | Some s \<Rightarrow> map_option srv_timeoutms (srv_at pool s))"

definition fd_pool_socktype :: "fd_pool \<Rightarrow> fd_pool_conn \<Rightarrow> int option" where
  "fd_pool_socktype pool conn =
    (case fc_srv conn of None \<Rightarrow> Some SOCK_STREAM | Some s \<Rightarrow> map_option (\<lambda>srv. ai_socktype (srv_hints srv)) (srv_at pool s))"

definition fd_pool_set_nonblock :: "fd_pool_conn \<Rightarrow> bool \<Rightarrow> fd_pool_conn" where
  "fd_pool_set_nonblock conn nb = conn\<lparr>fc_nonblock := nb\<rparr>"

definition fd_pool_set_async :: "fd_pool_conn \<Rightarrow> bool \<Rightarrow> fd_pool_conn" where
  "fd_pool_set_async conn async = conn\<lparr>fc_async := async\<rparr>"

definition fd_pool_set_node_key :: "fd_pool_conn \<Rightarrow> cstring \<Rightarrow> fd_pool_conn" where
  "fd_pool_set_node_key conn key = conn\<lparr>fc_node_filter := Some key\<rparr>"

definition fd_pool_set_port_key :: "fd_pool \<Rightarrow> fd_pool_conn \<Rightarrow> cstring option \<Rightarrow> fd_pool_conn option" where
  "fd_pool_set_port_key pool conn port_key =
    do { k \<leftarrow> fd_pool_upmap_lookup (upmap pool) port_key; Some (conn\<lparr>fc_port_key := k, fc_pk_ptr := k\<rparr>) }"

subsection \<open>The next port\<close>

text \<open>
  A port matches the first of the keys separated by commas: the \<open>pkl\<close> characters are equal and the key of the
  port ends there.
\<close>

definition port_matches :: "nat \<Rightarrow> cstring \<Rightarrow> fd_pool_port \<Rightarrow> bool" where
  "port_matches pkl pk p \<longleftrightarrow> strncmp pkl (pt_port_key p) pk = 0 \<and> length (pt_port_key p) = pkl"

definition skip_key :: "cstring \<Rightarrow> cstring" where
  "skip_key pk = (case dropWhile (\<lambda>c. c \<noteq> CHR '','') pk of [] \<Rightarrow> [] | c # rest \<Rightarrow> rest)"

lemma skip_key_shorter: "pk \<noteq> [] \<Longrightarrow> length (skip_key pk) < length pk"
  using length_dropWhile_le [of "\<lambda>c. c \<noteq> CHR '',''" pk] by (auto simp: skip_key_def split: list.split)

function move_port_loop :: "fd_pool_port list \<Rightarrow> cstring \<Rightarrow> nat option \<Rightarrow> bool \<times> nat option \<times> cstring" where
  "move_port_loop ports pk port =
    (if pk = [] then (False, port, pk)
     else
       let pkl = length (takeWhile (\<lambda>c. c \<noteq> CHR '','') pk);
           start = (case port of Some i \<Rightarrow> i + 1 | None \<Rightarrow> 0)
       in case find (\<lambda>j. port_matches pkl pk (ports ! j)) [start..<length ports] of
            Some j \<Rightarrow> (True, Some j, pk)
          | None \<Rightarrow> move_port_loop ports (skip_key pk) None)"
  by pat_completeness auto
termination
  by (relation "measure (\<lambda>(ports, pk, port). length pk)") (auto simp: skip_key_shorter)

declare move_port_loop.simps [simp del]

definition fd_pool_move_port :: "fd_pool \<Rightarrow> fd_pool_conn \<Rightarrow> (bool \<times> fd_pool_conn) option" where
  "fd_pool_move_port pool conn =
    do {
      p \<leftarrow> fc_sn conn;
      sn \<leftarrow> sn_at pool p;
      n \<leftarrow> pnode_at pool (sn_node sn);
      let (found, port, pk) = move_port_loop (nd_ports n) (fc_pk_ptr conn) (map_option snd (fc_port conn));
      Some (found, conn\<lparr>fc_port := map_option (Pair (sn_node sn)) port, fc_pk_ptr := pk\<rparr>)
    }"

text \<open>\<open>conn->sn = sbalance_conn_next(&conn->sc, status)\<close>\<close>

definition conn_next :: "'d net_env \<Rightarrow> fd_pool \<Rightarrow> fd_pool_conn \<Rightarrow> sbalance_conn_status \<Rightarrow> (fd_pool \<times> fd_pool_conn) option" where
  "conn_next env pool conn status =
    do {
      b \<leftarrow> fc_sc_sb conn;
      sb \<leftarrow> sb_at pool b;
      (case sbalance_conn_next sb (fc_sc conn) status (ne_random env (pm_draws pool)) of
         Inl _ \<Rightarrow> None
       | Inr (r, sb, sc) \<Rightarrow>
           Some ((set_sb b (Some sb) pool)\<lparr>pm_draws := pm_draws pool + 1\<rparr>,
                 conn\<lparr>fc_sc := sc, fc_sn := (case r of None \<Rightarrow> None | Some _ \<Rightarrow> Some (b, sc_last sc))\<rparr>))
    }"

definition filtered :: "fd_pool_conn \<Rightarrow> fd_pool_service_node \<Rightarrow> bool option" where
  "filtered conn sn =
    (case fc_node_filter conn of
       None \<Rightarrow> Some False
     | Some f \<Rightarrow> (case sn_key sn of None \<Rightarrow> None | Some k \<Rightarrow> Some (strcmp k f \<noteq> 0)))"

partial_function (option) fd_pool_move_node ::
  "'d net_env \<Rightarrow> fd_pool \<Rightarrow> fd_pool_conn \<Rightarrow> sbalance_conn_status \<Rightarrow> (fd_pool \<times> fd_pool_conn) option" where
  [code]: "fd_pool_move_node env pool conn status =
    do {
      (pool, conn) \<leftarrow> conn_next env pool conn status;
      (case fc_sn conn of
         None \<Rightarrow> Some (pool, conn)
       | Some p \<Rightarrow>
           do {
             sn \<leftarrow> sn_at pool p;
             skip \<leftarrow> filtered conn sn;
             if skip then fd_pool_move_node env pool conn SBCS_START
             else
               do {
                 (found, conn) \<leftarrow> fd_pool_move_port pool (conn\<lparr>fc_pk_ptr := fc_port_key conn, fc_port := None\<rparr>);
                 if found then Some (pool, conn) else fd_pool_move_node env pool conn SBCS_START
               }
           })
    }"

subsection \<open>Taking a descriptor\<close>

definition get_restart ::
  "'d net_env \<Rightarrow> fd_pool \<Rightarrow> fd_pool_conn \<Rightarrow> nat \<Rightarrow> sbalance_conn_status \<Rightarrow> (fd_pool \<times> fd_pool_conn) option" where
  "get_restart env pool conn s status =
    do {
      srv \<leftarrow> srv_at pool s;
      if status = SBCS_START \<or> fc_sb_gen conn < srv_sb_gen srv then
        do {
          pool \<leftarrow> (if status = SBCS_START then conn_done pool conn else Some pool);
          pool \<leftarrow> conn_release pool conn;
          sb \<leftarrow> sb_at pool (srv_sb srv);
          let (sb, sc) = sbalance_conn_new (ne_ops env) sb (fc_sc_hash conn) (ne_random env (pm_draws pool)) (fc_sc conn);
          Some ((set_sb (srv_sb srv) (Some sb) pool)\<lparr>pm_draws := pm_draws pool + 1\<rparr>,
                conn\<lparr>fc_sb_gen := srv_sb_gen srv, fc_sn := None, fc_sc := sc, fc_sc_sb := Some (srv_sb srv)\<rparr>)
        }
      else Some (pool, conn)
    }"

text \<open>
  The stored descriptors of a port from the first on: those that \<open>poll\<close> reports an end of file for,
  the first that is alive, and the rest.
\<close>

fun scan_entries :: "(int \<Rightarrow> bool) \<Rightarrow> fd_pool_entry list \<Rightarrow> fd_pool_entry list \<times> fd_pool_entry option \<times> fd_pool_entry list" where
  "scan_entries alive [] = ([], None, [])"
| "scan_entries alive (e # es) =
    (if alive (fe_fd e) then ([], Some e, es)
     else let (dead, r, rest) = scan_entries alive es in (e # dead, r, rest))"

definition set_entries :: "nat \<Rightarrow> nat \<Rightarrow> fd_pool_entry list \<Rightarrow> nat option \<Rightarrow> fd_pool \<Rightarrow> fd_pool option" where
  "set_entries nid i es lp pool =
    do {
      n \<leftarrow> pnode_at pool nid;
      if i < length (nd_ports n)
      then Some (set_node nid
             (Some (n\<lparr>nd_ports := (nd_ports n)[i := (nd_ports n ! i)\<lparr>pt_entries := es, pt_last_ptr := lp\<rparr>]\<rparr>)) pool)
      else None
    }"

definition port_at :: "fd_pool \<Rightarrow> nat \<times> nat \<Rightarrow> fd_pool_port option" where
  "port_at pool p =
    do { n \<leftarrow> pnode_at pool (fst p); if snd p < length (nd_ports n) then Some (nd_ports n ! snd p) else None }"

definition try_stored :: "'d net_env \<Rightarrow> fd_pool \<Rightarrow> fd_pool_conn \<Rightarrow> nat \<times> nat \<Rightarrow> (fd_pool_entry option \<times> fd_pool) option" where
  "try_stored env pool conn p =
    do {
      port \<leftarrow> port_at pool p;
      if pt_entries port = [] then Some (None, pool)
      else
        do {
          sn \<leftarrow> Option.bind (fc_sn conn) (sn_at pool);
          n \<leftarrow> pnode_at pool (sn_node sn);
          let (dead, r, rest) = scan_entries (ne_poll env) (pt_entries port);
          pool \<leftarrow> set_entries (fst p) (snd p) rest (pt_last_ptr port) pool;
          Some (r, pool\<lparr>pm_closed := pm_closed pool @ map fe_fd dead,
                        free_entries := rev (map fe_addr dead) @ free_entries pool\<rparr>)
        }
    }"

text \<open>\<open>socket\<close> and \<open>connect\<close> to the port, with the socket type of the node.\<close>

definition try_connect :: "'d net_env \<Rightarrow> fd_pool \<Rightarrow> fd_pool_conn \<Rightarrow> nat \<times> nat \<Rightarrow> (int option \<times> fd_pool) option" where
  "try_connect env pool conn p =
    do {
      port \<leftarrow> port_at pool p;
      sn \<leftarrow> Option.bind (fc_sn conn) (sn_at pool);
      n \<leftarrow> pnode_at pool (sn_node sn);
      Some (ne_connect env (length (pm_tried pool)) port, pool\<lparr>pm_tried := pm_tried pool @ [p]\<rparr>)
    }"

text \<open>The part of the loop before a port is tried.\<close>

definition get_move ::
  "'d net_env \<Rightarrow> fd_pool \<Rightarrow> fd_pool_conn \<Rightarrow> sbalance_conn_status \<Rightarrow> (fd_pool \<times> fd_pool_conn) option" where
  "get_move env pool conn status =
    (if fc_sn conn = None then fd_pool_move_node env pool conn status
     else if fc_entry conn = None then
       do {
         (found, conn) \<leftarrow> fd_pool_move_port pool conn;
         if found then Some (pool, conn) else fd_pool_move_node env pool conn status
       }
     else Some (pool, conn))"

partial_function (option) get_loop ::
  "'d net_env \<Rightarrow> fd_pool \<Rightarrow> fd_pool_conn \<Rightarrow> sbalance_conn_status \<Rightarrow> (int \<times> fd_pool \<times> fd_pool_conn) option" where
  [code]: "get_loop env pool conn status =
    do {
      (pool, conn) \<leftarrow> get_move env pool conn status;
      (case fc_port conn of
         None \<Rightarrow> Some (-1, pool, conn)
       | Some p \<Rightarrow>
           do {
             (r, pool) \<leftarrow> try_stored env (recycle_entry pool conn) conn p;
             (case r of
                Some e \<Rightarrow> Some (fe_fd e, pool, conn\<lparr>fc_entry := Some e, fc_active_fd := True\<rparr>)
              | None \<Rightarrow>
                  do {
                    (fd, pool) \<leftarrow> try_connect env pool conn p;
                    (case fd of
                       Some fd \<Rightarrow> Some (fd, pool, conn\<lparr>fc_entry := None, fc_active_fd := True\<rparr>)
                     | None \<Rightarrow> get_loop env pool (conn\<lparr>fc_entry := None\<rparr>) SBCS_FAIL)
                  })
           })
    }"

definition fd_pool_get ::
  "'d net_env \<Rightarrow> fd_pool \<Rightarrow> fd_pool_conn \<Rightarrow> sbalance_conn_status \<Rightarrow> (int \<times> fd_pool \<times> fd_pool_conn) option" where
  "fd_pool_get env pool conn status =
    (let conn = conn\<lparr>fc_active_fd := False\<rparr>
     in case fc_srv conn of
          None \<Rightarrow> Some (-1, pool, conn)
        | Some s \<Rightarrow> do { (pool, conn) \<leftarrow> get_restart env pool conn s status; get_loop env pool conn status })"

subsection \<open>Giving it back\<close>

text \<open>\<open>SLIST_INSERT_AFTER\<close>; an element that is not in the list any more would link the entry somewhere else.\<close>

fun insert_after :: "nat \<Rightarrow> fd_pool_entry \<Rightarrow> fd_pool_entry list \<Rightarrow> fd_pool_entry list option" where
  "insert_after a e [] = None"
| "insert_after a e (x # xs) = (if fe_addr x = a then Some (x # e # xs) else map_option ((#) x) (insert_after a e xs))"

definition take_entry :: "fd_pool \<Rightarrow> fd_pool_conn \<Rightarrow> nat \<times> fd_pool" where
  "take_entry pool conn =
    (case fc_entry conn of
       Some e \<Rightarrow> (fe_addr e, pool)
     | None \<Rightarrow>
         (case free_entries pool of
            a # as \<Rightarrow> (a, pool\<lparr>free_entries := as\<rparr>)
          | [] \<Rightarrow> (pm_entry pool, pool\<lparr>pm_entry := pm_entry pool + 1\<rparr>)))"

definition fd_pool_put :: "'d net_env \<Rightarrow> fd_pool \<Rightarrow> fd_pool_conn \<Rightarrow> int \<Rightarrow> (fd_pool \<times> fd_pool_conn) option" where
  "fd_pool_put env pool conn fd =
    (let conn = conn\<lparr>fc_active_fd := False\<rparr>
     in if \<not> ne_keep env fd then
          do { p \<leftarrow> fc_port conn; port \<leftarrow> port_at pool p; Some (pool\<lparr>pm_closed := pm_closed pool @ [fd]\<rparr>, conn) }
        else
          do {
            s \<leftarrow> fc_srv conn;
            srv \<leftarrow> srv_at pool s;
            let (a, pool) = take_entry pool conn;
            sn \<leftarrow> Option.bind (fc_sn conn) (sn_at pool);
            n \<leftarrow> pnode_at pool (sn_node sn);
            p \<leftarrow> fc_port conn;
            port \<leftarrow> port_at pool p;
            let e = \<lparr>fe_addr = a, fe_fd = fd\<rparr>;
            es \<leftarrow> (if srv_cycle_last srv \<and> pt_entries port \<noteq> []
                   then do { l \<leftarrow> pt_last_ptr port; insert_after l e (pt_entries port) }
                   else Some (e # pt_entries port));
            pool \<leftarrow> set_entries (fst p) (snd p) es (Some a) pool;
            Some (pool, conn\<lparr>fc_entry := None\<rparr>)
          })"

subsection \<open>Writing and listing\<close>

text \<open>\<open>fd_pool_conn_writev\<close>: \<open>writev_retry\<close> says whether its \<open>k\<close>-th call writes all to the descriptor.\<close>

partial_function (option) writev_loop ::
  "'d net_env \<Rightarrow> (nat \<Rightarrow> int \<Rightarrow> bool) \<Rightarrow> nat \<Rightarrow> fd_pool \<Rightarrow> fd_pool_conn \<Rightarrow> int \<Rightarrow> bool \<Rightarrow> (int \<times> int \<times> fd_pool \<times> fd_pool_conn) option" where
  [code]: "writev_loop env writev_retry k pool conn sockfd failed =
    do {
      (sockfd, pool, conn) \<leftarrow>
        (if sockfd < 0 \<or> failed then
           fd_pool_get env (if 0 \<le> sockfd then pool\<lparr>pm_closed := pm_closed pool @ [sockfd]\<rparr> else pool) conn
             (if 0 \<le> sockfd then SBCS_FAIL else SBCS_START)
         else Some (sockfd, pool, conn));
      if sockfd < 0 then Some (-1, -1, pool, conn)
      else if writev_retry k sockfd then Some (0, sockfd, pool, conn)
      else writev_loop env writev_retry (k + 1) pool conn sockfd True
    }"

definition fd_pool_conn_writev ::
  "'d net_env \<Rightarrow> (nat \<Rightarrow> int \<Rightarrow> bool) \<Rightarrow> fd_pool \<Rightarrow> fd_pool_conn \<Rightarrow> int \<Rightarrow> (int \<times> int \<times> fd_pool \<times> fd_pool_conn) option" where
  "fd_pool_conn_writev env writev_retry pool conn fd = writev_loop env writev_retry 0 pool conn fd False"

text \<open>
  \<open>fd_pool_iter_ports\<close>: \<open>k\<close> is the index of \<open>iter->sb_serv\<close> in the balancer and the state counts the ports of
  that service node from 1, 0 at the start; the port found comes with the key and the socket type of the node and
  the number of descriptors it stores.
\<close>

function iter_advance :: "fd_pool \<Rightarrow> fd_pool_service_node sbalance \<Rightarrow> nat \<Rightarrow> nat \<Rightarrow> (fd_pool_node option \<times> nat \<times> nat) option" where
  "iter_advance pool sb k state =
    (if sb_nserv sb \<le> k then None
     else
       case pnode_at pool (sn_node (sv_data (sb_service sb ! k))) of
         None \<Rightarrow> None
       | Some n \<Rightarrow>
           if length (nd_ports n) < state
           then if sb_nserv sb \<le> k + 1 then Some (None, state, k + 1) else iter_advance pool sb (k + 1) 1
           else Some (Some n, state, k))"
  by pat_completeness auto
termination
  by (relation "measure (\<lambda>(pool, sb, k, state). sb_nserv sb - k)") auto

declare iter_advance.simps [simp del]

definition fd_pool_iter_ports ::
  "fd_pool \<Rightarrow> cstring \<Rightarrow> nat \<Rightarrow> nat \<Rightarrow> ((cstring option \<times> int \<times> fd_pool_port \<times> nat) option \<times> nat \<times> nat) option" where
  "fd_pool_iter_ports pool service state k =
    (case fd_pool_find_service pool service of
       None \<Rightarrow> Some (None, state, k)
     | Some s \<Rightarrow>
         do {
           srv \<leftarrow> srv_at pool s;
           sb \<leftarrow> sb_at pool (srv_sb srv);
           if state = 0 \<and> sb_nserv sb = 0 then Some (None, state, k)
           else
             do {
               (r, state, k) \<leftarrow> (if state = 0 then iter_advance pool sb 0 1 else iter_advance pool sb k state);
               (case r of
                  None \<Rightarrow> Some (None, state, k)
                | Some n \<Rightarrow>
                    let port = nd_ports n ! (state - 1)
                    in Some (Some (sn_key (sv_data (sb_service sb ! k)), nd_socktype n, port, length (pt_entries port)), state + 1, k))
             }
         })"

end
