(* ===== verification/LfsrOrder.thy ===== *)
theory LfsrOrder
  imports Rcycle
begin

text \<open>
  The algebra of the shift register of \<open>rcycle.c\<close>.  The locale \<open>galois_lfsr\<close> fixes the number of
  bits and the taps and assumes what the table promises of them; inside it the step of the
  register is a linear bijection of the states, so every state comes back, and the product
  \<open>lfsr_mul\<close> of two states on the register's orbit of 1 adds their exponents.  With it the order of the
  register is decided from the factors of \<open>2 ^ n - 1\<close> in a few hundred steps instead of \<open>2 ^ n\<close>,
  which settles every row of the table of taps up to 30 bits.
\<close>

definition lfsr_step :: "uint32 \<Rightarrow> uint32 \<Rightarrow> uint32" where
  "lfsr_step taps s = drop_bit 1 s XOR (- (s AND 1) AND taps)"

definition lfsr_back :: "nat \<Rightarrow> uint32 \<Rightarrow> uint32 \<Rightarrow> uint32" where
  "lfsr_back n taps s = (if bit s (n - 1) then push_bit 1 (s XOR taps) OR 1 else push_bit 1 s)"

text \<open>
  The product and the powers are computed on the integers the states stand for; \<open>half\<close> is
  \<open>2 ^ (n - 1)\<close>, the value of the highest bit.
\<close>

definition step_int :: "int \<Rightarrow> int \<Rightarrow> int" where
  "step_int t s = (if s mod 2 = 1 then (s div 2) XOR t else s div 2)"

definition back_int :: "int \<Rightarrow> int \<Rightarrow> int \<Rightarrow> int" where
  "back_int half t s = (if s < half then 2 * s else 2 * (s XOR t) + 1)"

primrec lfsr_mul :: "int \<Rightarrow> int \<Rightarrow> nat \<Rightarrow> int \<Rightarrow> int \<Rightarrow> int" where
  "lfsr_mul half t 0 a b = 0"
| "lfsr_mul half t (Suc k) a b =
    (let r = lfsr_mul half t k (back_int half t a) (b div 2) in if b mod 2 = 1 then a XOR r else r)"

primrec lfsr_pow :: "int \<Rightarrow> int \<Rightarrow> nat \<Rightarrow> nat \<Rightarrow> int \<Rightarrow> int" where
  "lfsr_pow half t n 0 e = 1"
| "lfsr_pow half t n (Suc m) e =
    (let r = lfsr_pow half t n m (e div 2); q = lfsr_mul half t n r r
     in if e mod 2 = 1 then step_int t q else q)"

lemma funpow_split: "i \<le> j \<Longrightarrow> (f ^^ j) s = (f ^^ i) ((f ^^ (j - i)) s)"
  by (metis comp_apply funpow_add le_add_diff_inverse)

lemma neg_low_bit: "- (s AND 1) = (if bit s 0 then - 1 else (0 :: uint32))"
  by (simp add: and_one_eq bit_0 mod_2_eq_odd)

lemma lfsr_step_if: "lfsr_step taps s = (if bit s 0 then drop_bit 1 s XOR taps else drop_bit 1 s)"
  by (simp add: lfsr_step_def neg_low_bit)

lemma bit_lfsr_step:
  "bit (lfsr_step taps s) i \<longleftrightarrow> bit s (Suc i) \<noteq> (bit s 0 \<and> bit taps i)"
  by (simp add: lfsr_step_if bit_xor_iff bit_drop_bit_eq)

lemma lfsr_step_xor: "lfsr_step taps (a XOR b) = lfsr_step taps a XOR lfsr_step taps b"
  by (rule bit_word_eqI) (auto simp add: bit_lfsr_step bit_xor_iff)

lemma lfsr_step_zero [simp]: "lfsr_step taps 0 = 0"
  by (simp add: lfsr_step_def)

lemma funpow_step_xor:
  "(lfsr_step taps ^^ k) (a XOR b) = (lfsr_step taps ^^ k) a XOR (lfsr_step taps ^^ k) b"
  by (induction k) (simp_all add: lfsr_step_xor)

lemma funpow_step_zero [simp]: "(lfsr_step taps ^^ k) 0 = 0"
  by (induction k) simp_all

lemma uint_low: "uint s mod 2 = 1 \<longleftrightarrow> bit s 0" for s :: uint32
  using bit_uint_iff [of s 0] by (simp add: bit_0 odd_iff_mod_2_eq_one)

lemma uint_drop: "uint (drop_bit 1 s) = uint s div 2" for s :: uint32
  unfolding unsigned_drop_bit_eq
  using uint_lt2p [of s] by (simp add: drop_bit_eq_div take_bit_int_eq_self)

lemma uint_double: "uint s < 2 ^ 31 \<Longrightarrow> uint (push_bit 1 s) = 2 * uint s" for s :: uint32
  by (simp add: uint_word_ariths)

lemma uint_double_one: "uint s < 2 ^ 31 \<Longrightarrow> uint (push_bit 1 s OR 1) = 2 * uint s + 1" for s :: uint32
  using uint_double [of s] by (simp only: unsigned_or_eq) (simp add: or_one_eq)

lemma push_take_Suc:
  "push_bit j (take_bit (Suc k) b) =
   (if bit b 0 then push_bit j 1 else 0) XOR push_bit (Suc j) (take_bit k (drop_bit 1 b))" for b :: uint32
proof (rule bit_word_eqI)
  fix i
  show "bit (push_bit j (take_bit (Suc k) b)) i =
    bit ((if bit b 0 then push_bit j 1 else 0) XOR push_bit (Suc j) (take_bit k (drop_bit 1 b))) i"
  proof (cases "i = j")
    case False
    then show ?thesis
      by (auto simp add: bit_xor_iff bit_push_bit_iff bit_take_bit_iff bit_drop_bit_eq bit_1_iff
          Suc_diff_Suc simp del: push_bit_Suc push_bit_of_1)
  qed (auto simp add: bit_xor_iff bit_push_bit_iff bit_take_bit_iff bit_1_iff simp del: push_bit_Suc push_bit_of_1)
qed

locale galois_lfsr =
  fixes n :: nat and taps :: uint32
  assumes bits_pos: "0 < n"
    and bits_word: "n \<le> 32"
    and taps_bound: "take_bit n taps = taps"
    and taps_top: "bit taps (n - 1)"
begin

lemma bound_bit: "take_bit n s = s \<Longrightarrow> bit s i \<Longrightarrow> i < n"
  by (metis bit_take_bit_iff)

lemma taps_bit: "bit taps i \<Longrightarrow> i < n"
  using bound_bit [OF taps_bound] .

lemma step_bound:
  assumes "take_bit n s = s"
  shows "take_bit n (lfsr_step taps s) = lfsr_step taps s"
proof (rule bit_word_eqI)
  fix i
  show "bit (take_bit n (lfsr_step taps s)) i = bit (lfsr_step taps s) i"
    using bound_bit [OF assms, of "Suc i"] taps_bit [of i] by (auto simp add: bit_take_bit_iff bit_lfsr_step)
qed

lemma funpow_bound: "take_bit n s = s \<Longrightarrow> take_bit n ((lfsr_step taps ^^ k) s) = (lfsr_step taps ^^ k) s"
  by (induction k) (simp_all add: step_bound)

lemma back_step:
  assumes "take_bit n s = s"
  shows "lfsr_back n taps (lfsr_step taps s) = s"
proof -
  have top: "\<not> bit s n" using bound_bit [OF assms, of n] by blast
  have high: "bit (lfsr_step taps s) (n - 1) \<longleftrightarrow> bit s 0"
    using top taps_top bits_pos by (simp add: bit_lfsr_step)
  show ?thesis
  proof (rule bit_word_eqI)
    fix i assume "i < LENGTH(32)"
    show "bit (lfsr_back n taps (lfsr_step taps s)) i = bit s i"
    proof (cases i)
      case 0
      then show ?thesis using high by (auto simp add: lfsr_back_def bit_0 even_or_iff)
    next
      case (Suc j)
      then show ?thesis using high \<open>i < LENGTH(32)\<close>
        by (auto simp add: lfsr_back_def bit_or_iff bit_push_bit_iff bit_1_iff bit_xor_iff bit_lfsr_step
              simp del: push_bit_Suc push_bit_of_1)
    qed
  qed
qed

lemma step_inj:
  "take_bit n a = a \<Longrightarrow> take_bit n b = b \<Longrightarrow> lfsr_step taps a = lfsr_step taps b \<Longrightarrow> a = b"
  by (metis back_step)

lemma funpow_inj:
  "take_bit n a = a \<Longrightarrow> take_bit n b = b \<Longrightarrow>
   (lfsr_step taps ^^ k) a = (lfsr_step taps ^^ k) b \<Longrightarrow> a = b"
proof (induction k)
  case (Suc k)
  then show ?case using step_inj [OF funpow_bound funpow_bound] by simp
qed simp

lemma funpow_nonzero: "take_bit n s = s \<Longrightarrow> s \<noteq> 0 \<Longrightarrow> (lfsr_step taps ^^ k) s \<noteq> 0"
  using funpow_inj [of s 0 k] by auto

text \<open>Every state comes back to itself.\<close>

lemma returns:
  assumes "take_bit n s = s"
  obtains p where "0 < p" "(lfsr_step taps ^^ p) s = s"
proof -
  have "\<not> inj_on (\<lambda>k. (lfsr_step taps ^^ k) s) (UNIV :: nat set)"
    using finite_imageD [of "\<lambda>k. (lfsr_step taps ^^ k) s" "UNIV :: nat set"] by auto
  then obtain i j where eq: "(lfsr_step taps ^^ i) s = (lfsr_step taps ^^ j) s" and ne: "i \<noteq> j"
    by (auto simp add: inj_on_def)
  have *: "\<exists>p>0. (lfsr_step taps ^^ p) s = s"
    if "(lfsr_step taps ^^ i) s = (lfsr_step taps ^^ j) s" "i < j" for i j
  proof -
    have "(lfsr_step taps ^^ j) s = (lfsr_step taps ^^ i) ((lfsr_step taps ^^ (j - i)) s)"
      by (rule funpow_split) (use that(2) in simp)
    then have "(lfsr_step taps ^^ (j - i)) s = s"
      using funpow_inj [OF funpow_bound [OF assms] assms] that(1) by metis
    then show ?thesis using that(2) by (intro exI [of _ "j - i"]) simp
  qed
  show thesis using * [of i j] * [of j i] eq ne that by (metis linorder_neqE_nat)
qed

text \<open>The integers compute the states.\<close>

lemma uint_half: fixes s :: uint32
  assumes "take_bit n s = s"
  shows "uint s < 2 ^ (n - 1) \<longleftrightarrow> \<not> bit s (n - 1)"
proof -
  have "bit (uint s) (n - 1) \<longleftrightarrow> bit s (n - 1)"
    using bits_pos bits_word by (auto simp add: bit_uint_iff)
  moreover have "uint s = take_bit (Suc (n - 1)) (uint s)"
    using arg_cong [OF assms, of uint] bits_pos by (simp add: unsigned_take_bit_eq)
  then have "uint s = 2 ^ (n - 1) * of_bool (bit (uint s) (n - 1)) + take_bit (n - 1) (uint s)"
    by (simp only: take_bit_Suc_from_most)
  moreover obtain t where "t = take_bit (n - 1) (uint s)" "0 \<le> t" "t < 2 ^ (n - 1)" by simp
  ultimately have "uint s = 2 ^ (n - 1) * of_bool (bit s (n - 1)) + t" "0 \<le> t" "t < 2 ^ (n - 1)" by simp_all
  then show ?thesis by (cases "bit s (n - 1)") simp_all
qed

lemma uint_step: "uint (lfsr_step taps s) = step_int (uint taps) (uint s)"
  by (simp add: lfsr_step_if step_int_def uint_low uint_drop unsigned_xor_eq del: One_nat_def)

lemma uint_back:
  assumes "take_bit n s = s"
  shows "uint (lfsr_back n taps s) = back_int (2 ^ (n - 1)) (uint taps) (uint s)"
proof -
  have le: "(2 :: int) ^ (n - 1) \<le> 2 ^ 31" using bits_word by (intro power_increasing) auto
  show ?thesis
  proof (cases "bit s (n - 1)")
    case True
    have x: "take_bit n (s XOR taps) = s XOR taps" using assms taps_bound by simp
    have "\<not> bit (s XOR taps) (n - 1)" using True taps_top by (simp add: bit_xor_iff)
    then have "uint (s XOR taps) < 2 ^ (n - 1)" using uint_half [OF x] by simp
    then have "uint (s XOR taps) < 2 ^ 31" using le by simp
    moreover have "\<not> uint s < 2 ^ (n - 1)" using uint_half [OF assms] True by simp
    ultimately show ?thesis using True
      by (simp only: lfsr_back_def back_int_def if_True if_False uint_double_one unsigned_xor_eq)
  next
    case False
    then have "uint s < 2 ^ (n - 1)" using uint_half [OF assms] by simp
    moreover from this have "uint s < 2 ^ 31" using le by simp
    ultimately show ?thesis using False
      by (simp only: lfsr_back_def back_int_def if_True if_False uint_double)
  qed
qed

lemma push_bound: "j < n \<Longrightarrow> take_bit n (push_bit j 1) = (push_bit j 1 :: uint32)"
  by (rule bit_word_eqI) (auto simp add: bit_take_bit_iff bit_push_bit_iff bit_1_iff simp del: push_bit_of_1)

lemma step_push: "Suc j < n \<Longrightarrow> lfsr_step taps (push_bit (Suc j) 1) = push_bit j 1"
  using bits_word
  by (intro bit_word_eqI) (auto simp add: bit_lfsr_step bit_push_bit_iff bit_1_iff simp del: push_bit_Suc push_bit_of_1)

lemma back_push:
  assumes "Suc j < n"
  shows "lfsr_back n taps ((lfsr_step taps ^^ i) (push_bit j 1)) = (lfsr_step taps ^^ i) (push_bit (Suc j) 1)"
proof -
  have "(lfsr_step taps ^^ i) (push_bit j 1) = lfsr_step taps ((lfsr_step taps ^^ i) (push_bit (Suc j) 1))"
    by (metis step_push [OF assms] funpow_swap1)
  then show ?thesis using back_step [OF funpow_bound [OF push_bound [OF assms]]] by metis
qed

lemma mul_push:
  "k + j \<le> n \<Longrightarrow>
   lfsr_mul (2 ^ (n - 1)) (uint taps) k (uint ((lfsr_step taps ^^ i) (push_bit j 1))) (uint b) =
   uint ((lfsr_step taps ^^ i) (push_bit j (take_bit k b)))"
proof (induction k arbitrary: j b)
  case (Suc k)
  have rest: "lfsr_mul (2 ^ (n - 1)) (uint taps) k
      (back_int (2 ^ (n - 1)) (uint taps) (uint ((lfsr_step taps ^^ i) (push_bit j 1)))) (uint b div 2) =
    uint ((lfsr_step taps ^^ i) (push_bit (Suc j) (take_bit k (drop_bit 1 b))))"
  proof (cases "k = 0")
    case False
    then have j: "Suc j < n" "k + Suc j \<le> n" "j < n" using Suc.prems by auto
    show ?thesis
      unfolding uint_back [OF funpow_bound [OF push_bound [OF j(3)]], symmetric] back_push [OF j(1)]
        uint_drop [symmetric]
      by (rule Suc.IH [OF j(2)])
  qed simp
  show ?case unfolding push_take_Suc lfsr_mul.simps Let_def rest uint_low
    by (cases "bit b 0")
      (simp_all only: funpow_step_xor unsigned_xor_eq if_True if_False xor.left_neutral funpow_step_zero)
qed simp

lemma mul_funpow:
  "lfsr_mul (2 ^ (n - 1)) (uint taps) n (uint ((lfsr_step taps ^^ i) 1)) (uint ((lfsr_step taps ^^ j) 1)) =
   uint ((lfsr_step taps ^^ (i + j)) 1)"
  using mul_push [of n 0 i "(lfsr_step taps ^^ j) 1"] funpow_bound [OF push_bound [OF bits_pos], of j]
  by (simp add: funpow_add)

lemma funpow_all_return:
  assumes "(lfsr_step taps ^^ p) 1 = 1" "take_bit n s = s"
  shows "(lfsr_step taps ^^ p) s = s"
  using mul_push [of n 0 p s] mul_push [of n 0 0 s] assms by (simp add: word_uint_eq_iff)

lemma pow_funpow:
  "0 \<le> e \<Longrightarrow> e < 2 ^ m \<Longrightarrow>
   lfsr_pow (2 ^ (n - 1)) (uint taps) n m e = uint ((lfsr_step taps ^^ nat e) 1)"
proof (induction m arbitrary: e)
  case (Suc m)
  have "e = e div 2 + e div 2 + e mod 2" by presburger
  then have "nat e = nat (e div 2) + nat (e div 2) + nat (e mod 2)" using Suc.prems(1) by linarith
  moreover have "e mod 2 = 0 \<or> e mod 2 = 1" by presburger
  moreover have "lfsr_pow (2 ^ (n - 1)) (uint taps) n m (e div 2) = uint ((lfsr_step taps ^^ nat (e div 2)) 1)"
    using Suc.prems by (intro Suc.IH) auto
  ultimately show ?case
    by (auto simp add: Let_def mul_funpow uint_step simp del: One_nat_def)
qed simp

end

subsection \<open>The order of the register\<close>

text \<open>
  A register is maximal when the orbit of 1 is as long as there are states other than 0.  It is
  enough to look at the exponents \<open>N / p\<close> for the prime factors \<open>p\<close> of \<open>N = 2 ^ n - 1\<close>.
\<close>

definition prime_factor :: "nat \<Rightarrow> bool" where
  "prime_factor p \<longleftrightarrow> 1 < p \<and> (\<forall>d. d dvd p \<longrightarrow> d = 1 \<or> d = p)"

primrec trial_division :: "nat \<Rightarrow> int \<Rightarrow> int \<Rightarrow> bool" where
  "trial_division 0 d p \<longleftrightarrow> p < d * d"
| "trial_division (Suc k) d p \<longleftrightarrow> p < d * d \<or> p mod d \<noteq> 0 \<and> trial_division k (d + 1) p"

lemma prime_factorI:
  assumes "1 < p" and small: "\<And>e. 1 < e \<Longrightarrow> e * e \<le> p \<Longrightarrow> \<not> e dvd p"
  shows "prime_factor p"
  unfolding prime_factor_def
proof (intro conjI allI impI)
  fix d assume "d dvd p"
  then obtain e where p: "p = d * e" ..
  show "d = 1 \<or> d = p"
  proof (rule ccontr)
    assume d: "\<not> (d = 1 \<or> d = p)"
    then have gt: "1 < d" "1 < e" using p \<open>1 < p\<close> by (cases d; cases e; auto)+
    then show False
    proof (cases "d \<le> e")
      case True
      then show False using small [of d] gt p by simp
    next
      case False
      then show False using small [of e] gt p by simp
    qed
  qed
qed fact

lemma trial_division_no_divisor:
  assumes "trial_division k d p" "1 < d" "d \<le> e" "e * e \<le> p"
  shows "\<not> e dvd p"
  using assms
proof (induction k arbitrary: d)
  case 0
  then have "d * d \<le> e * e" by (intro mult_mono) auto
  then show ?case using 0 by simp
next
  case (Suc k)
  have "d * d \<le> e * e" using Suc.prems by (intro mult_mono) auto
  then have *: "p mod d \<noteq> 0" "trial_division k (d + 1) p" using Suc.prems by auto
  show ?case
  proof (cases "d = e")
    case True
    then show ?thesis using * by (simp add: dvd_eq_mod_eq_0)
  next
    case False
    then show ?thesis using Suc.IH [OF *(2)] Suc.prems by simp
  qed
qed

lemma trial_division_prime:
  assumes "trial_division k 2 p" "1 < p"
  shows "prime_factor (nat p)"
proof (rule prime_factorI)
  show "1 < nat p" using assms(2) by simp
  fix e :: nat assume e: "1 < e" "e * e \<le> nat p"
  then have "int (e * e) \<le> p" using assms(2) by linarith
  then have "\<not> int e dvd p" using trial_division_no_divisor [OF assms(1), of "int e"] e by simp
  moreover have "p = int (nat p)" using assms(2) by simp
  ultimately show "\<not> e dvd nat p" by (metis int_dvd_int_iff)
qed

lemma member_dvd_prod_list: "x \<in> set xs \<Longrightarrow> x dvd prod_list xs" for x :: nat
  by (induction xs) auto

lemma proper_divisor:
  assumes "\<forall>p\<in>set ps. prime_factor p" "d dvd prod_list ps" "d \<noteq> prod_list ps"
  shows "\<exists>p\<in>set ps. d dvd prod_list ps div p"
  using assms
proof (induction ps arbitrary: d)
  case (Cons p ps)
  have p: "prime_factor p" "0 < p" using Cons.prems(1) by (auto simp add: prime_factor_def)
  show ?case
  proof (cases "coprime d p")
    case True
    then have "d dvd prod_list ps" using Cons.prems(2) by (simp add: coprime_dvd_mult_right_iff)
    then show ?thesis using p(2) by simp
  next
    case False
    have "gcd d p dvd p" "gcd d p \<noteq> 1" using False by (auto simp add: coprime_iff_gcd_eq_1)
    then have "p dvd d" using p(1) unfolding prime_factor_def by (metis gcd_dvd1)
    then obtain d' where d: "d = p * d'" ..
    then obtain q where q: "q \<in> set ps" "d' dvd prod_list ps div q"
      using Cons.IH [of d'] Cons.prems p(2) by auto
    then have "q dvd prod_list ps" by (intro member_dvd_prod_list)
    then have "p * d' dvd p * prod_list ps div q" 
      using q(2) by (metis div_mult_swap mult_dvd_mono dvd_refl)
    then show ?thesis using q(1) d by auto
  qed
qed simp

lemma order_by_factors:
  assumes "\<forall>p\<in>set ps. prime_factor p" "(f ^^ prod_list ps) s = s"
    and ne: "\<forall>p\<in>set ps. (f ^^ (prod_list ps div p)) s \<noteq> s"
    and k: "0 < k" "k < prod_list ps"
  shows "(f ^^ k) s \<noteq> s"
proof
  assume ret: "(f ^^ k) s = s"
  define d where "d = (LEAST d. 0 < d \<and> (f ^^ d) s = s)"
  have d: "0 < d" "(f ^^ d) s = s" "d \<le> k"
    using LeastI [of "\<lambda>d. 0 < d \<and> (f ^^ d) s = s" k] Least_le [of "\<lambda>d. 0 < d \<and> (f ^^ d) s = s" k] k(1) ret
    unfolding d_def by auto
  have "(f ^^ (prod_list ps mod d)) s = s" using funpow_mod_eq [OF d(2)] assms(2) by metis
  then have "d dvd prod_list ps"
    using Least_le [of "\<lambda>d. 0 < d \<and> (f ^^ d) s = s" "prod_list ps mod d", folded d_def] d(1)
    by (metis dvd_eq_mod_eq_0 gr0I linorder_not_le mod_less_divisor)
  then obtain p where p: "p \<in> set ps" "d dvd prod_list ps div p"
    using proper_divisor [OF assms(1), of d] d(3) k(2) by auto
  have "(f ^^ (prod_list ps div p)) s = (f ^^ (prod_list ps div p mod d)) s"
    using funpow_mod_eq [OF d(2)] by metis
  then show False using p ne by (simp add: dvd_eq_mod_eq_0)
qed

lemma take_bit_unat: "m \<le> 32 \<Longrightarrow> take_bit m s = s \<longleftrightarrow> unat s < 2 ^ m" for s :: uint32
  by (metis take_bit_nat_eq_self_iff unsigned_take_bit_eq word_unat_eq_iff)

lemma card_states: "m \<le> 32 \<Longrightarrow> card {s :: uint32. take_bit m s = s} = 2 ^ m"
proof -
  assume m: "m \<le> 32"
  have le: "(2 :: nat) ^ m \<le> 2 ^ 32" using m by (intro power_increasing) auto
  have "bij_betw unat {s :: uint32. take_bit m s = s} {..<2 ^ m}"
  proof (rule bij_betw_byWitness [where f' = of_nat])
    show "\<forall>a'\<in>{..<2 ^ m}. unat (of_nat a' :: uint32) = a'"
      using le by (auto simp add: unat_of_nat take_bit_nat_eq_self)
    then show "of_nat ` {..<2 ^ m} \<subseteq> {s :: uint32. take_bit m s = s}"
      using m by (auto simp add: take_bit_unat)
  qed (use m in \<open>auto simp add: take_bit_unat\<close>)
  then show ?thesis using bij_betw_same_card by fastforce
qed

definition lfsr_states :: "uint32 \<Rightarrow> uint32 \<Rightarrow> nat \<Rightarrow> uint32 list" where
  "lfsr_states taps s m = map (\<lambda>k. (lfsr_step taps ^^ k) s) [0..<m]"

locale maximal_lfsr = galois_lfsr +
  assumes maximal: "0 < k \<Longrightarrow> k < 2 ^ n - 1 \<Longrightarrow> (lfsr_step taps ^^ k) 1 \<noteq> 1"
begin

text \<open>The orbit of 1, and with it that of every other state but 0, has all of them.\<close>

lemma orbit_one_inj:
  assumes "i < 2 ^ n - 1" "j < 2 ^ n - 1" "(lfsr_step taps ^^ i) 1 = (lfsr_step taps ^^ j) 1"
  shows "i = j"
proof -
  have one: "take_bit n 1 = (1 :: uint32)" using push_bound [OF bits_pos] by simp
  have *: "i = j" if "(lfsr_step taps ^^ i) 1 = (lfsr_step taps ^^ j) 1" "i \<le> j" "j < 2 ^ n - 1" for i j
  proof (rule ccontr)
    assume "i \<noteq> j"
    have "1 = (lfsr_step taps ^^ (j - i)) 1"
      using funpow_inj [OF one funpow_bound [OF one]] that(1) funpow_split [OF that(2)] by metis
    then show False using maximal [of "j - i"] that \<open>i \<noteq> j\<close> by auto
  qed
  show ?thesis using * [of i j] * [of j i] assms by (metis nat_le_linear)
qed

lemma orbit_set:
  assumes "take_bit n s = s" "s \<noteq> 0" and inj: "inj_on (\<lambda>k. (lfsr_step taps ^^ k) s) {..<2 ^ n - 1}"
  shows "(\<lambda>k. (lfsr_step taps ^^ k) s) ` {..<2 ^ n - 1} = {s. take_bit n s = s \<and> s \<noteq> 0}"
proof (rule card_subset_eq)
  have "{s :: uint32. take_bit n s = s \<and> s \<noteq> 0} = {s. take_bit n s = s} - {0}" by auto
  then have "card {s :: uint32. take_bit n s = s \<and> s \<noteq> 0} = 2 ^ n - 1"
    using card_states [OF bits_word] by (simp add: card_Diff_singleton)
  then show "card ((\<lambda>k. (lfsr_step taps ^^ k) s) ` {..<2 ^ n - 1}) = card {s :: uint32. take_bit n s = s \<and> s \<noteq> 0}"
    using card_image [OF inj] by simp
  show "(\<lambda>k. (lfsr_step taps ^^ k) s) ` {..<2 ^ n - 1} \<subseteq> {s. take_bit n s = s \<and> s \<noteq> 0}"
    using funpow_bound [OF assms(1)] funpow_nonzero [OF assms(1,2)] by auto
qed simp

lemma orbit_inj:
  assumes "take_bit n s = s" "s \<noteq> 0"
  shows "inj_on (\<lambda>k. (lfsr_step taps ^^ k) s) {..<2 ^ n - 1}"
proof (rule inj_onI)
  fix i j assume ij: "i \<in> {..<2 ^ n - 1}" "j \<in> {..<2 ^ n - 1}" "(lfsr_step taps ^^ i) s = (lfsr_step taps ^^ j) s"
  have one: "take_bit n 1 = (1 :: uint32)" using push_bound [OF bits_pos] by simp
  have "inj_on (\<lambda>k. (lfsr_step taps ^^ k) 1) {..<2 ^ n - 1}"
    by (rule inj_onI) (simp add: orbit_one_inj)
  then obtain k where k: "s = (lfsr_step taps ^^ k) 1"
    using orbit_set [of 1] one assms by auto
  then have "(lfsr_step taps ^^ k) ((lfsr_step taps ^^ i) 1) = (lfsr_step taps ^^ k) ((lfsr_step taps ^^ j) 1)"
    using ij(3) by (metis add.commute comp_apply funpow_add)
  then show "i = j"
    using funpow_inj [OF funpow_bound [OF one] funpow_bound [OF one]] orbit_one_inj ij by simp
qed

lemma distinct_states: "take_bit n s = s \<Longrightarrow> s \<noteq> 0 \<Longrightarrow> distinct (lfsr_states taps s (2 ^ n - 1))"
  using orbit_inj [of s] by (simp add: lfsr_states_def distinct_map lessThan_atLeast0)

lemma set_states: "take_bit n s = s \<Longrightarrow> s \<noteq> 0 \<Longrightarrow> set (lfsr_states taps s (2 ^ n - 1)) = {s. take_bit n s = s \<and> s \<noteq> 0}"
  using orbit_set [OF _ _ orbit_inj] by (simp add: lfsr_states_def lessThan_atLeast0)

end

subsection \<open>The table of taps\<close>

text \<open>
  The rows of \<open>lfsr_taps\<close> that are maximal, with the prime factors of \<open>2 ^ n - 1\<close>.  The row of
  25 bits is not, and that of 31 bits is left out because \<open>2 ^ 31 - 1\<close> is itself a prime too
  large for trial division.
\<close>

definition lfsr_rows :: "(nat \<times> int list) list" where
  "lfsr_rows =
   [(2, [3]), (3, [7]), (4, [3, 5]), (5, [31]), (6, [3, 3, 7]), (7, [127]), (8, [3, 5, 17]),
     (9, [7, 73]), (10, [3, 11, 31]), (11, [23, 89]), (12, [3, 3, 5, 7, 13]), (13, [8191]),
     (14, [3, 43, 127]), (15, [7, 31, 151]), (16, [3, 5, 17, 257]), (17, [131071]),
     (18, [3, 3, 3, 7, 19, 73]), (19, [524287]), (20, [3, 5, 5, 11, 31, 41]), (21, [7, 7, 127, 337]),
     (22, [3, 23, 89, 683]), (23, [47, 178481]), (24, [3, 3, 5, 7, 13, 17, 241]),
     (26, [3, 2731, 8191]), (27, [7, 73, 262657]), (28, [3, 5, 29, 43, 113, 127]),
     (29, [233, 1103, 2089]), (30, [3, 3, 7, 11, 31, 151, 331]), (32, [3, 5, 17, 257, 65537])]"

definition lfsr_row_ok :: "nat \<times> int list \<Rightarrow> bool" where
  "lfsr_row_ok row =
    (case row of (n, ps) \<Rightarrow>
      let t = uint (lfsr_taps_table ! n); half = 2 ^ (n - 1); N = 2 * half - 1
      in 0 < n \<and> n \<le> 32 \<and> half \<le> t \<and> t \<le> N \<and> prod_list ps = N \<and>
         lfsr_pow half t n n N = 1 \<and>
         list_all (\<lambda>p. 1 < p \<and> trial_division 800 2 p \<and> lfsr_pow half t n n (N div p) \<noteq> 1) ps)"

lemma uint_bound_take_bit:
  assumes "m \<le> 32" "uint s < 2 ^ m"
  shows "take_bit m s = (s :: uint32)"
proof -
  have "int (unat s) < int (2 ^ m)" using assms(2) by simp
  then show ?thesis using take_bit_unat [OF assms(1)] by (simp only: of_nat_less_iff)
qed

lemma galois_by_bounds:
  assumes "0 < m" "m \<le> 32" "2 ^ (m - 1) \<le> uint t" "uint t < 2 ^ m"
  shows "galois_lfsr m t"
proof
  have bound: "take_bit m t = t" using assms by (intro uint_bound_take_bit)
  show "0 < m" "m \<le> 32" "take_bit m t = t" using assms bound by auto
  show "bit t (m - 1)"
  proof (rule ccontr)
    assume low: "\<not> bit t (m - 1)"
    have "take_bit (m - 1) t = t"
    proof (rule bit_word_eqI)
      fix i
      have "bit t i \<Longrightarrow> i < m" using bound by (metis bit_take_bit_iff)
      then show "bit (take_bit (m - 1) t) i = bit t i"
        using low by (cases "i = m - 1") (auto simp add: bit_take_bit_iff)
    qed
    then have "unat t < 2 ^ (m - 1)" using take_bit_unat [of "m - 1" t] assms(2) by simp
    then have "int (unat t) < int (2 ^ (m - 1))" by (simp only: of_nat_less_iff)
    then show False using assms(3) by simp
  qed
qed

lemma row_maximal:
  assumes ok: "lfsr_row_ok (m, ps)"
  shows "maximal_lfsr m (lfsr_taps_table ! m)"
proof -
  define t where "t = lfsr_taps_table ! m"
  define N :: int where "N = 2 ^ m - 1"
  have m: "0 < m" "m \<le> 32" using ok by (auto simp add: lfsr_row_ok_def Let_def)
  then have half: "2 * 2 ^ (m - 1) = (2 :: int) ^ m" by (simp flip: power_Suc)
  have row: "2 ^ (m - 1) \<le> uint t" "uint t \<le> N" "prod_list ps = N"
    "lfsr_pow (2 ^ (m - 1)) (uint t) m m N = 1"
    "\<forall>p\<in>set ps. 1 < p \<and> trial_division 800 2 p \<and> lfsr_pow (2 ^ (m - 1)) (uint t) m m (N div p) \<noteq> 1"
    using ok unfolding lfsr_row_ok_def Let_def prod.case half t_def [symmetric] N_def [symmetric] list_all_iff
    by blast+
  have gal: "galois_lfsr m t" by (rule galois_by_bounds [OF m row(1)]) (use row(2) in \<open>simp add: N_def\<close>)
  have pow: "lfsr_pow (2 ^ (m - 1)) (uint t) m m e = uint ((lfsr_step t ^^ nat e) 1)" if "0 \<le> e" "e \<le> N" for e
    using galois_lfsr.pow_funpow [OF gal that(1), of m] that(2) by (simp add: N_def)
  have N: "0 \<le> N" "nat N = 2 ^ m - 1" by (simp_all add: N_def nat_diff_distrib nat_power_eq)
  have prod: "prod_list (map nat ps) = nat (prod_list ps)" if "\<forall>p\<in>set ps. 1 < p" for ps :: "int list"
    using that by (induction ps) (auto simp add: nat_mult_distrib)
  have "\<forall>p\<in>set ps. 1 < p" using row(5) by blast
  then have N': "prod_list (map nat ps) = 2 ^ m - 1" using prod [of ps] row(3) N(2) by simp
  have "(lfsr_step t ^^ k) 1 \<noteq> 1" if "0 < k" "k < 2 ^ m - 1" for k
  proof (rule order_by_factors [of "map nat ps"])
    show "\<forall>p\<in>set (map nat ps). prime_factor p" using row(5) trial_division_prime by auto
    show "(lfsr_step t ^^ prod_list (map nat ps)) 1 = 1"
      using row(4) pow [of N] N N' by (simp add: word_uint_eq_iff)
    show "\<forall>p\<in>set (map nat ps). (lfsr_step t ^^ (prod_list (map nat ps) div p)) 1 \<noteq> 1"
    proof
      fix q assume "q \<in> set (map nat ps)"
      then obtain p where p: "p \<in> set ps" "q = nat p" by auto
      then have "1 < p" "lfsr_pow (2 ^ (m - 1)) (uint t) m m (N div p) \<noteq> 1" using row(5) by auto
      moreover have "0 \<le> N div p" "N div p \<le> N" 
        using \<open>1 < p\<close> N(1) zdiv_mono2 [of N 1 p] by (auto simp add: pos_imp_zdiv_nonneg_iff)
      moreover have "nat (N div p) = prod_list (map nat ps) div q"
        using N N' p \<open>1 < p\<close> by (simp add: nat_div_distrib)
      ultimately show "(lfsr_step t ^^ (prod_list (map nat ps) div q)) 1 \<noteq> 1" using pow [of "N div p"] by auto
    qed
  qed (use that N' in simp_all)
  then show ?thesis using gal unfolding t_def [symmetric] by (simp add: maximal_lfsr_def maximal_lfsr_axioms_def)
qed

lemma lfsr_rows_ok: "list_all lfsr_row_ok lfsr_rows"
  by code_simp

lemma lfsr_rows_member: "list_all (\<lambda>m. m \<in> fst ` set lfsr_rows) (32 # [2..<25] @ [26..<31])"
  by code_simp

lemma maximal_table:
  assumes "2 \<le> m \<and> m \<le> 30 \<and> m \<noteq> 25 \<or> m = 32"
  shows "maximal_lfsr m (lfsr_taps_table ! m)"
proof -
  have "m \<in> set (32 # [2..<25] @ [26..<31])" using assms by (auto simp del: upt_rec_numeral)
  then have "m \<in> fst ` set lfsr_rows" using lfsr_rows_member unfolding list_all_iff by blast
  then obtain ps where "(m, ps) \<in> set lfsr_rows" by auto
  then show ?thesis using lfsr_rows_ok row_maximal unfolding list_all_iff by blast
qed

lemma table_bounds:
  "list_all (\<lambda>m. 2 ^ (m - 1) \<le> uint (lfsr_taps_table ! m) \<and> uint (lfsr_taps_table ! m) < 2 ^ m) [2..<33]"
  by code_simp

lemma galois_table: "2 \<le> m \<Longrightarrow> m \<le> 32 \<Longrightarrow> galois_lfsr m (lfsr_taps_table ! m)"
  using table_bounds by (intro galois_by_bounds) (auto simp add: list_all_iff simp del: upt_rec_numeral)

interpretation reseed: maximal_lfsr 32 "lfsr_taps_table ! 32"
  by (rule maximal_table) simp

interpretation row25: galois_lfsr 25 "lfsr_taps_table ! 25"
  by (rule galois_table) simp_all

text \<open>With the taps of its row the register of 25 bits is back at 1 after \<open>127 * 65535\<close> steps.\<close>

lemma row25_pow: "lfsr_pow (2 ^ 24) (uint (lfsr_taps_table ! 25)) 25 25 8322945 = 1"
  by code_simp

lemma row25_short: "(lfsr_step (lfsr_taps_table ! 25) ^^ 8322945) 1 = 1"
  using row25.pow_funpow [of 8322945 25] row25_pow by (simp add: word_uint_eq_iff)

end
