(* ===== verification/RcycleSpec.thy ===== *)
theory RcycleSpec
  imports LfsrOrder
begin

text \<open>
  Correctness of the random cycle generator: which ranges it takes, that its unbounded loop always
  ends, that a cycle of it gives every number of the range once, and the one row of the table of taps
  for which it does not.
\<close>

subsection \<open>The number of bits\<close>

lemma smear_step:
  fixes x y :: uint32
  assumes "\<And>i. bit y i \<longleftrightarrow> (\<exists>d<k. bit x (i + d))"
  shows "bit (y OR drop_bit k y) i \<longleftrightarrow> (\<exists>d<2 * k. bit x (i + d))"
proof -
  have "(\<exists>d<2 * k. bit x (i + d)) \<longleftrightarrow> (\<exists>d<k. bit x (i + d)) \<or> (\<exists>d<k. bit x (i + k + d))"
    (is "?l \<longleftrightarrow> ?r")
  proof
    assume ?l
    then obtain d where d: "d < 2 * k" "bit x (i + d)" by blast
    show ?r
    proof (cases "d < k")
      case False
      then have "d - k < k" "bit x (i + k + (d - k))" using d by auto
      then show ?thesis by blast
    qed (use d in blast)
  next
    assume ?r
    then show ?l
    proof
      assume "\<exists>d<k. bit x (i + k + d)"
      then obtain d where "d < k" "bit x (i + k + d)" by blast
      then have "k + d < 2 * k" "bit x (i + (k + d))" by (auto simp add: add.assoc)
      then show ?l by blast
    qed (force intro: less_le_trans)
  qed
  then show ?thesis by (simp add: bit_or_iff bit_drop_bit_eq assms add.commute add.left_commute)
qed

lemma bit_smear:
  "bit (fold (\<lambda>i y. y OR drop_bit i y) [1, 2, 4, 8, 16] x) i \<longleftrightarrow> (\<exists>j\<ge>i. bit x j)" for x :: uint32
proof -
  define y1 where "y1 = x OR drop_bit 1 x"
  define y2 where "y2 = y1 OR drop_bit 2 y1"
  define y3 where "y3 = y2 OR drop_bit 4 y2"
  define y4 where "y4 = y3 OR drop_bit 8 y3"
  have 1: "bit y1 i \<longleftrightarrow> (\<exists>d<2. bit x (i + d))" for i
    using smear_step [of x 1 x i] by (simp add: y1_def)
  have 2: "bit y2 i \<longleftrightarrow> (\<exists>d<4. bit x (i + d))" for i
    using smear_step [of y1 2 x i, OF 1] by (simp add: y2_def)
  have 3: "bit y3 i \<longleftrightarrow> (\<exists>d<8. bit x (i + d))" for i
    using smear_step [of y2 4 x i, OF 2] by (simp add: y3_def)
  have 4: "bit y4 i \<longleftrightarrow> (\<exists>d<16. bit x (i + d))" for i
    using smear_step [of y3 8 x i, OF 3] by (simp add: y4_def)
  have 5: "bit (y4 OR drop_bit 16 y4) i \<longleftrightarrow> (\<exists>d<32. bit x (i + d))"
    using smear_step [of y4 16 x i, OF 4] by simp
  have "(\<exists>d<32. bit x (i + d)) \<longleftrightarrow> (\<exists>j\<ge>i. bit x j)"
  proof
    assume "\<exists>j\<ge>i. bit x j"
    then obtain j where j: "i \<le> j" "bit x j" by blast
    then have "j < 32" using bit_imp_le_length [of x j] by simp
    then have "j - i < 32" "bit x (i + (j - i))" using j by auto
    then show "\<exists>d<32. bit x (i + d)" by blast
  qed (use le_add1 in blast)
  then show ?thesis using 5 by (simp add: y1_def y2_def y3_def y4_def)
qed

lemma round_2_power:
  assumes "m < 32" "2 ^ m \<le> unat x" "unat x < 2 ^ Suc m"
  shows "round_2 x = push_bit (Suc m) 1"
proof -
  have low: "take_bit (Suc m) x = x" using assms by (simp add: take_bit_unat)
  have top: "bit x m"
  proof (rule ccontr)
    assume "\<not> bit x m"
    moreover have "bit x i \<Longrightarrow> i < Suc m" for i using low by (metis bit_take_bit_iff)
    ultimately have "take_bit m x = x"
      by (intro bit_word_eqI) (auto simp add: bit_take_bit_iff less_Suc_eq)
    then show False using take_bit_unat [of m x] assms by simp
  qed
  have "bit x i \<Longrightarrow> i \<le> m" for i using low by (metis bit_take_bit_iff less_Suc_eq_le)
  then have "(\<exists>j\<ge>i. bit x j) \<longleftrightarrow> i < Suc m" for i using top by (meson le_trans less_Suc_eq_le)
  then have "fold (\<lambda>i y. y OR drop_bit i y) [1, 2, 4, 8, 16] x = mask (Suc m)"
    by (intro bit_word_eqI) (simp only: bit_smear bit_mask_iff, auto)
  then show ?thesis unfolding round_2_def by (simp add: mask_eq_exp_minus_1 push_bit_eq_mult)
qed

lemma ffs_power: "m < 32 \<Longrightarrow> ffs (push_bit m 1) = Suc m"
proof -
  assume m: "m < 32"
  have "List.find (bit (push_bit m 1 :: uint32)) [0..<32] = Some m"
    unfolding find_Some_iff
    by (rule exI [of _ m]) (use m in \<open>auto simp add: bit_push_bit_iff bit_1_iff simp del: push_bit_of_1 upt_rec_numeral\<close>)
  then show ?thesis by (simp add: ffs_def)
qed

lemma ffs_zero: "ffs 0 = 0"
  by code_simp

lemma rcycle_bits_power:
  assumes "1 \<le> m" "m \<le> 31" "2 ^ (m - 1) \<le> unat rng + 1" "unat rng + 1 < 2 ^ m"
  shows "rcycle_bits rng = of_nat m"
proof -
  have m: "Suc (m - 1) = m" using assms(1) by simp
  have "(2 :: nat) ^ m \<le> 2 ^ 31" using assms(2) by (intro power_increasing) auto
  then have "unat (rng + 1) = unat rng + 1"
    using assms(4) by (simp add: unat_word_ariths)
  then have "round_2 (rng + 1) = push_bit m 1"
    using round_2_power [of "m - 1" "rng + 1", unfolded m] assms by simp
  then have "ffs (round_2 (rng + 1)) = Suc m" using ffs_power [of m] assms(2) by simp
  then show ?thesis by (simp add: rcycle_bits_def)
qed

lemma bits_exist:
  assumes "1 \<le> r" "r + 1 < 2 ^ k"
  obtains m where "2 \<le> m" "m \<le> k" "2 ^ (m - 1) \<le> r + 1" "r + 1 < (2 :: nat) ^ m"
proof -
  define m where "m = (LEAST m. r + 1 < 2 ^ m)"
  have m: "r + 1 < 2 ^ m" "m \<le> k"
    unfolding m_def using LeastI [of "\<lambda>m. r + 1 < 2 ^ m" k] Least_le [of "\<lambda>m. r + 1 < 2 ^ m" k] assms(2) by auto
  have "2 \<le> m"
  proof (rule ccontr)
    assume "\<not> 2 \<le> m"
    then have "(2 :: nat) ^ m \<le> 2 ^ 1" by (intro power_increasing) auto
    then show False using m(1) assms(1) by simp
  qed
  moreover from this have "2 ^ (m - 1) \<le> r + 1"
    using not_less_Least [of "m - 1" "\<lambda>m. r + 1 < 2 ^ m", folded m_def] by (simp add: not_less)
  ultimately show thesis using m that by blast
qed

subsection \<open>Seeding\<close>

text \<open>
  What holds of a generator whose register has \<open>n\<close> bits: the register is in the orbit of a state that
  stands for a number in the range.
\<close>

definition rc_wf :: "nat \<Rightarrow> rcycle \<Rightarrow> bool" where
  "rc_wf n rc \<longleftrightarrow>
    2 \<le> n \<and> n \<le> 31 \<and> 2 ^ (n - 1) \<le> unat (rc_range rc) + 1 \<and> unat (rc_range rc) + 1 < 2 ^ n \<and>
    lfsr_taps (rc_lfsr rc) = lfsr_taps_table ! n \<and>
    take_bit n (rc_flip rc) = rc_flip rc \<and>
    take_bit n (lfsr_state (rc_lfsr rc)) = lfsr_state (rc_lfsr rc) \<and> lfsr_state (rc_lfsr rc) \<noteq> 0 \<and>
    (\<exists>g k. take_bit n g = g \<and> rcycle_value (rc_flip rc) g \<le> rc_range rc \<and>
           lfsr_state (rc_lfsr rc) = (lfsr_step (lfsr_taps_table ! n) ^^ k) g)"

lemma rc_wf_range: "rc_wf n rc \<Longrightarrow> 0 < rc_range rc"
proof -
  assume wf: "rc_wf n rc"
  then have "(2 :: nat) ^ 1 \<le> 2 ^ (n - 1)" by (intro power_increasing) (auto simp add: rc_wf_def)
  then have "0 < unat (rc_range rc)" using wf by (auto simp add: rc_wf_def)
  then show ?thesis by (simp add: word_less_nat_alt)
qed

lemma mask_bound: "n < 32 \<Longrightarrow> s AND (push_bit n 1 - 1) = take_bit n s" for s :: uint32
  by (simp add: take_bit_eq_mask mask_eq_exp_minus_1 push_bit_eq_mult)

lemma lfsr_init_bits:
  assumes "2 \<le> n" "n \<le> 31" "take_bit n seed = seed"
  shows "lfsr_init (of_nat n) seed =
    Inr \<lparr>lfsr_state = seed, lfsr_bits = of_nat n, lfsr_taps = lfsr_taps_table ! n\<rparr>"
proof -
  have u: "unat (of_nat n :: uint32) = n" using assms(2) by (simp add: unat_of_nat take_bit_nat_eq_self)
  then have "(2 :: uint32) \<le> of_nat n" "of_nat n \<le> (32 :: uint32)" "of_nat n \<noteq> (32 :: uint32)"
    using assms by (auto simp add: word_le_nat_alt dest: arg_cong [of _ _ unat])
  then show ?thesis unfolding lfsr_init_def u using assms mask_bound [of n seed] by simp
qed

lemma rcycle_value_xor: "0 < v \<Longrightarrow> rcycle_value flip (v XOR flip) = v"
  by (auto simp add: rcycle_value_def Let_def xor.assoc)

lemma xor_zero: "a XOR b = 0 \<Longrightarrow> a = b" for a b :: uint32
  by (metis xor.assoc xor.right_neutral xor_self_eq)

lemma rcycle_value_le: "v \<le> rng \<Longrightarrow> v XOR flip \<le> rng \<Longrightarrow> rcycle_value flip v \<le> rng"
  
  by (auto simp add: rcycle_value_def Let_def dest: xor_zero)

lemma reseed_wf:
  assumes n: "2 \<le> n" "n \<le> 31" "2 ^ (n - 1) \<le> unat (rc_range rc) + 1" "unat (rc_range rc) + 1 < 2 ^ n"
  shows "\<exists>l flip. rcycle_reseed rc seed = Inr (rc\<lparr>rc_flip := flip, rc_lfsr := l\<rparr>) \<and>
    rc_wf n (rc\<lparr>rc_flip := flip, rc_lfsr := l\<rparr>)"
proof -
  define rng where "rng = rc_range rc"
  define ma :: uint32 where "ma = push_bit n 1 - 1"
  obtain f where f: "f = (if (of_nat n :: uint32) < 16 then drop_bit (unat (of_nat n + 1 :: uint32)) seed
      else drop_bit (unat (32 - of_nat n :: uint32)) seed)" by simp
  define flip where "flip = (if f AND ma < rng then (f AND ma) XOR ma else f AND ma)"
  define s where "s = seed mod rng + 1"
  define s' where "s' = (if rng < s XOR flip then s XOR flip else s)"
  have u: "unat (of_nat n :: uint32) = n" using n by (simp add: unat_of_nat take_bit_nat_eq_self)
  have bits: "rcycle_bits rng = of_nat n"
    unfolding rng_def by (rule rcycle_bits_power [OF _ n(2-4)]) (use n(1) in simp)
  have le: "\<not> (32 :: uint32) \<le> of_nat n" using n u by (simp add: word_le_nat_alt)
  have "(2 :: nat) ^ 1 \<le> 2 ^ (n - 1)" using n(1) by (intro power_increasing) auto
  then have pos: "0 < unat rng" using n(3) by (simp add: rng_def)
  then have "0 < rng" by (simp add: word_less_nat_alt)
  have "unat seed mod unat rng < unat rng" using pos by simp
  moreover have "unat rng < 2 ^ 32 - 1" using n(4) power_increasing [of n 31 "2 :: nat"] n(2) by (simp add: rng_def)
  ultimately have "unat s = unat seed mod unat rng + 1" by (simp add: s_def unat_word_ariths unat_mod)
  then have us: "0 < unat s" "unat s \<le> unat rng" using pos by (simp_all add: Suc_leI)
  then have s: "0 < s" "s \<le> rng" by (simp_all add: word_less_nat_alt word_le_nat_alt)
  have sn: "take_bit n s = s" using us n take_bit_unat [of n s] by (simp add: rng_def)
  have msk: "ma = mask n" by (simp add: ma_def mask_eq_exp_minus_1)
  have flip: "take_bit n flip = flip"
    by (rule bit_word_eqI)
      (auto simp add: flip_def msk bit_take_bit_iff bit_and_iff bit_xor_iff bit_mask_iff)
  have s': "take_bit n s' = s'" "s' \<noteq> 0" using s sn flip \<open>0 < rng\<close> by (auto simp add: s'_def)
  have good: "rcycle_value flip s' \<le> rng"
    using s rcycle_value_xor [of s flip] rcycle_value_le [of s rng flip] by (auto simp add: s'_def)
  let ?l = "\<lparr>lfsr_state = s', lfsr_bits = of_nat n, lfsr_taps = lfsr_taps_table ! n\<rparr>"
  have "rcycle_reseed rc seed = Inr (rc\<lparr>rc_flip := flip, rc_lfsr := ?l\<rparr>)"
    using \<open>0 < rng\<close> le lfsr_init_bits [OF n(1,2) s'(1)]
    unfolding rcycle_reseed_def Let_def rng_def [symmetric] bits u ma_def [symmetric] f [symmetric]
      flip_def [symmetric] s_def [symmetric] s'_def [symmetric]
    by simp
  moreover have "rc_wf n (rc\<lparr>rc_flip := flip, rc_lfsr := ?l\<rparr>)"
  proof -
    have "\<exists>g k. take_bit n g = g \<and> rcycle_value flip g \<le> rc_range rc \<and> s' = (lfsr_step (lfsr_taps_table ! n) ^^ k) g"
      by (rule exI [of _ s'], rule exI [of _ 0]) (use s' good in \<open>simp add: rng_def\<close>)
    then show ?thesis using n flip s' unfolding rc_wf_def by simp
  qed
  ultimately show ?thesis by blast
qed

subsection \<open>The loop of \<open>rcycle_generate\<close>\<close>

lemma generate_u32_step:
  "lfsr_generate_u32 l = (lfsr_state l, l\<lparr>lfsr_state := lfsr_step (lfsr_taps l) (lfsr_state l)\<rparr>)"
  by (simp add: lfsr_generate_u32_def lfsr_step_def)

lemma scan_unfold:
  "rcycle_scan rng flip l =
    (if rng < rcycle_value flip (lfsr_state l)
     then rcycle_scan rng flip (l\<lparr>lfsr_state := lfsr_step (lfsr_taps l) (lfsr_state l)\<rparr>)
     else Some (rcycle_value flip (lfsr_state l), l\<lparr>lfsr_state := lfsr_step (lfsr_taps l) (lfsr_state l)\<rparr>))"
  by (subst rcycle_scan.simps) (simp add: generate_u32_step Let_def)

lemma scan_returns:
  assumes "rcycle_value flip ((lfsr_step (lfsr_taps l) ^^ k) (lfsr_state l)) \<le> rng"
  shows "\<exists>j. let v = rcycle_value flip ((lfsr_step (lfsr_taps l) ^^ j) (lfsr_state l)) in v \<le> rng \<and>
    rcycle_scan rng flip l = Some (v, l\<lparr>lfsr_state := (lfsr_step (lfsr_taps l) ^^ Suc j) (lfsr_state l)\<rparr>)"
  using assms
proof (induction k arbitrary: l)
  case 0
  then show ?case by (intro exI [of _ 0]) (subst scan_unfold, auto simp add: Let_def not_less dest: leD)
next
  case (Suc k)
  show ?case
  proof (cases "rng < rcycle_value flip (lfsr_state l)")
    case True
    let ?l = "l\<lparr>lfsr_state := lfsr_step (lfsr_taps l) (lfsr_state l)\<rparr>"
    obtain j where "let v = rcycle_value flip ((lfsr_step (lfsr_taps ?l) ^^ j) (lfsr_state ?l)) in v \<le> rng \<and>
      rcycle_scan rng flip ?l = Some (v, ?l\<lparr>lfsr_state := (lfsr_step (lfsr_taps ?l) ^^ Suc j) (lfsr_state ?l)\<rparr>)"
      using Suc.IH [of ?l] Suc.prems by (auto simp add: funpow_swap1)
    then show ?thesis using True by (intro exI [of _ "Suc j"]) 
        (subst scan_unfold, simp add: Let_def funpow_swap1)
  next
    case False
    then show ?thesis by (intro exI [of _ 0]) (subst scan_unfold, auto simp add: Let_def not_less dest: leD)
  qed
qed

lemma orbit_back:
  assumes "galois_lfsr n t" "take_bit n g = g"
  shows "\<exists>j. (lfsr_step t ^^ j) ((lfsr_step t ^^ k) g) = g"
proof -
  obtain p where p: "0 < p" "(lfsr_step t ^^ p) g = g" using galois_lfsr.returns [OF assms] .
  have "(lfsr_step t ^^ (p * k)) g = g" using p(2) by (induction k) (simp_all add: funpow_add)
  moreover have "k \<le> p * k" using p(1) by simp
  ultimately have "(lfsr_step t ^^ (p * k - k)) ((lfsr_step t ^^ k) g) = g"
    by (metis comp_apply funpow_add le_add_diff_inverse2)
  then show ?thesis ..
qed

lemma scan_wf:
  assumes wf: "rc_wf n rc"
  shows "\<exists>j. let s = lfsr_state (rc_lfsr rc); t = lfsr_taps_table ! n; v = rcycle_value (rc_flip rc) ((lfsr_step t ^^ j) s);
      l = (rc_lfsr rc)\<lparr>lfsr_state := (lfsr_step t ^^ Suc j) s\<rparr>
    in v \<le> rc_range rc \<and> 0 < v \<and> rcycle_scan (rc_range rc) (rc_flip rc) (rc_lfsr rc) = Some (v, l) \<and>
       rc_wf n (rc\<lparr>rc_lfsr := l\<rparr>)"
proof -
  define s t where "s = lfsr_state (rc_lfsr rc)" and "t = lfsr_taps_table ! n"
  have gal: "galois_lfsr n t" using wf by (auto simp add: t_def rc_wf_def intro: galois_table)
  have s: "take_bit n s = s" "s \<noteq> 0" using wf by (auto simp add: s_def rc_wf_def)
  obtain g k where g: "take_bit n g = g" "rcycle_value (rc_flip rc) g \<le> rc_range rc" "s = (lfsr_step t ^^ k) g"
    using wf unfolding rc_wf_def s_def t_def by blast
  obtain i where "(lfsr_step t ^^ i) s = g" using orbit_back [OF gal g(1)] g(3) by blast
  moreover have t: "lfsr_taps (rc_lfsr rc) = t" using wf by (simp add: rc_wf_def t_def)
  ultimately obtain j where j: "rcycle_value (rc_flip rc) ((lfsr_step t ^^ j) s) \<le> rc_range rc"
    "rcycle_scan (rc_range rc) (rc_flip rc) (rc_lfsr rc) =
      Some (rcycle_value (rc_flip rc) ((lfsr_step t ^^ j) s), (rc_lfsr rc)\<lparr>lfsr_state := (lfsr_step t ^^ Suc j) s\<rparr>)"
    using scan_returns [where flip = "rc_flip rc" and l = "rc_lfsr rc" and k = i and rng = "rc_range rc"] g(2) by (auto simp add: Let_def s_def)
  have nz: "(lfsr_step t ^^ m) s \<noteq> 0" for m by (rule galois_lfsr.funpow_nonzero [OF gal s])
  then have "0 < rcycle_value (rc_flip rc) ((lfsr_step t ^^ j) s)"
    by (auto simp add: rcycle_value_def Let_def word_greater_zero_iff dest: xor_zero)
  moreover have "rc_wf n (rc\<lparr>rc_lfsr := (rc_lfsr rc)\<lparr>lfsr_state := (lfsr_step t ^^ Suc j) s\<rparr>\<rparr>)"
  proof -
    have "(lfsr_step t ^^ Suc j) s = (lfsr_step t ^^ (Suc j + k)) g"
      using g(3) by (simp only: funpow_add comp_apply)
    then have "\<exists>g' k'. take_bit n g' = g' \<and> rcycle_value (rc_flip rc) g' \<le> rc_range rc \<and>
      (lfsr_step t ^^ Suc j) s = (lfsr_step t ^^ k') g'" using g by blast
    then show ?thesis
      using wf galois_lfsr.funpow_bound [OF gal s(1), of "Suc j"] nz [of "Suc j"] unfolding rc_wf_def t_def by simp
  qed
  ultimately show ?thesis using j unfolding Let_def s_def [symmetric] t_def [symmetric] by blast
qed

text \<open>A call from a scan: the generator keeps its register, or is seeded anew at the end of a cycle.\<close>

lemma rc_wf_cong [simp]:
  "rc_wf n (rc\<lparr>rc_count := c\<rparr>) = rc_wf n rc" "rc_wf n (rc\<lparr>rc_lfsr_reseed := l\<rparr>) = rc_wf n rc"
  by (simp_all add: rc_wf_def)

lemma generate_from_scan:
  assumes scan: "rcycle_scan (rc_range rc) (rc_flip rc) (rc_lfsr rc) = Some (v, l)"
    and wf: "rc_wf n rc" "rc_wf n (rc\<lparr>rc_lfsr := l\<rparr>)"
  shows "\<exists>rc'. rcycle_generate rc = Some (Inr (v - 1, rc')) \<and> rc_wf n rc' \<and>
    rc_range rc' = rc_range rc \<and> rc_count rc' = rc_count rc + 1 \<and>
    ((rc_count rc + 1) mod rc_range rc \<noteq> 0 \<longrightarrow> rc' = rc\<lparr>rc_lfsr := l, rc_count := rc_count rc + 1\<rparr>)"
proof -
  let ?rc = "rc\<lparr>rc_lfsr := l, rc_count := rc_count rc + 1\<rparr>"
  have range: "rc_range rc \<noteq> 0" using rc_wf_range [OF wf(1)] by simp
  show ?thesis
  proof (cases "(rc_count rc + 1) mod rc_range rc = 0")
    case True
    obtain seed lr where lr: "lfsr_generate_u32 (rc_lfsr_reseed rc) = (seed, lr)" by fastforce
    let ?rr = "?rc\<lparr>rc_lfsr_reseed := lr\<rparr>"
    obtain l' flip where "rcycle_reseed ?rr seed = Inr (?rr\<lparr>rc_flip := flip, rc_lfsr := l'\<rparr>)"
      "rc_wf n (?rr\<lparr>rc_flip := flip, rc_lfsr := l'\<rparr>)"
      using reseed_wf [of n ?rr seed] wf(1) unfolding rc_wf_def by auto
    then show ?thesis using scan range True lr unfolding rcycle_generate_def Let_def by simp
  next
    case False
    then show ?thesis using scan range wf(2) unfolding rcycle_generate_def Let_def by simp
  qed
qed

lemma pred_less:
  assumes "0 < v" "v \<le> rng"
  shows "v - 1 < (rng :: uint32)"
proof -
  have "v \<noteq> 0" using assms(1) by auto
  then show ?thesis using assms unat_minus_one [of v] by (simp add: word_less_nat_alt word_le_nat_alt)
qed

lemma unat_uint32: "unat v < 2 ^ 32" for v :: uint32
  using unsigned_less [of v] by simp

lemma generate_wf:
  assumes "rc_wf n rc"
  shows "\<exists>j rc'. let v = rcycle_value (rc_flip rc) ((lfsr_step (lfsr_taps_table ! n) ^^ j) (lfsr_state (rc_lfsr rc)));
      l = (rc_lfsr rc)\<lparr>lfsr_state := (lfsr_step (lfsr_taps_table ! n) ^^ Suc j) (lfsr_state (rc_lfsr rc))\<rparr>
    in rcycle_generate rc = Some (Inr (v - 1, rc')) \<and> v - 1 < rc_range rc \<and> rc_wf n rc' \<and>
       rc_range rc' = rc_range rc \<and> rc_count rc' = rc_count rc + 1 \<and>
       ((rc_count rc + 1) mod rc_range rc \<noteq> 0 \<longrightarrow> rc' = rc\<lparr>rc_lfsr := l, rc_count := rc_count rc + 1\<rparr>)"
proof -
  obtain j where "let s = lfsr_state (rc_lfsr rc); t = lfsr_taps_table ! n; v = rcycle_value (rc_flip rc) ((lfsr_step t ^^ j) s);
      l = (rc_lfsr rc)\<lparr>lfsr_state := (lfsr_step t ^^ Suc j) s\<rparr>
    in v \<le> rc_range rc \<and> 0 < v \<and> rcycle_scan (rc_range rc) (rc_flip rc) (rc_lfsr rc) = Some (v, l) \<and>
       rc_wf n (rc\<lparr>rc_lfsr := l\<rparr>)"
    using scan_wf [OF assms] by blast
  then show ?thesis
    using generate_from_scan [OF _ assms] pred_less unfolding Let_def by blast
qed

lemma generates_returns:
  "rc_wf n rc \<Longrightarrow> \<exists>us rc'. rcycle_generates m rc = Some (Inr (us, rc')) \<and> length us = m \<and>
    (\<forall>u\<in>set us. u < rc_range rc) \<and> rc_wf n rc' \<and> rc_range rc' = rc_range rc"
proof (induction m arbitrary: rc)
  case (Suc m)
  obtain v rc1 where 1: "rcycle_generate rc = Some (Inr (v, rc1))" "v < rc_range rc" "rc_wf n rc1"
    "rc_range rc1 = rc_range rc"
    using generate_wf [OF Suc.prems] unfolding Let_def by blast
  obtain us rc2 where "rcycle_generates m rc1 = Some (Inr (us, rc2))" "length us = m"
    "\<forall>u\<in>set us. u < rc_range rc1" "rc_wf n rc2" "rc_range rc2 = rc_range rc1"
    using Suc.IH [OF 1(3)] by blast
  then show ?case using 1 by auto
qed auto

lemma init_wf:
  assumes n: "2 \<le> n" "n \<le> 31" "2 ^ (n - 1) \<le> unat rng + 1" "unat rng + 1 < 2 ^ n"
  shows "\<exists>rc. rcycle_init rng seed = Inr rc \<and> rc_wf n rc \<and> rc_range rc = rng \<and> rc_count rc = 0"
proof -
  obtain l where l: "lfsr_init 32 seed = Inr l" by (auto simp add: lfsr_init_def)
  let ?rc = "\<lparr>rc_lfsr = l, rc_lfsr_reseed = l, rc_range = rng, rc_count = 0, rc_flip = 0\<rparr>"
  obtain l' flip where "rcycle_reseed ?rc seed = Inr (?rc\<lparr>rc_flip := flip, rc_lfsr := l'\<rparr>)"
    "rc_wf n (?rc\<lparr>rc_flip := flip, rc_lfsr := l'\<rparr>)"
    using reseed_wf [of n ?rc seed] n by auto
  then show ?thesis using l unfolding rcycle_init_def by simp
qed

subsection \<open>A cycle\<close>

text \<open>The numbers of the range among the next \<open>m\<close> states of the register, in their order.\<close>

definition cycle_values :: "uint32 \<Rightarrow> uint32 \<Rightarrow> uint32 \<Rightarrow> uint32 \<Rightarrow> nat \<Rightarrow> uint32 list" where
  "cycle_values rng flip t s m = filter (\<lambda>v. v \<le> rng) (map (rcycle_value flip) (lfsr_states t s m))"

lemma states_Suc: "lfsr_states t s (Suc m) = s # lfsr_states t (lfsr_step t s) m"
  by (simp add: lfsr_states_def upt_conv_Cons map_Suc_upt [symmetric] funpow_swap1 comp_def del: upt_Suc map_Suc_upt)

lemma scan_filter:
  assumes "cycle_values rng flip (lfsr_taps l) (lfsr_state l) m = v # vs"
  shows "\<exists>s' m'. rcycle_scan rng flip l = Some (v, l\<lparr>lfsr_state := s'\<rparr>) \<and>
    cycle_values rng flip (lfsr_taps l) s' m' = vs"
  using assms
proof (induction m arbitrary: l)
  case 0
  then show ?case by (simp add: cycle_values_def lfsr_states_def)
next
  case (Suc m)
  show ?case
  proof (cases "rcycle_value flip (lfsr_state l) \<le> rng")
    case True
    then show ?thesis
      using Suc.prems by (subst scan_unfold) (auto simp add: cycle_values_def states_Suc dest: leD)
  next
    case False
    let ?l = "l\<lparr>lfsr_state := lfsr_step (lfsr_taps l) (lfsr_state l)\<rparr>"
    have "cycle_values rng flip (lfsr_taps ?l) (lfsr_state ?l) m = v # vs"
      using Suc.prems False by (simp add: cycle_values_def states_Suc)
    from Suc.IH [OF this] show ?thesis using False by (subst scan_unfold) (simp add: not_le)
  qed
qed

lemma generates_cycle:
  assumes "cycle_values (rc_range rc) (rc_flip rc) (lfsr_taps_table ! n) (lfsr_state (rc_lfsr rc)) m = vs"
    and "rc_wf n rc" "unat (rc_count rc) mod unat (rc_range rc) + length vs = unat (rc_range rc)"
    and "unat (rc_count rc) + length vs < 2 ^ 32"
  shows "\<exists>rc'. rcycle_generates (length vs) rc = Some (Inr (map (\<lambda>v. v - 1) vs, rc')) \<and> rc_wf n rc' \<and>
    rc_range rc' = rc_range rc \<and> unat (rc_count rc') = unat (rc_count rc) + length vs"
  using assms
proof (induction vs arbitrary: rc m)
  case Nil
  then show ?case by simp
next
  case (Cons v vs)
  let ?r = "unat (rc_range rc)" and ?c = "unat (rc_count rc)"
  have taps: "lfsr_taps (rc_lfsr rc) = lfsr_taps_table ! n" using Cons.prems(2) by (simp add: rc_wf_def)
  obtain s' m' where s': "rcycle_scan (rc_range rc) (rc_flip rc) (rc_lfsr rc) = Some (v, (rc_lfsr rc)\<lparr>lfsr_state := s'\<rparr>)"
    "cycle_values (rc_range rc) (rc_flip rc) (lfsr_taps_table ! n) s' m' = vs"
    using scan_filter [of "rc_range rc" "rc_flip rc" "rc_lfsr rc" m v vs] Cons.prems(1) taps by auto
  have wf: "rc_wf n (rc\<lparr>rc_lfsr := (rc_lfsr rc)\<lparr>lfsr_state := s'\<rparr>\<rparr>)"
  proof -
    obtain v' l' where "rcycle_scan (rc_range rc) (rc_flip rc) (rc_lfsr rc) = Some (v', l')" "rc_wf n (rc\<lparr>rc_lfsr := l'\<rparr>)"
      using scan_wf [OF Cons.prems(2)] unfolding Let_def by blast
    moreover from this have "l' = (rc_lfsr rc)\<lparr>lfsr_state := s'\<rparr>" using s'(1) by simp
    ultimately show ?thesis by simp
  qed
  obtain rc1 where rc1: "rcycle_generate rc = Some (Inr (v - 1, rc1))" "rc_wf n rc1"
    "rc_range rc1 = rc_range rc" "rc_count rc1 = rc_count rc + 1"
    "(rc_count rc + 1) mod rc_range rc \<noteq> 0 \<longrightarrow>
      rc1 = rc\<lparr>rc_lfsr := (rc_lfsr rc)\<lparr>lfsr_state := s'\<rparr>, rc_count := rc_count rc + 1\<rparr>"
    using generate_from_scan [OF s'(1) Cons.prems(2) wf] by (elim exE conjE) (rule that)
  have c1: "unat (rc_count rc + 1) = ?c + 1"
    using Cons.prems(4) by (simp add: unat_word_ariths)
  show ?case
  proof (cases "vs = []")
    case True
    then show ?thesis using rc1 c1 by simp
  next
    case False
    then have lt: "?c mod ?r + 1 < ?r" using Cons.prems(3) by (cases vs) auto
    then have "(?c + 1) mod ?r = ?c mod ?r + 1" by (simp add: mod_Suc)
    moreover from this have "unat ((rc_count rc + 1) mod rc_range rc) \<noteq> 0" by (simp add: unat_mod c1)
    then have "(rc_count rc + 1) mod rc_range rc \<noteq> 0" by (metis unat_0)
    with rc1(5) have eq: "rc1 = rc\<lparr>rc_lfsr := (rc_lfsr rc)\<lparr>lfsr_state := s'\<rparr>, rc_count := rc_count rc + 1\<rparr>"
      by (rule mp)
    ultimately obtain rc2 where "rcycle_generates (length vs) rc1 = Some (Inr (map (\<lambda>v. v - 1) vs, rc2))"
      "rc_wf n rc2" "rc_range rc2 = rc_range rc1" "unat (rc_count rc2) = unat (rc_count rc1) + length vs"
      using Cons.IH [of rc1 m'] rc1 s'(2) Cons.prems(3,4) c1 by auto
    then show ?thesis using rc1 c1 by auto
  qed
qed

lemma rcycle_value_bij:
  assumes "take_bit n flip = flip"
  shows "inj_on (rcycle_value flip) {s. take_bit n s = s \<and> s \<noteq> 0}"
    and "rcycle_value flip ` {s. take_bit n s = s \<and> s \<noteq> 0} = {s. take_bit n s = s \<and> s \<noteq> 0}"
proof -
  let ?S = "{s :: uint32. take_bit n s = s \<and> s \<noteq> 0}"
  have xor: "a XOR flip = b XOR flip \<Longrightarrow> a = b" for a b by (metis xor.assoc xor.right_neutral xor_self_eq)
  show inj: "inj_on (rcycle_value flip) ?S"
  proof (rule inj_onI)
    fix a b assume "a \<in> ?S" "b \<in> ?S" and eq: "rcycle_value flip a = rcycle_value flip b"
    then have "a \<noteq> 0" "b \<noteq> 0" by auto
    moreover have "c XOR flip \<noteq> flip \<and> flip \<noteq> c XOR flip" if "c \<noteq> 0" for c using xor [of c 0] that by auto
    ultimately show "a = b"
      using eq xor [of a b] xor_zero [of a flip] xor_zero [of b flip]
      by (auto simp add: rcycle_value_def Let_def split: if_splits)
  qed
  have "rcycle_value flip ` ?S \<subseteq> ?S"
    using assms by (auto simp add: rcycle_value_def Let_def dest: xor_zero)
  then show "rcycle_value flip ` ?S = ?S" by (rule endo_inj_surj [rotated]) (use inj in simp_all)
qed

lemma cycle_values_all:
  assumes max: "maximal_lfsr n t" and s: "take_bit n s = s" "s \<noteq> 0" and flip: "take_bit n flip = flip"
    and rng: "take_bit n rng = rng"
  shows "distinct (cycle_values rng flip t s (2 ^ n - 1))"
    and "set (cycle_values rng flip t s (2 ^ n - 1)) = {v. 0 < v \<and> v \<le> rng}"
proof -
  let ?S = "{s :: uint32. take_bit n s = s \<and> s \<noteq> 0}"
  have set: "set (lfsr_states t s (2 ^ n - 1)) = ?S" by (rule maximal_lfsr.set_states [OF max s])
  have "distinct (lfsr_states t s (2 ^ n - 1))" by (rule maximal_lfsr.distinct_states [OF max s])
  then show "distinct (cycle_values rng flip t s (2 ^ n - 1))"
    using rcycle_value_bij(1) [OF flip] unfolding cycle_values_def
    by (intro distinct_filter) (simp add: distinct_map set del: One_nat_def)
  have n: "n \<le> 32" using max unfolding maximal_lfsr_def galois_lfsr_def by blast
  have "v \<in> ?S \<and> v \<le> rng \<longleftrightarrow> 0 < v \<and> v \<le> rng" for v
    using rng take_bit_unat [OF n, of v] take_bit_unat [OF n, of rng]
    by (auto simp add: word_le_nat_alt word_greater_zero_iff)
  moreover have "set (cycle_values rng flip t s (2 ^ n - 1)) = {v. v \<in> rcycle_value flip ` set (lfsr_states t s (2 ^ n - 1)) \<and> v \<le> rng}"
    by (auto simp add: cycle_values_def)
  then have vals: "set (cycle_values rng flip t s (2 ^ n - 1)) = {v. v \<in> ?S \<and> v \<le> rng}"
    unfolding set rcycle_value_bij(2) [OF flip] .
  ultimately show "set (cycle_values rng flip t s (2 ^ n - 1)) = {v. 0 < v \<and> v \<le> rng}"
    by (simp only: vals)
qed

lemma card_word_interval: "card {v :: uint32. 0 < v \<and> v \<le> rng} = unat rng"
proof -
  have "bij_betw unat {v :: uint32. 0 < v \<and> v \<le> rng} {1..unat rng}"
  proof (rule bij_betw_byWitness [where f' = of_nat])
    show *: "\<forall>a\<in>{1..unat rng}. unat (of_nat a :: uint32) = a"
      using unat_uint32 [of rng] by (auto simp add: unat_of_nat take_bit_nat_eq_self)
    then show "of_nat ` {1..unat rng} \<subseteq> {v. 0 < v \<and> v \<le> rng}"
      by (auto simp add: word_less_nat_alt word_le_nat_alt)
  qed (auto simp add: word_less_nat_alt word_le_nat_alt)
  then show ?thesis using bij_betw_same_card by fastforce
qed

lemma pred_image: "(\<lambda>v. v - 1) ` {v :: uint32. 0 < v \<and> v \<le> rng} = {v. v < rng}"
proof (intro set_eqI iffI)
  fix v :: uint32 assume "v \<in> (\<lambda>v. v - 1) ` {v. 0 < v \<and> v \<le> rng}"
  then obtain u where "v = u - 1" "0 < u" "u \<le> rng" by auto
  then show "v \<in> {v. v < rng}" using pred_less by simp
next
  fix v assume "v \<in> {v. v < rng}"
  then have "v < rng" by simp
  then have "unat (v + 1) = unat v + 1" using unat_uint32 [of rng] by (simp add: unat_word_ariths word_less_nat_alt)
  then have "v + 1 \<in> {v. 0 < v \<and> v \<le> rng}" using \<open>v < rng\<close> by (simp add: word_less_nat_alt word_le_nat_alt)
  then show "v \<in> (\<lambda>v. v - 1) ` {v. 0 < v \<and> v \<le> rng}" by (rule image_eqI [rotated]) simp
qed

definition full_cycle :: "uint32 \<Rightarrow> uint32 list \<Rightarrow> bool" where
  "full_cycle rng vs \<longleftrightarrow> distinct vs \<and> set vs = {v. v < rng}"

lemma generates_full_cycle:
  assumes max: "maximal_lfsr n (lfsr_taps_table ! n)" and wf: "rc_wf n rc"
    and c: "unat (rc_count rc) mod unat (rc_range rc) = 0" "unat (rc_count rc) + unat (rc_range rc) < 2 ^ 32"
  shows "\<exists>vs rc'. rcycle_generates (unat (rc_range rc)) rc = Some (Inr (vs, rc')) \<and> full_cycle (rc_range rc) vs \<and>
    rc_wf n rc' \<and> rc_range rc' = rc_range rc \<and> unat (rc_count rc') = unat (rc_count rc) + unat (rc_range rc)"
proof -
  let ?rng = "rc_range rc"
  define us where "us = cycle_values ?rng (rc_flip rc) (lfsr_taps_table ! n) (lfsr_state (rc_lfsr rc)) (2 ^ n - 1)"
  have "take_bit n ?rng = ?rng" using wf take_bit_unat [of n ?rng] by (simp add: rc_wf_def)
  then have us: "distinct us" "set us = {v. 0 < v \<and> v \<le> ?rng}"
    using cycle_values_all [OF max] wf unfolding us_def rc_wf_def by blast+
  then have len: "length us = unat ?rng" using distinct_card [of us] card_word_interval [of ?rng] by simp
  have "full_cycle ?rng (map (\<lambda>v. v - 1) us)"
    using us pred_image [of ?rng] by (auto simp add: full_cycle_def distinct_map inj_on_def)
  then show ?thesis
    using generates_cycle [OF us_def [symmetric] wf] c unfolding len by auto
qed

lemma generates_add:
  "rcycle_generates a rc = Some (Inr (us, rc1)) \<Longrightarrow> rcycle_generates b rc1 = Some (Inr (vs, rc2)) \<Longrightarrow>
   rcycle_generates (a + b) rc = Some (Inr (us @ vs, rc2))"
  by (induction a arbitrary: rc us) (auto split: option.splits sum.splits)

lemma generates_cycles:
  assumes "maximal_lfsr n (lfsr_taps_table ! n)" "rc_wf n rc" "unat (rc_range rc) = r"
    and "unat (rc_count rc) mod r = 0" "unat (rc_count rc) + k * r < 2 ^ 32"
  shows "\<exists>bs rc'. rcycle_generates (k * r) rc = Some (Inr (concat bs, rc')) \<and> length bs = k \<and>
    (\<forall>b\<in>set bs. full_cycle (rc_range rc) b)"
  using assms
proof (induction k arbitrary: rc)
  case (Suc k)
  have "unat (rc_count rc) + r < 2 ^ 32" using Suc.prems(5) by simp
  then obtain b rc1 where b: "rcycle_generates r rc = Some (Inr (b, rc1))" "full_cycle (rc_range rc) b"
    "rc_wf n rc1" "rc_range rc1 = rc_range rc" "unat (rc_count rc1) = unat (rc_count rc) + r"
    using generates_full_cycle [OF assms(1) Suc.prems(2)] Suc.prems(3,4) by metis
  then obtain bs rc2 where "rcycle_generates (k * r) rc1 = Some (Inr (concat bs, rc2))" "length bs = k"
    "\<forall>b\<in>set bs. full_cycle (rc_range rc) b"
    using Suc.IH [of rc1] Suc.prems by auto
  then show ?case using generates_add [OF b(1)] b(2)
    by (intro exI [of _ "b # bs"] exI [of _ rc2]) simp
qed simp

lemma init_cycles:
  assumes "1 \<le> unat rng" "unat rng \<le> 2 ^ 30 - 2" "\<not> (2 ^ 24 - 1 \<le> unat rng \<and> unat rng \<le> 2 ^ 25 - 2)"
    and "k * unat rng < 2 ^ 32"
  shows "\<exists>rc bs rc'. rcycle_init rng seed = Inr rc \<and>
    rcycle_generates (k * unat rng) rc = Some (Inr (concat bs, rc')) \<and> length bs = k \<and>
    (\<forall>b\<in>set bs. distinct b \<and> set b = {v. v < rng})"
proof -
  obtain n where n: "2 \<le> n" "n \<le> 30" "2 ^ (n - 1) \<le> unat rng + 1" "unat rng + 1 < 2 ^ n"
    using bits_exist [of "unat rng" 30] assms by auto
  then have "n \<noteq> 25" using assms(3) by auto
  then have max: "maximal_lfsr n (lfsr_taps_table ! n)" using n by (intro maximal_table) simp
  obtain rc where rc: "rcycle_init rng seed = Inr rc" "rc_wf n rc" "rc_range rc = rng" "rc_count rc = 0"
    using init_wf [of n rng seed] n by auto
  then show ?thesis
    using generates_cycles [OF max rc(2), of "unat rng" k] assms(4) unfolding full_cycle_def by auto
qed

subsection \<open>Ranges that are refused\<close>

lemma init_reseed:
  "\<exists>rc. rcycle_init rng seed = rcycle_reseed rc seed \<and> rc_range rc = rng"
  by (auto simp add: rcycle_init_def lfsr_init_def)

lemma reseed_refuses:
  assumes "unat (rc_range rc) = 0 \<or> 2 ^ 31 - 1 \<le> unat (rc_range rc)"
  shows "\<exists>e. rcycle_reseed rc seed = Inl e"
proof -
  define rng where "rng = rc_range rc"
  consider "rng = 0" | "rng = - 1" | "rng \<noteq> - 1" "2 ^ 31 - 1 \<le> unat rng"
    using assms unfolding rng_def by (metis unsigned_0 unat_eq_zero)
  then show ?thesis
  proof cases
    case 1
    then have "rc_range rc = 0" by (simp add: rng_def)
    then show ?thesis by (simp add: rcycle_reseed_def Let_def)
  next
    case 2
    have "rcycle_bits (- 1) = 0"
      by (simp add: rcycle_bits_def round_2_def ffs_power [of 0, simplified])
    then have "lfsr_init (rcycle_bits (rc_range rc)) s = Inl Assertion_failed" for s
      using 2 by (simp add: rng_def lfsr_init_def)
    then show ?thesis by (auto simp add: rcycle_reseed_def Let_def)
  next
    case 3
    have "unat rng \<noteq> 2 ^ 32 - 1"
    proof
      assume "unat rng = 2 ^ 32 - 1"
      then have "unat rng = unat (- 1 :: uint32)" by (simp add: unsigned_minus_1_eq_mask mask_eq_exp_minus_1)
      then show False using 3(1) by (metis word_unat_eq_iff)
    qed
    then have "unat rng + 1 < 2 ^ 32" using unat_uint32 [of rng] by simp
    then have "unat (rng + 1) = unat rng + 1" by (simp add: unat_word_ariths)
    then have "round_2 (rng + 1) = push_bit (Suc 31) 1"
      using 3 unat_uint32 [of "rng + 1"] by (intro round_2_power) auto
    then have "round_2 (rng + 1) = 0" by (simp add: push_bit_eq_mult)
    then have "rcycle_bits rng = - 1" by (simp add: rcycle_bits_def ffs_zero)
    then show ?thesis by (auto simp add: rcycle_reseed_def Let_def rng_def)
  qed
qed

subsection \<open>The row of 25 bits\<close>

lemma row25_return: "take_bit 25 s = s \<Longrightarrow> (lfsr_step (lfsr_taps_table ! 25) ^^ 8322945) s = s"
  by (rule row25.funpow_all_return [OF row25_short])

lemma row25_orbit:
  assumes "take_bit 25 s = s"
  shows "card (range (\<lambda>j. f ((lfsr_step (lfsr_taps_table ! 25) ^^ j) s))) \<le> 8322945"
proof -
  have "range (\<lambda>j. f ((lfsr_step (lfsr_taps_table ! 25) ^^ j) s)) \<subseteq>
    (\<lambda>j. f ((lfsr_step (lfsr_taps_table ! 25) ^^ j) s)) ` {..<8322945}"
  proof
    fix x assume "x \<in> range (\<lambda>j. f ((lfsr_step (lfsr_taps_table ! 25) ^^ j) s))"
    then obtain j where "x = f ((lfsr_step (lfsr_taps_table ! 25) ^^ (j mod 8322945)) s)"
      using funpow_mod_eq [OF row25_return [OF assms]] by auto
    then show "x \<in> (\<lambda>j. f ((lfsr_step (lfsr_taps_table ! 25) ^^ j) s)) ` {..<8322945}" by auto
  qed
  then have "card (range (\<lambda>j. f ((lfsr_step (lfsr_taps_table ! 25) ^^ j) s))) \<le>
    card ((\<lambda>j. f ((lfsr_step (lfsr_taps_table ! 25) ^^ j) s)) ` {..<8322945})" by (intro card_mono) auto
  also have "\<dots> \<le> card {..<8322945 :: nat}" by (rule card_image_le) simp
  finally show ?thesis by simp
qed

lemma generates_in_orbit:
  assumes "rc_wf n rc" "unat (rc_count rc) mod unat (rc_range rc) + m \<le> unat (rc_range rc)"
    and "unat (rc_count rc) + m < 2 ^ 32" "rcycle_generates m rc = Some (Inr (us, rc'))"
  shows "set us \<subseteq> range (\<lambda>j. rcycle_value (rc_flip rc)
    ((lfsr_step (lfsr_taps_table ! n) ^^ j) (lfsr_state (rc_lfsr rc))) - 1)"
  using assms
proof (induction m arbitrary: rc us)
  case (Suc m)
  let ?t = "lfsr_taps_table ! n" and ?s = "lfsr_state (rc_lfsr rc)" and ?r = "unat (rc_range rc)" and ?c = "unat (rc_count rc)"
  obtain j rc1 where gen: "rcycle_generate rc = Some (Inr (rcycle_value (rc_flip rc) ((lfsr_step ?t ^^ j) ?s) - 1, rc1))"
    and wf: "rc_wf n rc1"
    and rc1: "(rc_count rc + 1) mod rc_range rc \<noteq> 0 \<longrightarrow>
      rc1 = rc\<lparr>rc_lfsr := (rc_lfsr rc)\<lparr>lfsr_state := (lfsr_step ?t ^^ Suc j) ?s\<rparr>, rc_count := rc_count rc + 1\<rparr>"
    using generate_wf [OF Suc.prems(1)] unfolding Let_def by (elim exE conjE) (rule that)
  obtain vs where vs: "rcycle_generates m rc1 = Some (Inr (vs, rc'))"
    "us = (rcycle_value (rc_flip rc) ((lfsr_step ?t ^^ j) ?s) - 1) # vs"
    using Suc.prems(4) gen by (auto split: option.splits sum.splits)
  have c1: "unat (rc_count rc + 1) = ?c + 1" using Suc.prems(3) by (simp add: unat_word_ariths)
  show ?case
  proof (cases "m = 0")
    case True
    then show ?thesis using vs by auto
  next
    case False
    then have mod: "(?c + 1) mod ?r = ?c mod ?r + 1" using Suc.prems(2) by (simp add: mod_Suc)
    then have "unat ((rc_count rc + 1) mod rc_range rc) \<noteq> 0" by (simp add: unat_mod c1)
    then have "(rc_count rc + 1) mod rc_range rc \<noteq> 0" by (metis unat_0)
    with rc1 have eq: "rc1 = rc\<lparr>rc_lfsr := (rc_lfsr rc)\<lparr>lfsr_state := (lfsr_step ?t ^^ Suc j) ?s\<rparr>, rc_count := rc_count rc + 1\<rparr>"
      by (rule mp)
    have sub: "set vs \<subseteq> range (\<lambda>i. rcycle_value (rc_flip rc1) ((lfsr_step ?t ^^ i) (lfsr_state (rc_lfsr rc1))) - 1)"
      using Suc.IH [OF wf _ _ vs(1)] Suc.prems mod c1 unfolding eq by simp
    have st: "rc_flip rc1 = rc_flip rc" "lfsr_state (rc_lfsr rc1) = (lfsr_step ?t ^^ Suc j) ?s" using eq by simp_all
    have "range (\<lambda>i. rcycle_value (rc_flip rc1) ((lfsr_step ?t ^^ i) (lfsr_state (rc_lfsr rc1))) - 1) \<subseteq> range (\<lambda>i. rcycle_value (rc_flip rc) ((lfsr_step ?t ^^ i) ?s) - 1)"
    proof
      fix x assume "x \<in> range (\<lambda>i. rcycle_value (rc_flip rc1) ((lfsr_step ?t ^^ i) (lfsr_state (rc_lfsr rc1))) - 1)"
      then obtain i where "x = rcycle_value (rc_flip rc) ((lfsr_step ?t ^^ i) ((lfsr_step ?t ^^ Suc j) ?s)) - 1"
        unfolding st by blast
      then have "x = rcycle_value (rc_flip rc) ((lfsr_step ?t ^^ (i + Suc j)) ?s) - 1"
        by (simp only: funpow_add comp_apply)
      then show "x \<in> range (\<lambda>i. rcycle_value (rc_flip rc) ((lfsr_step ?t ^^ i) ?s) - 1)" by blast
    qed
    then show ?thesis using vs(2) sub by auto
  qed
qed simp

subsection \<open>Properties\<close>

text \<open>
  C31: \<open>rcycle_init\<close> takes exactly the ranges from 1 to \<open>2 ^ 31 - 2\<close>.  With one of these any number of
  calls of \<open>rcycle_generate\<close> returns, the unbounded loop of each included, with a number below the
  range; with any other range the process stops in \<open>rcycle_reseed\<close>.
\<close>

theorem rcycle_returns:
  "if 1 \<le> unat rng \<and> unat rng \<le> 2 ^ 31 - 2
   then \<exists>rc us rc'. rcycle_init rng seed = Inr rc \<and> rcycle_generates m rc = Some (Inr (us, rc')) \<and>
     length us = m \<and> (\<forall>u\<in>set us. u < rng)
   else \<exists>e. rcycle_init rng seed = Inl e"
proof (cases "1 \<le> unat rng \<and> unat rng \<le> 2 ^ 31 - 2")
  case True
  then obtain n where "2 \<le> n" "n \<le> 31" "2 ^ (n - 1) \<le> unat rng + 1" "unat rng + 1 < 2 ^ n"
    using bits_exist [of "unat rng" 31] by auto
  from init_wf [OF this] obtain rc where "rcycle_init rng seed = Inr rc" "rc_wf n rc" "rc_range rc = rng" by blast
  then show ?thesis using True generates_returns [of n rc m] by auto
next
  case False
  then have "unat rng = 0 \<or> 2 ^ 31 - 1 \<le> unat rng" by auto
  then show ?thesis using False init_reseed [of rng seed] reseed_refuses [of _ seed] by metis
qed

theorem rcycle_returns_witness:
  "\<exists>rc us rc'. rcycle_init 3 7 = Inr rc \<and> rcycle_generates 5 rc = Some (Inr (us, rc')) \<and>
     length us = 5 \<and> (\<forall>u\<in>set us. u < 3)"
  using rcycle_returns [of 3 7 5] by simp

text \<open>
  C32: up to a range of \<open>2 ^ 30 - 2\<close>, those of the 25 bit register apart, the generator is a cycle
  generator: while the 32 bit counter does not wrap around, the calls fall into blocks of \<open>rng\<close>
  calls, and every block gives each number below the range exactly once.
\<close>

theorem rcycle_permutes:
  assumes "1 \<le> unat rng" "unat rng \<le> 2 ^ 30 - 2" "\<not> (2 ^ 24 - 1 \<le> unat rng \<and> unat rng \<le> 2 ^ 25 - 2)"
    and "k * unat rng < 2 ^ 32"
  shows "\<exists>rc bs rc'. rcycle_init rng seed = Inr rc \<and>
    rcycle_generates (k * unat rng) rc = Some (Inr (concat bs, rc')) \<and> length bs = k \<and>
    (\<forall>b\<in>set bs. distinct b \<and> set b = {v. v < rng})"
  using init_cycles [OF assms] .

theorem rcycle_permutes_witness:
  "\<exists>rc bs rc'. rcycle_init 5 1 = Inr rc \<and> rcycle_generates 15 rc = Some (Inr (concat bs, rc')) \<and> length bs = 3 \<and>
    (\<forall>b\<in>set bs. distinct b \<and> set b = {v. v < 5})"
  using rcycle_permutes [of 5 3 1] by simp

text \<open>
  C33: the taps of the 25 bit register are not those of a maximal one.  For every range that uses it
  the generator never gives more than 8322945 different numbers in a cycle, fewer than the range.
\<close>

theorem rcycle_25_bits_repeats:
  assumes "2 ^ 24 - 1 \<le> unat rng" "unat rng \<le> 2 ^ 25 - 2"
  shows "\<exists>rc us rc'. rcycle_init rng seed = Inr rc \<and> rcycle_generates (unat rng) rc = Some (Inr (us, rc')) \<and>
    card (set us) \<le> 8322945 \<and> 8322945 < length us"
proof -
  obtain rc where rc: "rcycle_init rng seed = Inr rc" "rc_wf 25 rc" "rc_range rc = rng" "rc_count rc = 0"
    using init_wf [of 25 rng seed] assms by auto
  obtain us rc' where us: "rcycle_generates (unat rng) rc = Some (Inr (us, rc'))" "length us = unat rng"
    using generates_returns [OF rc(2)] by blast
  have "set us \<subseteq> range (\<lambda>j. rcycle_value (rc_flip rc)
      ((lfsr_step (lfsr_taps_table ! 25) ^^ j) (lfsr_state (rc_lfsr rc))) - 1)"
    using generates_in_orbit [OF rc(2) _ _ us(1)] rc(3,4) assms by simp
  then have "card (set us) \<le> card (range (\<lambda>j. rcycle_value (rc_flip rc)
      ((lfsr_step (lfsr_taps_table ! 25) ^^ j) (lfsr_state (rc_lfsr rc))) - 1))" by (rule card_mono [rotated]) simp
  also have "\<dots> \<le> 8322945"
    using row25_orbit [of "lfsr_state (rc_lfsr rc)" "\<lambda>s. rcycle_value (rc_flip rc) s - 1"] rc(2) by (simp add: rc_wf_def)
  finally show ?thesis using rc(1) us assms by auto
qed

theorem rcycle_25_bits_repeats_witness:
  "\<exists>rc us rc'. rcycle_init 20000000 1 = Inr rc \<and> rcycle_generates 20000000 rc = Some (Inr (us, rc')) \<and>
    card (set us) \<le> 8322945 \<and> 8322945 < length us"
  using rcycle_25_bits_repeats [of 20000000 1] by simp

end
