(* ===== verification/SbalanceSpec.thy ===== *)
theory SbalanceSpec
  imports Sbalance RcycleSpec
begin

text \<open>
  Correctness of the load balancer.  The locale \<open>sb_rounds\<close> is the contract of a strategy
  (\<open>struct sb_strategy\<close>): after \<open>strat_reinit\<close> the next \<open>n\<close> calls of \<open>strat_next\<close> name every service
  once.  What a connection tries is proved once from it, and the sequential and the cycling
  strategy are shown to keep it.
\<close>

locale sb_rounds =
  fixes st :: sbalance_strat and n :: nat and round :: "nat list \<Rightarrow> sbalance_connection \<Rightarrow> bool"
  assumes reinit_round:
      "\<exists>is sc'. strat_reinit st n draw sc = Inr sc' \<and> round is sc' \<and> distinct is \<and> set is = {..<n} \<and>
        sc_first sc' = int n \<and> sc_retries sc' = sc_retries sc"
    and next_round:
      "round (i # is) sc \<Longrightarrow> \<exists>sc'. strat_next st sc = Inr (int i, sc') \<and> round is sc' \<and>
        sc_first sc' = sc_first sc \<and> sc_retries sc' = sc_retries sc"
    and round_first: "round is (sc\<lparr>sc_first := f\<rparr>) = round is sc"
    and round_last: "round is (sc\<lparr>sc_last := l\<rparr>) = round is sc"
begin

text \<open>A connection that still has the services \<open>is\<close> to try in this round and \<open>k\<close> rounds after it.\<close>

definition conn_at :: "nat list \<Rightarrow> nat \<Rightarrow> sbalance_connection \<Rightarrow> bool" where
  "conn_at is k sc \<longleftrightarrow> round is sc \<and> sc_first sc = int (length is) \<and> sc_retries sc = int k \<and> set is \<subseteq> {..<n}"

definition pool_of :: "'a list \<Rightarrow> 'a sbalance \<Rightarrow> bool" where
  "pool_of dat sb \<longleftrightarrow> sb_strat sb = st \<and> map sv_data (sb_service sb) = dat \<and> length dat = n"

lemma pool_of_nserv: "pool_of dat sb \<Longrightarrow> sb_nserv sb = n"
  by (auto simp add: pool_of_def)

lemma account_pool:
  assumes "pool_of dat sb" "status = SBCS_START \<or> sc_last sc < n"
  shows "\<exists>sb'. account_failure sb sc status = Inr sb' \<and> pool_of dat sb'"
proof (cases "status = SBCS_START")
  case False
  then have "sc_last sc < sb_nserv sb" using assms pool_of_nserv by metis
  moreover from this have "(map sv_data (sb_service sb))[sc_last sc := sv_data (sb_service sb ! sc_last sc)] = map sv_data (sb_service sb)"
    using list_update_id [of "map sv_data (sb_service sb)" "sc_last sc"] by simp
  ultimately show ?thesis
    using assms False by (auto simp add: account_failure_def Let_def pool_of_def map_update)
qed (use assms in \<open>simp add: account_failure_def\<close>)

lemma try_in_round:
  assumes "conn_at (i # is) k sc" "pool_of dat sb"
  shows "\<exists>sc'. try_next sb sc = Inr (Some (dat ! i), sb, sc') \<and> conn_at is k sc' \<and> sc_last sc' = i"
proof -
  have i: "i < n" "i < sb_nserv sb" using assms pool_of_nserv by (auto simp add: conn_at_def)
  obtain sc' where "strat_next st (sc\<lparr>sc_first := sc_first sc - 1\<rparr>) = Inr (int i, sc')" "round is sc'"
    "sc_first sc' = sc_first sc - 1" "sc_retries sc' = sc_retries sc"
    using next_round [of i "is" "sc\<lparr>sc_first := sc_first sc - 1\<rparr>"] assms(1) round_first unfolding conn_at_def by auto
  moreover have "sv_data (sb_service sb ! i) = dat ! i" using assms(2) i by (auto simp add: pool_of_def)
  ultimately show ?thesis
    using assms i round_last by (auto simp add: try_next_def pool_of_def conn_at_def)
qed

lemma next_in_round:
  assumes "conn_at (i # is) k sc" "pool_of dat sb" "status = SBCS_START \<or> sc_last sc < n"
  shows "\<exists>sb' sc'. sbalance_conn_next sb sc status draw = Inr (Some (dat ! i), sb', sc') \<and>
    conn_at is k sc' \<and> pool_of dat sb' \<and> sc_last sc' = i"
proof -
  have "sb_nserv sb \<noteq> 0" "sc_first sc \<noteq> 0" using assms(1) pool_of_nserv [OF assms(2)] by (auto simp add: conn_at_def)
  moreover obtain sb' where sb': "account_failure sb sc status = Inr sb'" "pool_of dat sb'"
    using account_pool [OF assms(2,3)] by blast
  ultimately show ?thesis using try_in_round [OF assms(1) sb'(2)] sb'(2) by (auto simp add: sbalance_conn_next_def)
qed

lemma next_starts_round:
  assumes "conn_at [] (Suc k) sc" "pool_of dat sb" "status = SBCS_START \<or> sc_last sc < n" "0 < n"
  shows "\<exists>i is sb' sc'. sbalance_conn_next sb sc status draw = Inr (Some (dat ! i), sb', sc') \<and>
    conn_at is k sc' \<and> pool_of dat sb' \<and> sc_last sc' = i \<and> distinct (i # is) \<and> set (i # is) = {..<n}"
proof -
  obtain sb' where sb': "account_failure sb sc status = Inr sb'" "pool_of dat sb'"
    using account_pool [OF assms(2,3)] by blast
  obtain is' sc1 where sc1: "strat_reinit st n draw (sc\<lparr>sc_retries := sc_retries sc - 1\<rparr>) = Inr sc1" "round is' sc1"
    "distinct is'" "set is' = {..<n}" "sc_first sc1 = int n" "sc_retries sc1 = sc_retries sc - 1"
    using reinit_round [of draw "sc\<lparr>sc_retries := sc_retries sc - 1\<rparr>"] by auto
  obtain i "is" where is': "is' = i # is" using sc1(4) assms(4) by (cases is') auto
  have "length is' = n" using distinct_card [OF sc1(3)] sc1(4) by simp
  then have "conn_at (i # is) k sc1" using sc1 assms(1) by (auto simp add: conn_at_def is')
  then obtain sc' where "try_next sb' sc1 = Inr (Some (dat ! i), sb', sc')" "conn_at is k sc'" "sc_last sc' = i"
    using try_in_round [OF _ sb'(2)] by blast
  then show ?thesis
    using sb' sc1 is' assms pool_of_nserv [OF assms(2)] pool_of_nserv [OF sb'(2)]
    by (auto simp add: sbalance_conn_next_def conn_at_def pool_of_def)
qed

lemma next_exhausted:
  assumes "conn_at [] 0 sc" "pool_of dat sb" "status = SBCS_START \<or> sc_last sc < n" "0 < n"
  shows "\<exists>sb' sc'. sbalance_conn_next sb sc status draw = Inr (None, sb', sc') \<and> pool_of dat sb'"
  using account_pool [OF assms(2,3)] assms pool_of_nserv [OF assms(2)]
  by (auto simp add: sbalance_conn_next_def conn_at_def)

lemma nexts_rounds:
  assumes "conn_at is k sc" "pool_of dat sb" "0 < n" "length calls = length is + k * n + 1"
    and "fst (hd calls) = SBCS_START \<or> sc_last sc < n"
  shows "\<exists>bs sb' sc'. sbalance_conn_nexts calls sb sc =
      Inr (map (\<lambda>i. Some (dat ! i)) (is @ concat bs) @ [None], sb', sc') \<and>
    length bs = k \<and> (\<forall>b\<in>set bs. distinct b \<and> set b = {..<n}) \<and> pool_of dat sb'"
  using assms
proof (induction calls arbitrary: "is" k sc sb)
  case (Cons c calls)
  obtain status draw where c: "c = (status, draw)" by fastforce
  have st: "status = SBCS_START \<or> sc_last sc < n" using Cons.prems(5) c by simp
  consider (exhausted) "is = []" "k = 0" | (start) k' where "is = []" "k = Suc k'" | (round) i js where "is = i # js"
    by (cases "is"; cases k) auto
  then show ?case
  proof cases
    case exhausted
    then obtain sb1 sc1 where "sbalance_conn_next sb sc status draw = Inr (None, sb1, sc1)" "pool_of dat sb1"
      using next_exhausted [OF _ Cons.prems(2) st Cons.prems(3)] Cons.prems(1) by blast
    then show ?thesis using exhausted Cons.prems(4) c by auto
  next
    case start
    obtain i js sb1 sc1 where 1: "sbalance_conn_next sb sc status draw = Inr (Some (dat ! i), sb1, sc1)"
      "conn_at js k' sc1" "pool_of dat sb1" "sc_last sc1 = i" "distinct (i # js)" "set (i # js) = {..<n}"
      using next_starts_round [OF _ Cons.prems(2) st Cons.prems(3)] Cons.prems(1) start by metis
    have i: "sc_last sc1 < n" using 1(4,6) by auto
    have "length (i # js) = n" using distinct_card [OF 1(5)] 1(6) by simp
    then have "length calls = length js + k' * n + 1" using Cons.prems(4) start by simp
    then obtain bs sb2 sc2 where "sbalance_conn_nexts calls sb1 sc1 =
        Inr (map (\<lambda>i. Some (dat ! i)) (js @ concat bs) @ [None], sb2, sc2)"
      "length bs = k'" "\<forall>b\<in>set bs. distinct b \<and> set b = {..<n}" "pool_of dat sb2"
      using Cons.IH [OF 1(2,3) Cons.prems(3)] i by blast
    then show ?thesis using 1 start c by (intro exI [of _ "(i # js) # bs"]) auto
  next
    case round
    obtain sb1 sc1 where 1: "sbalance_conn_next sb sc status draw = Inr (Some (dat ! i), sb1, sc1)"
      "conn_at js k sc1" "pool_of dat sb1" "sc_last sc1 = i"
      using next_in_round [OF _ Cons.prems(2) st] Cons.prems(1) round by blast
    have "sc_last sc1 < n" using 1(4) Cons.prems(1) round by (auto simp add: conn_at_def)
    moreover have "length calls = length js + k * n + 1" using Cons.prems(4) round by simp
    ultimately obtain bs sb2 sc2 where "sbalance_conn_nexts calls sb1 sc1 =
        Inr (map (\<lambda>i. Some (dat ! i)) (js @ concat bs) @ [None], sb2, sc2)"
      "length bs = k" "\<forall>b\<in>set bs. distinct b \<and> set b = {..<n}" "pool_of dat sb2"
      using Cons.IH [OF 1(2,3) Cons.prems(3)] by blast
    then show ?thesis using 1 round c by (intro exI [of _ bs]) auto
  qed
qed simp

end

subsection \<open>The strategies keep the contract\<close>

definition seq_round :: "nat \<Rightarrow> nat list \<Rightarrow> sbalance_connection \<Rightarrow> bool" where
  "seq_round n is sc \<longleftrightarrow> (\<exists>k. sc_offs sc = int k \<and> is = [k..<n])"

interpretation seq: sb_rounds ST_SEQ n "seq_round n" for n
proof
  fix draw sc
  show "\<exists>is sc'. strat_reinit ST_SEQ n draw sc = Inr sc' \<and> seq_round n is sc' \<and> distinct is \<and> set is = {..<n} \<and>
      sc_first sc' = int n \<and> sc_retries sc' = sc_retries sc"
    by (auto simp add: strat_reinit_def sbalance_seq_reinit_def seq_round_def intro: exI [of _ "[0..<n]"])
next
  fix i "is" sc assume "seq_round n (i # is) sc"
  then obtain k where "sc_offs sc = int k" "[k..<n] = i # is" by (auto simp add: seq_round_def)
  then have "sc_offs sc = int i" "is = [Suc i..<n]" by (auto simp add: upt_eq_Cons_conv)
  then show "\<exists>sc'. strat_next ST_SEQ sc = Inr (int i, sc') \<and> seq_round n is sc' \<and> sc_first sc' = sc_first sc \<and>
      sc_retries sc' = sc_retries sc"
    by (auto simp add: strat_next_def sbalance_seq_next_def seq_round_def intro: exI [of _ "Suc i"])
qed (simp_all add: seq_round_def)

text \<open>
  The cycling strategies: the one service picked at first, or what the generator still gives of its
  cycle.
\<close>

definition cycle_round :: "nat \<Rightarrow> nat list \<Rightarrow> sbalance_connection \<Rightarrow> bool" where
  "cycle_round n is sc \<longleftrightarrow> is = [] \<or> (\<exists>i. sc_offs sc = int i \<and> is = [i]) \<or>
    sc_offs sc = -1 \<and> (\<exists>rc vs rc'. sc_rc sc = Some rc \<and> rcycle_generates (length is) rc = Some (Inr (vs, rc')) \<and>
      is = map unat vs \<and> (\<forall>v\<in>set vs. unat v < n))"

lemma sint_small:
  assumes "unat v < 2 ^ 31"
  shows "sint v = int (unat (v :: uint32))"
proof -
  have "int (unat v) < int (2 ^ 31)" using assms by (simp only: of_nat_less_iff)
  then show ?thesis using signed_small [of "uint v"] by (simp add: sint_uint)
qed

lemma cycle_next:
  assumes n: "n < 2 ^ 31" and round: "cycle_round n (i # is) sc"
  shows "\<exists>sc'. sbalance_rcycle_next sc = Inr (int i, sc') \<and> cycle_round n is sc' \<and>
    sc_first sc' = sc_first sc \<and> sc_retries sc' = sc_retries sc"
proof (cases "sc_offs sc = -1")
  case True
  then obtain rc vs rc' where rc: "sc_rc sc = Some rc" "rcycle_generates (Suc (length is)) rc = Some (Inr (vs, rc'))"
    "i # is = map unat vs" "\<forall>v\<in>set vs. unat v < n" using round by (auto simp add: cycle_round_def)
  then obtain v vs' rc1 where gen: "vs = v # vs'" "rcycle_generate rc = Some (Inr (v, rc1))"
    "rcycle_generates (length is) rc1 = Some (Inr (vs', rc'))"
    by (auto split: option.splits sum.splits)
  then have "sint v = int i" using rc n sint_small [of v] by simp
  then show ?thesis using True rc gen by (auto simp add: sbalance_rcycle_next_def cycle_round_def)
next
  case False
  then show ?thesis using round by (auto simp add: sbalance_rcycle_next_def cycle_round_def)
qed

lemma cycle_rounds:
  assumes st: "st \<noteq> ST_SEQ" and n: "1 \<le> n" "n \<le> 2 ^ 30 - 2" "\<not> (2 ^ 24 - 1 \<le> n \<and> n \<le> 2 ^ 25 - 2)"
  shows "sb_rounds st n (cycle_round n)"
proof
  fix draw sc
  have u: "unat (of_nat n :: uint32) = n" using n(2) by (simp add: unat_of_nat take_bit_nat_eq_self)
  obtain rc b rc' where rc: "rcycle_init (of_nat n) draw = Inr rc" "rcycle_generates n rc = Some (Inr (b, rc'))"
    "distinct b" "set b = {v. v < of_nat n}"
    using init_cycles [of "of_nat n" 1 draw] n unfolding u by (auto simp add: length_Suc_conv)
  have set: "set (map unat b) = {..<n}"
  proof (intro set_eqI iffI)
    fix i assume "i \<in> {..<n}"
    then have "of_nat i \<in> set b" "unat (of_nat i :: uint32) = i"
      using n(2) u by (auto simp add: rc(4) word_less_nat_alt unat_of_nat take_bit_nat_eq_self)
    then show "i \<in> set (map unat b)" by force
  qed (auto simp add: rc(4) word_less_nat_alt u)
  have dist: "distinct (map unat b)" using rc(3) by (simp add: distinct_map inj_on_def word_unat_eq_iff)
  then have "length b = n" using distinct_card [OF dist] set by simp
  then show "\<exists>is sc'. strat_reinit st n draw sc = Inr sc' \<and> cycle_round n is sc' \<and> distinct is \<and> set is = {..<n} \<and>
      sc_first sc' = int n \<and> sc_retries sc' = sc_retries sc"
    using st rc(1,2) set dist
    by (intro exI [of _ "map unat b"]) (auto simp add: strat_reinit_def sbalance_rand_reinit_def cycle_round_def split: sbalance_strat.split)
next
  fix i "is" sc assume "cycle_round n (i # is) sc"
  then show "\<exists>sc'. strat_next st sc = Inr (int i, sc') \<and> cycle_round n is sc' \<and> sc_first sc' = sc_first sc \<and>
      sc_retries sc' = sc_retries sc"
    using cycle_next [of n i "is" sc] n(2) st by (cases st) (auto simp add: strat_next_def)
qed (simp_all add: cycle_round_def)

lemma hash_pick_bound:
  "pick < m \<Longrightarrow> i + length svs \<le> m \<Longrightarrow> hash_pick ops hash svs i tw pick < m"
  by (induction ops hash svs i tw pick rule: hash_pick.induct) (auto simp add: Let_def)

subsection \<open>A new connection\<close>

text \<open>
  A connection just made keeps the contract of its strategy: it starts with a round, when it is
  sequential, or with one picked service, and has the retries of the pool before it.
\<close>

lemma conn_new_rounds:
  assumes n: "1 \<le> sb_nserv sb" "sb_nserv sb \<le> 2 ^ 30 - 2" "\<not> (2 ^ 24 - 1 \<le> sb_nserv sb \<and> sb_nserv sb \<le> 2 ^ 25 - 2)"
    and retries: "unat (sb_retries sb) < 2 ^ 31"
    and new: "sbalance_conn_new ops sb hash draw sc0 = (sb1, sc)"
  shows "\<exists>R is. sb_rounds (sb_strat sb) (sb_nserv sb) R \<and> sb_rounds.conn_at (sb_nserv sb) R is (unat (sb_retries sb)) sc \<and>
    sb_rounds.pool_of (sb_strat sb) (sb_nserv sb) (map sv_data (sb_service sb)) sb1 \<and>
    (if sb_strat sb = ST_SEQ then is = [0..<sb_nserv sb] else \<exists>p < sb_nserv sb. is = [p])"
proof (cases "sb_strat sb = ST_SEQ")
  let ?n = "sb_nserv sb"
  have sb1: "sb1 = sbalance_retain sb" "sc = strat_init ops sb1 hash draw sc0"
    using new by (auto simp add: sbalance_conn_new_def Let_def)
  {
    case True
    have "seq.conn_at ?n [0..<?n] (unat (sb_retries sb)) sc"
      using True sint_small [OF retries]
      by (auto simp add: seq.conn_at_def sb1 strat_init_def sbalance_retain_def sbalance_seq_init_def
          sbalance_seq_reinit_def seq_round_def)
    moreover have "seq.pool_of ?n (map sv_data (sb_service sb)) sb1"
      using True by (simp add: seq.pool_of_def sb1 sbalance_retain_def)
    ultimately show ?thesis using True seq.sb_rounds_axioms by auto
  next
    case False
    have cyc: "sb_rounds (sb_strat sb) ?n (cycle_round ?n)" using cycle_rounds [OF False n] .
    obtain h where sc: "sc = sbalance_hash_init ops sb1 h sc0"
      using False sb1 by (cases "sb_strat sb") (auto simp add: strat_init_def sbalance_rand_init_def sbalance_retain_def)
    define p where "p = hash_pick ops h (sb_service sb1) 0 (d_zero ops) 0"
    have p: "p < ?n" unfolding p_def using n(1) by (intro hash_pick_bound) (auto simp add: sb1 sbalance_retain_def)
    have "sb_rounds.conn_at ?n (cycle_round ?n) [p] (unat (sb_retries sb)) sc"
      using sint_small [OF retries] p unfolding sb_rounds.conn_at_def [OF cyc]
      by (simp add: sc sbalance_hash_init_def p_def cycle_round_def sb1 sbalance_retain_def)
    moreover have "sb_rounds.pool_of (sb_strat sb) ?n (map sv_data (sb_service sb)) sb1"
      unfolding sb_rounds.pool_of_def [OF cyc] by (simp add: sb1 sbalance_retain_def)
    ultimately show ?thesis using False cyc p by auto
  }
qed

text \<open>The same schedule as the services picked at first and the full rounds.\<close>

lemma schedule_rounds:
  assumes "if seq then is = [0..<n] else \<exists>p<n. is = [p]" "length bs = k" "\<forall>b\<in>set bs. distinct b \<and> set b = {..<n}"
  shows "\<exists>first bs'. is @ concat bs = first @ concat bs' \<and> length first = (if seq then 0 else 1) \<and> set first \<subseteq> {..<n} \<and>
    length bs' = (if seq then k + 1 else k) \<and> (\<forall>b\<in>set bs'. distinct b \<and> set b = {..<n})"
proof (cases seq)
  case True
  then show ?thesis using assms by (intro exI [of _ "[]"] exI [of _ "[0..<n] # bs"]) (simp add: lessThan_atLeast0)
next
  case False
  then show ?thesis using assms by (intro exI [of _ "is"] exI [of _ bs]) auto
qed

subsection \<open>Properties\<close>

text \<open>
  C34: what a connection tries. For pools of 1 to $2^{30} - 2$ services, except those of $2^{24} - 1$ to
  $2^{25} - 2$ (where the generator of the rounds repeats numbers), and for fewer than $2^{31}$ retries, a
  sequential connection is given every service once in each of \<open>sb_retries + 1\<close> rounds; a random or
  hashed one is given one picked service and then every service once in each of \<open>sb_retries\<close> rounds;
  the call after that returns NULL. The random draws and the statuses that the caller passes are
  arbitrary: total failures do not shorten the rounds.
\<close>

theorem sbalance_tries_every_service:
  assumes n: "1 \<le> sb_nserv sb" "sb_nserv sb \<le> 2 ^ 30 - 2" "\<not> (2 ^ 24 - 1 \<le> sb_nserv sb \<and> sb_nserv sb \<le> 2 ^ 25 - 2)"
    and retries: "unat (sb_retries sb) < 2 ^ 31"
    and new: "sbalance_conn_new ops sb hash draw sc0 = (sb1, sc)"
    and rounds: "rounds = (if sb_strat sb = ST_SEQ then unat (sb_retries sb) + 1 else unat (sb_retries sb))"
    and picks: "picks = (if sb_strat sb = ST_SEQ then 0 else 1)"
    and calls: "length calls = picks + rounds * sb_nserv sb + 1" "fst (hd calls) = SBCS_START"
  shows "\<exists>first bs sb2 sc2. sbalance_conn_nexts calls sb1 sc =
      Inr (map (\<lambda>i. Some (sv_data (sb_service sb ! i))) (first @ concat bs) @ [None], sb2, sc2) \<and>
    length first = picks \<and> set first \<subseteq> {..<sb_nserv sb} \<and>
    length bs = rounds \<and> (\<forall>b\<in>set bs. distinct b \<and> set b = {..<sb_nserv sb})"
proof -
  let ?n = "sb_nserv sb" and ?R = "unat (sb_retries sb)"
  define dat where "dat = map sv_data (sb_service sb)"
  obtain R "is" where r: "sb_rounds (sb_strat sb) ?n R" and at: "sb_rounds.conn_at ?n R is ?R sc" "sb_rounds.pool_of (sb_strat sb) ?n dat sb1"
    and "is": "if sb_strat sb = ST_SEQ then is = [0..<?n] else \<exists>p<?n. is = [p]"
    using conn_new_rounds [OF n retries new] unfolding dat_def by blast
  have len: "length calls = length is + ?R * ?n + 1" using calls(1) "is" rounds picks by (auto split: if_splits)
  have pos: "0 < ?n" and hd: "fst (hd calls) = SBCS_START \<or> sc_last sc < ?n" using n(1) calls(2) by (linarith, blast)
  obtain bs sb2 sc2 where run: "sbalance_conn_nexts calls sb1 sc = Inr (map (\<lambda>i. Some (dat ! i)) (is @ concat bs) @ [None], sb2, sc2)"
    and bs: "length bs = ?R" "\<forall>b\<in>set bs. distinct b \<and> set b = {..<?n}"
    using sb_rounds.nexts_rounds [OF r at pos len hd] by blast
  obtain first bs' where eq: "is @ concat bs = first @ concat bs'" and first: "length first = picks" "set first \<subseteq> {..<?n}"
    and bs': "length bs' = rounds" "\<forall>b\<in>set bs'. distinct b \<and> set b = {..<?n}"
    using schedule_rounds [OF "is" bs] rounds picks by auto
  have "map (\<lambda>i. Some (dat ! i)) (first @ concat bs') = map (\<lambda>i. Some (sv_data (sb_service sb ! i))) (first @ concat bs')"
    using first(2) bs'(2) by (intro map_cong) (auto simp add: dat_def split: if_splits)
  then have "sbalance_conn_nexts calls sb1 sc =
      Inr (map (\<lambda>i. Some (sv_data (sb_service sb ! i))) (first @ concat bs') @ [None], sb2, sc2)"
    using run unfolding eq by simp
  then show ?thesis using first bs' by blast
qed

text \<open>A pool of two services with one retry, picked by hash, with integer weights out of 1000.\<close>

definition small_ops :: "nat double_ops" where
  "small_ops = \<lparr>d_zero = 0, d_recip = \<lambda>c. 1000 div unat c, d_add = (+), d_div = \<lambda>a b. 1000 * a div b,
    d_gt = \<lambda>a b. b < a, d_rand48 = \<lambda>h i. (unat h + 37 * i) mod 1000\<rparr>"

definition small_pool :: "nat sbalance" where
  "small_pool = sbalance_add_serv (sbalance_add_serv (sbalance_create 1 1000 100 ST_HASH) 10 4) 5 9"

definition small_conn :: sbalance_connection where
  "small_conn = \<lparr>sc_retries = 0, sc_first = 0, sc_rc = None, sc_offs = 0, sc_last = 0\<rparr>"

theorem sbalance_tries_every_service_witness:
  "\<exists>first bs sb2 sc2. sbalance_conn_nexts [(SBCS_START, 1), (SBCS_FAIL, 2), (SBCS_TEMPFAIL, 3), (SBCS_FAIL, 4)]
      (fst (sbalance_conn_new small_ops small_pool 12 5 small_conn)) (snd (sbalance_conn_new small_ops small_pool 12 5 small_conn)) =
      Inr (map (\<lambda>i. Some (sv_data (sb_service small_pool ! i))) (first @ concat bs) @ [None], sb2, sc2) \<and>
    length first = 1 \<and> set first \<subseteq> {..<2} \<and> length bs = 1 \<and> (\<forall>b\<in>set bs. distinct b \<and> set b = {..<2})"
proof -
  have pool: "sb_nserv small_pool = 2" "sb_retries small_pool = 1" "sb_strat small_pool = ST_HASH"
    by (simp_all add: small_pool_def sbalance_add_serv_def sbalance_create_def)
  show ?thesis
    using sbalance_tries_every_service [of small_pool small_ops 12 5 small_conn
        "fst (sbalance_conn_new small_ops small_pool 12 5 small_conn)"
        "snd (sbalance_conn_new small_ops small_pool 12 5 small_conn)" 1 1
        "[(SBCS_START, 1), (SBCS_FAIL, 2), (SBCS_TEMPFAIL, 3), (SBCS_FAIL, 4)]"]
    unfolding pool by simp
qed

end
