(* ===== verification/FdPoolGet.thy ===== *)
theory FdPoolGet
  imports FdPoolConn SbalanceSpec
begin

text \<open>
  What \<open>fd_pool_get\<close> tries before it gives up, from the contract of the load balancer: the ports of a
  node in the order of the keys asked for, and the nodes in the rounds of the balancer.
\<close>

subsection \<open>The ports of a node\<close>

text \<open>The ports with the keys of \<open>pk\<close>, first all with the first key, then all with the second, and so on.\<close>

function matching :: "cstring list \<Rightarrow> cstring \<Rightarrow> nat list" where
  "matching keys pk =
    (if pk = [] then []
     else
       let key = takeWhile (\<lambda>c. c \<noteq> CHR '','') pk
       in filter (\<lambda>j. keys ! j = key) [0..<length keys] @ matching keys (skip_key pk))"
  by pat_completeness auto
termination
  by (relation "measure (\<lambda>(keys, pk). length pk)") (auto simp: skip_key_shorter)

declare matching.simps [simp del]

lemma strncmp_key:
  "nul_free k \<Longrightarrow> nul_free pk \<Longrightarrow> pkl \<le> length pk \<Longrightarrow>
   strncmp pkl k pk = 0 \<and> length k = pkl \<longleftrightarrow> k = take pkl pk"
proof (induction pkl k pk rule: strncmp.induct)
qed (auto split: if_splits)

lemma port_matches_key:
  assumes "nul_free (pt_port_key p)" "nul_free pk"
  shows "port_matches (length (takeWhile (\<lambda>c. c \<noteq> CHR '','') pk)) pk p \<longleftrightarrow>
    pt_port_key p = takeWhile (\<lambda>c. c \<noteq> CHR '','') pk"
proof -
  have "take (length (takeWhile (\<lambda>c. c \<noteq> CHR '','') pk)) pk = takeWhile (\<lambda>c. c \<noteq> CHR '','') pk"
    by (metis append_eq_conv_conj takeWhile_dropWhile_id)
  then show ?thesis
    using strncmp_key [OF assms length_takeWhile_le] by (simp add: port_matches_def)
qed

text \<open>What is left of the ports at a position of the walk.\<close>

definition ports_left :: "cstring list \<Rightarrow> cstring \<Rightarrow> nat option \<Rightarrow> nat list" where
  "ports_left keys pk port =
    (if pk = [] then []
     else filter (\<lambda>j. keys ! j = takeWhile (\<lambda>c. c \<noteq> CHR '','') pk)
            [(case port of Some i \<Rightarrow> i + 1 | None \<Rightarrow> 0)..<length keys] @ matching keys (skip_key pk))"

lemma ports_left_None: "ports_left keys pk None = matching keys pk"
  by (subst matching.simps) (simp add: ports_left_def Let_def)

lemma find_first: "find P xs = (case filter P xs of [] \<Rightarrow> None | x # _ \<Rightarrow> Some x)"
  by (induction xs) auto

lemma filter_upt_Cons:
  assumes "filter P [a..<n] = j # js"
  shows "js = filter P [j + 1..<n]"
  using assms
proof (induction "n - a" arbitrary: a)
  case 0
  then show ?case by simp
next
  case (Suc d)
  then have "a < n" by simp
  then have "filter P [a..<n] = (if P a then a # filter P [Suc a..<n] else filter P [Suc a..<n])"
    by (simp add: upt_conv_Cons)
  then show ?case using Suc.prems Suc.hyps(1) [of "Suc a"] Suc.hyps(2) by (auto split: if_splits)
qed

lemma nul_free_skip_key: "nul_free pk \<Longrightarrow> nul_free (skip_key pk)"
  by (auto simp: skip_key_def split: list.split dest: set_dropWhileD intro!: nul_free_subset [of pk])
    (metis list.set_intros(2) set_dropWhileD)

lemma move_port_loop_left:
  assumes "\<forall>p\<in>set ports. nul_free (pt_port_key p)" "nul_free pk" "pk = [] \<longrightarrow> port = None"
  shows "case ports_left (map pt_port_key ports) pk port of
      [] \<Rightarrow> move_port_loop ports pk port = (False, None, [])
    | j # js \<Rightarrow> \<exists>pk'. move_port_loop ports pk port = (True, Some j, pk') \<and> j < length ports \<and> nul_free pk' \<and> pk' \<noteq> [] \<and>
        ports_left (map pt_port_key ports) pk' (Some j) = js"
  using assms
proof (induction ports pk port rule: move_port_loop.induct)
  case (1 ports pk port)
  let ?keys = "map pt_port_key ports" and ?key = "takeWhile (\<lambda>c. c \<noteq> CHR '','') pk"
    and ?start = "case port of Some i \<Rightarrow> i + 1 | None \<Rightarrow> 0"
  show ?case
  proof (cases "pk = []")
    case True
    then show ?thesis using "1.prems"(3) by (simp add: ports_left_def move_port_loop.simps)
  next
    case False
    have eq: "filter (\<lambda>j. port_matches (length ?key) pk (ports ! j)) [?start..<length ports] =
        filter (\<lambda>j. ?keys ! j = ?key) [?start..<length ports]"
      using "1.prems" port_matches_key by (intro filter_cong) auto
    have find: "find (\<lambda>j. port_matches (length ?key) pk (ports ! j)) [?start..<length ports] =
        (case filter (\<lambda>j. ?keys ! j = ?key) [?start..<length ports] of [] \<Rightarrow> None | x # _ \<Rightarrow> Some x)"
      unfolding find_first eq ..
    show ?thesis
    proof (cases "filter (\<lambda>j. ?keys ! j = ?key) [?start..<length ports]")
      case Nil
      then have none: "find (\<lambda>j. port_matches (length ?key) pk (ports ! j)) [?start..<length ports] = None" using find by simp
      have left: "ports_left ?keys pk port = ports_left ?keys (skip_key pk) None"
        using Nil False by (simp add: ports_left_None) (simp add: ports_left_def)
      have step: "move_port_loop ports pk port = move_port_loop ports (skip_key pk) None"
        using none False by (subst move_port_loop.simps) (simp add: Let_def)
      show ?thesis
        unfolding left step
        using "1.IH" [OF False refl refl none] "1.prems" nul_free_skip_key by simp
    next
      case (Cons j js)
      then have "j \<in> set (filter (\<lambda>j. ?keys ! j = ?key) [?start..<length ports])" by simp
      then have "j < length ports" by simp
      moreover have "js = filter (\<lambda>j. ?keys ! j = ?key) [j + 1..<length ports]" using filter_upt_Cons [OF Cons] .
      ultimately show ?thesis
        using Cons False find "1.prems" by (subst move_port_loop.simps) (simp add: ports_left_def Let_def)
    qed
  qed
qed

subsection \<open>An attempt\<close>

definition pool_keys :: "fd_pool \<Rightarrow> nat \<Rightarrow> cstring list option" where
  "pool_keys pool nid = map_option (\<lambda>n. map pt_port_key (nd_ports n)) (pnode_at pool nid)"

definition get_after :: "'d net_env \<Rightarrow> fd_pool \<Rightarrow> fd_pool_conn \<Rightarrow> (int \<times> fd_pool \<times> fd_pool_conn) option" where
  "get_after env pool conn =
    (case fc_port conn of
       None \<Rightarrow> Some (-1, pool, conn)
     | Some p \<Rightarrow>
         do {
           (r, pool) \<leftarrow> try_stored env (recycle_entry pool conn) conn p;
           (case r of
              Some e \<Rightarrow> Some (fe_fd e, pool, conn\<lparr>fc_entry := Some e, fc_active_fd := True\<rparr>)
            | None \<Rightarrow>
                do {
                  (fd, pool) \<leftarrow> try_connect env pool conn p;
                  (case fd of
                     Some fd \<Rightarrow> Some (fd, pool, conn\<lparr>fc_entry := None, fc_active_fd := True\<rparr>)
                   | None \<Rightarrow> get_loop env pool (conn\<lparr>fc_entry := None\<rparr>) SBCS_FAIL)
                })
         })"

lemma get_loop_after:
  "get_loop env pool conn status = do { (pool, conn) \<leftarrow> get_move env pool conn status; get_after env pool conn }"
  unfolding get_after_def by (subst get_loop.simps) (rule refl)

lemma pnode_at_set_node:
  "pnode_at pool nid \<noteq> None \<Longrightarrow> pnode_at (set_node nid n pool) i = (if i = nid then n else pnode_at pool i)"
  by (auto simp: pnode_at_def mem_at_def set_node_def split: if_splits)

lemma pnode_at_simps [simp]:
  "pnode_at (pool\<lparr>free_entries := a\<rparr>) = pnode_at pool" "pnode_at (pool\<lparr>pm_closed := c\<rparr>) = pnode_at pool"
  "pnode_at (pool\<lparr>pm_tried := t\<rparr>) = pnode_at pool" "pnode_at (pool\<lparr>pm_draws := d\<rparr>) = pnode_at pool"
  "pnode_at (set_sb b sb pool) = pnode_at pool" "pnode_at (pool\<lparr>pm_sbs := m\<rparr>) = pnode_at pool"
  "pnode_at (pool\<lparr>pm_srvs := l\<rparr>) = pnode_at pool" "pnode_at (pool\<lparr>pm_entry := e\<rparr>) = pnode_at pool"
  by (simp_all add: pnode_at_def fun_eq_iff set_sb_def)

lemma sb_at_simps [simp]:
  "sb_at (pool\<lparr>free_entries := a\<rparr>) = sb_at pool" "sb_at (pool\<lparr>pm_closed := c\<rparr>) = sb_at pool"
  "sb_at (pool\<lparr>pm_tried := t\<rparr>) = sb_at pool" "sb_at (pool\<lparr>pm_draws := d\<rparr>) = sb_at pool"
  "sb_at (set_node nid n pool) = sb_at pool" "sb_at (pool\<lparr>pm_nodes := m\<rparr>) = sb_at pool"
  "sb_at (pool\<lparr>pm_srvs := l\<rparr>) = sb_at pool" "sb_at (pool\<lparr>pm_entry := e\<rparr>) = sb_at pool"
  by (simp_all add: sb_at_def fun_eq_iff set_node_def)

lemma sb_at_set_sb: "sb_at pool b \<noteq> None \<Longrightarrow> sb_at (set_sb b sb pool) i = (if i = b then sb else sb_at pool i)"
  by (auto simp: sb_at_def mem_at_def set_sb_def split: if_splits)

lemma recycle_entry_simps [simp]:
  "pnode_at (recycle_entry pool conn) = pnode_at pool" "sb_at (recycle_entry pool conn) = sb_at pool"
  "pm_tried (recycle_entry pool conn) = pm_tried pool"
  by (simp_all add: recycle_entry_def split: option.split)

lemma sn_at_cong: "sb_at pool = sb_at pool' \<Longrightarrow> sn_at pool = sn_at pool'"
  by (simp add: sn_at_def fun_eq_iff)

lemma scan_entries_alive: "scan_entries alive es = (dead, Some e, rest) \<Longrightarrow> alive (fe_fd e)"
  by (induction es arbitrary: dead) (auto split: if_splits prod.splits)

lemma pool_keys_set_entries:
  assumes "set_entries nid i es lp pool = Some pool'"
  shows "pool_keys pool' = pool_keys pool" "sb_at pool' = sb_at pool" "pm_tried pool' = pm_tried pool"
proof -
  obtain n where n: "pnode_at pool nid = Some n" "i < length (nd_ports n)"
    "pool' = set_node nid (Some (n\<lparr>nd_ports := (nd_ports n)[i := (nd_ports n ! i)\<lparr>pt_entries := es, pt_last_ptr := lp\<rparr>]\<rparr>)) pool"
    using assms by (auto simp: set_entries_def bind_eq_Some_conv split: if_splits)
  have "map pt_port_key ((nd_ports n)[i := (nd_ports n ! i)\<lparr>pt_entries := es, pt_last_ptr := lp\<rparr>]) = map pt_port_key (nd_ports n)"
    using n(2) list_update_id [of "map pt_port_key (nd_ports n)" i] by (simp add: map_update)
  then show "pool_keys pool' = pool_keys pool"
    using n by (auto simp: pool_keys_def fun_eq_iff pnode_at_set_node)
  show "sb_at pool' = sb_at pool" "pm_tried pool' = pm_tried pool" using n(3) by (simp_all add: set_node_def)
qed

lemma pool_keys_cong: "pnode_at pool = pnode_at pool' \<Longrightarrow> pool_keys pool = pool_keys pool'"
  by (simp add: pool_keys_def fun_eq_iff)

lemma pool_keys_port:
  assumes "pool_keys pool nid = Some ks" "j < length ks"
  obtains p where "port_at pool (nid, j) = Some p"
  using assms by (auto simp: pool_keys_def port_at_def)

lemma try_stored_keeps:
  assumes "port_at pool p = Some port" "fc_sn conn = Some q" "sn_at pool q = Some sn" "pnode_at pool (sn_node sn) \<noteq> None"
  shows "\<exists>r pool'. try_stored env pool conn p = Some (r, pool') \<and> pool_keys pool' = pool_keys pool \<and>
    sb_at pool' = sb_at pool \<and> pm_tried pool' = pm_tried pool \<and> (\<forall>e. r = Some e \<longrightarrow> ne_poll env (fe_fd e))"
proof (cases "pt_entries port = []")
  case True
  then show ?thesis using assms by (simp add: try_stored_def)
next
  case False
  obtain dead r rest where scan: "scan_entries (ne_poll env) (pt_entries port) = (dead, r, rest)" by (metis prod_cases3)
  obtain pool' where pool': "set_entries (fst p) (snd p) rest (pt_last_ptr port) pool = Some pool'"
    using assms(1) by (auto simp: port_at_def set_entries_def bind_eq_Some_conv split: if_splits)
  let ?pool = "pool'\<lparr>pm_closed := pm_closed pool' @ map fe_fd dead, free_entries := rev (map fe_addr dead) @ free_entries pool'\<rparr>"
  have "try_stored env pool conn p = Some (r, ?pool)"
    using assms False pool' by (auto simp: try_stored_def scan)
  moreover have "pool_keys ?pool = pool_keys pool'" by (rule pool_keys_cong) simp
  moreover have "sb_at ?pool = sb_at pool'" "pm_tried ?pool = pm_tried pool'" by simp_all
  moreover have "\<forall>e. r = Some e \<longrightarrow> ne_poll env (fe_fd e)" using scan scan_entries_alive by metis
  ultimately show ?thesis using pool_keys_set_entries [OF pool'] by metis
qed

text \<open>
  A descriptor handed out is a stored one that is alive, or one just connected to the port tried last.
\<close>

definition served :: "'d net_env \<Rightarrow> int \<Rightarrow> fd_pool \<Rightarrow> fd_pool_conn \<Rightarrow> bool" where
  "served env fd pool conn \<longleftrightarrow> fc_active_fd conn \<and>
    (ne_poll env fd \<or>
     (\<exists>k q port. length (pm_tried pool) = Suc k \<and> pm_tried pool ! k = q \<and> port_at pool q = Some port \<and> ne_connect env k port = Some fd))"

lemma after_tries:
  assumes port: "fc_port conn = Some (nid, j)" "pool_keys pool nid = Some ks" "j < length ks"
    and sn: "fc_sn conn = Some q" "sn_at pool q = Some sn" "sn_node sn = nid"
  shows "(\<exists>fd pool' conn'. get_after env pool conn = Some (fd, pool', conn') \<and> served env fd pool' conn' \<and>
      pm_tried pool' \<in> {pm_tried pool, pm_tried pool @ [(nid, j)]}) \<or>
    (\<exists>pool'. get_after env pool conn = get_loop env pool' (conn\<lparr>fc_entry := None\<rparr>) SBCS_FAIL \<and>
      pool_keys pool' = pool_keys pool \<and> sb_at pool' = sb_at pool \<and> pm_tried pool' = pm_tried pool @ [(nid, j)])"
proof -
  let ?pool = "recycle_entry pool conn"
  have keys: "pool_keys ?pool = pool_keys pool" by (rule pool_keys_cong) simp
  obtain p where p: "port_at ?pool (nid, j) = Some p" using pool_keys_port [of ?pool nid ks j] port keys by auto
  have sn': "sn_at ?pool = sn_at pool" by (rule sn_at_cong) simp
  have "pnode_at ?pool (sn_node sn) \<noteq> None" using port(2) sn(3) by (auto simp: pool_keys_def)
  then obtain r pool1 where 1: "try_stored env ?pool conn (nid, j) = Some (r, pool1)" "pool_keys pool1 = pool_keys pool"
    "sb_at pool1 = sb_at pool" "pm_tried pool1 = pm_tried pool" "\<forall>e. r = Some e \<longrightarrow> ne_poll env (fe_fd e)"
    using try_stored_keeps [OF p sn(1), of sn env] sn(2) sn' keys by auto
  obtain p1 where p1: "port_at pool1 (nid, j) = Some p1" using pool_keys_port [of pool1 nid ks j] 1 port by auto
  have "sn_at pool1 = sn_at pool" using 1(3) by (rule sn_at_cong)
  moreover have "pnode_at pool1 (sn_node sn) \<noteq> None" using 1(2) port(2) sn(3) by (metis option.map_disc_iff option.distinct(1) pool_keys_def)
  moreover define pool2 where "pool2 = pool1\<lparr>pm_tried := pm_tried pool1 @ [(nid, j)]\<rparr>"
  ultimately have conn: "try_connect env pool1 conn (nid, j) = Some (ne_connect env (length (pm_tried pool1)) p1, pool2)"
    using p1 sn by (auto simp: try_connect_def)
  have pool2: "pool_keys pool2 = pool_keys pool" "sb_at pool2 = sb_at pool" "pm_tried pool2 = pm_tried pool @ [(nid, j)]"
    "port_at pool2 (nid, j) = Some p1"
    using 1 pool_keys_cong [of pool2 pool1] p1 by (simp_all add: pool2_def port_at_def)
  show ?thesis
  proof (cases r)
    case (Some e)
    then have "get_after env pool conn = Some (fe_fd e, pool1, conn\<lparr>fc_entry := Some e, fc_active_fd := True\<rparr>)"
      using 1(1) port(1) by (simp add: get_after_def)
    moreover have "served env (fe_fd e) pool1 (conn\<lparr>fc_entry := Some e, fc_active_fd := True\<rparr>)"
      using 1(5) Some by (simp add: served_def)
    ultimately show ?thesis using 1(4) by blast
  next
    case None
    show ?thesis
    proof (cases "ne_connect env (length (pm_tried pool1)) p1")
      case (Some fd)
      then have "get_after env pool conn = Some (fd, pool2, conn\<lparr>fc_entry := None, fc_active_fd := True\<rparr>)"
        using 1(1) port(1) conn None by (simp add: get_after_def)
      moreover have "served env fd pool2 (conn\<lparr>fc_entry := None, fc_active_fd := True\<rparr>)"
        using Some pool2(3,4) 1(4) by (simp add: served_def nth_append)
      ultimately show ?thesis using pool2(3) by blast
    next
      case none: None
      then have "get_after env pool conn = get_loop env pool2 (conn\<lparr>fc_entry := None\<rparr>) SBCS_FAIL"
        using 1(1) port(1) conn None by (simp add: get_after_def)
      then show ?thesis using pool2 by blast
    qed
  qed
qed

subsection \<open>The walk over the services\<close>

text \<open>The attempts at service \<open>i\<close> of a balancer with the service nodes \<open>dat\<close>.\<close>

definition tries :: "(nat \<Rightarrow> cstring list option) \<Rightarrow> fd_pool_service_node list \<Rightarrow> cstring \<Rightarrow> nat \<Rightarrow> (nat \<times> nat) list" where
  "tries K dat key i = map (Pair (sn_node (dat ! i))) (matching (the (K (sn_node (dat ! i)))) key)"

text \<open>
  How \<open>fd_pool_get\<close> ends with the services \<open>is\<close> and then \<open>k\<close> rounds left and \<open>tried\<close> tried before: with
  -1 after every attempt that is left, or with a descriptor after some of them.
\<close>

definition ends ::
  "'d net_env \<Rightarrow> nat \<Rightarrow> (nat \<Rightarrow> (nat \<times> nat) list) \<Rightarrow> (int \<times> fd_pool \<times> fd_pool_conn) option \<Rightarrow> (nat \<times> nat) list \<Rightarrow> nat list \<Rightarrow> nat \<Rightarrow> bool" where
  "ends env n tr r tried is k \<longleftrightarrow>
    (\<exists>bs fd pool' conn' rest. r = Some (fd, pool', conn') \<and>
      pm_tried pool' @ rest = tried @ concat (map tr (is @ concat bs)) \<and>
      length bs = k \<and> (\<forall>b\<in>set bs. distinct b \<and> set b = {..<n}) \<and>
      (fd = -1 \<and> \<not> fc_active_fd conn' \<and> rest = [] \<or> served env fd pool' conn'))"

lemma ends_block:
  assumes "ends env n tr r (tried @ tr i) is k" "distinct (i # is)" "set (i # is) = {..<n}"
  shows "ends env n tr r tried [] (Suc k)"
proof -
  obtain bs fd pool' conn' rest where "r = Some (fd, pool', conn')"
    "pm_tried pool' @ rest = (tried @ tr i) @ concat (map tr (is @ concat bs))"
    "length bs = k" "\<forall>b\<in>set bs. distinct b \<and> set b = {..<n}"
    "fd = -1 \<and> \<not> fc_active_fd conn' \<and> rest = [] \<or> served env fd pool' conn'"
    using assms(1) unfolding ends_def by blast
  then show ?thesis
    unfolding ends_def using assms(2,3)
    by (intro exI [of _ "(i # is) # bs"] exI [of _ fd] exI [of _ pool'] exI [of _ conn'] exI [of _ rest]) simp
qed

lemma ends_Cons: "ends env n tr r (tried @ tr i) is k \<Longrightarrow> ends env n tr r tried (i # is) k"
  unfolding ends_def by simp

lemma ends_served:
  assumes "r = Some (fd, pool', conn')" "served env fd pool' conn'" "pm_tried pool' @ js = tried"
  shows "ends env n tr r tried is k"
  unfolding ends_def using assms
  by (intro exI [of _ "replicate k [0..<n]"] exI [of _ fd] exI [of _ pool'] exI [of _ conn']
        exI [of _ "js @ concat (map tr (is @ concat (replicate k [0..<n])))"]) (auto simp: lessThan_atLeast0)

text \<open>Moving to the next node and going on from there.\<close>

definition move_on :: "'d net_env \<Rightarrow> fd_pool \<Rightarrow> fd_pool_conn \<Rightarrow> sbalance_conn_status \<Rightarrow> (int \<times> fd_pool \<times> fd_pool_conn) option" where
  "move_on env pool conn status = do { (pool, conn) \<leftarrow> fd_pool_move_node env pool conn status; get_after env pool conn }"

definition port_on :: "'d net_env \<Rightarrow> fd_pool \<Rightarrow> fd_pool_conn \<Rightarrow> sbalance_conn_status \<Rightarrow> (int \<times> fd_pool \<times> fd_pool_conn) option" where
  "port_on env pool conn status =
    do { (found, conn) \<leftarrow> fd_pool_move_port pool conn; if found then get_after env pool conn else move_on env pool conn status }"

lemma get_loop_on:
  "fc_sn conn \<noteq> None \<Longrightarrow> fc_entry conn = None \<Longrightarrow> get_loop env pool conn status = port_on env pool conn status"
  unfolding get_loop_after get_move_def port_on_def move_on_def
  by (cases "fd_pool_move_port pool conn") (auto simp: split_def)

context sb_rounds
begin

definition walk ::
  "fd_pool \<Rightarrow> fd_pool_conn \<Rightarrow> nat \<Rightarrow> fd_pool_service_node list \<Rightarrow> (nat \<Rightarrow> cstring list option) \<Rightarrow> cstring \<Rightarrow> nat list \<Rightarrow> nat \<Rightarrow> bool" where
  "walk pool conn b dat K key is k \<longleftrightarrow>
    fc_sc_sb conn = Some b \<and> \<not> fc_active_fd conn \<and> (\<exists>sb. sb_at pool b = Some sb \<and> pool_of dat sb) \<and> conn_at is k (fc_sc conn) \<and>
    pool_keys pool = K \<and> fc_node_filter conn = None \<and> fc_port_key conn = key \<and> nul_free key \<and>
    (\<forall>i<n. \<exists>ks. K (sn_node (dat ! i)) = Some ks \<and> (\<forall>x\<in>set ks. nul_free x))"

lemma walk_pool: "walk pool conn b dat K key is k \<Longrightarrow> sb_at pool' = sb_at pool \<Longrightarrow> pool_keys pool' = pool_keys pool \<Longrightarrow>
  walk pool' conn b dat K key is k"
  by (simp add: walk_def)

lemma walk_conn:
  "walk pool (conn\<lparr>fc_entry := e\<rparr>) b dat K key is k = walk pool conn b dat K key is k"
  "walk pool (conn\<lparr>fc_port := p\<rparr>) b dat K key is k = walk pool conn b dat K key is k"
  "walk pool (conn\<lparr>fc_pk_ptr := pk\<rparr>) b dat K key is k = walk pool conn b dat K key is k"
  "walk pool (conn\<lparr>fc_sn := q\<rparr>) b dat K key is k = walk pool conn b dat K key is k"
  by (simp_all add: walk_def)

lemma walk_next:
  assumes w: "walk pool conn b dat K key is k"
    and sb: "sb_at pool b = Some sb"
    and nxt: "sbalance_conn_next sb (fc_sc conn) status (ne_random env (pm_draws pool)) = Inr (r, sb', sc')"
    and sc': "conn_at is' k' sc'" and sb': "pool_of dat sb'"
  shows "\<exists>pool'. conn_next env pool conn status = Some (pool', conn\<lparr>fc_sc := sc',
      fc_sn := (case r of None \<Rightarrow> None | Some _ \<Rightarrow> Some (b, sc_last sc'))\<rparr>) \<and>
    walk pool' (conn\<lparr>fc_sc := sc', fc_sn := q\<rparr>) b dat K key is' k' \<and> pm_tried pool' = pm_tried pool"
proof -
  let ?pool = "(set_sb b (Some sb') pool)\<lparr>pm_draws := pm_draws pool + 1\<rparr>"
  have "sb_at ?pool b = Some sb'" using sb by (simp add: sb_at_set_sb)
  moreover have "pool_keys ?pool = pool_keys pool" by (rule pool_keys_cong) simp
  ultimately have "walk ?pool (conn\<lparr>fc_sc := sc', fc_sn := q\<rparr>) b dat K key is' k'"
    using w sc' sb' by (simp add: walk_def)
  moreover have "pm_tried ?pool = pm_tried pool" by (simp add: set_sb_def)
  ultimately show ?thesis using w sb nxt by (auto simp: conn_next_def walk_def)
qed

lemma walk_sn_at:
  assumes "walk pool conn b dat K key is k" "i < n"
  shows "sn_at pool (b, i) = Some (dat ! i)"
  using assms by (auto simp: walk_def sn_at_def pool_of_def)

text \<open>From a service on: its remaining ports \<open>js\<close> first, then what the walk tries.\<close>

definition at_port :: "fd_pool_conn \<Rightarrow> nat \<Rightarrow> nat \<Rightarrow> cstring list \<Rightarrow> nat list \<Rightarrow> bool" where
  "at_port conn b nid ks js \<longleftrightarrow>
    (fc_port conn = None \<or> (\<exists>j. fc_port conn = Some (nid, j))) \<and> (fc_pk_ptr conn = [] \<longrightarrow> fc_port conn = None) \<and>
    nul_free (fc_pk_ptr conn) \<and> ports_left ks (fc_pk_ptr conn) (map_option snd (fc_port conn)) = js"

lemma move_port_walk:
  assumes w: "walk pool conn b dat K key is k" and i: "fc_sn conn = Some (b, i)" "i < n"
    and nid: "nid = sn_node (dat ! i)" "K nid = Some ks" and at: "at_port conn b nid ks js"
  shows "case js of
      [] \<Rightarrow> fd_pool_move_port pool conn = Some (False, conn\<lparr>fc_port := None, fc_pk_ptr := []\<rparr>)
    | j # js' \<Rightarrow> j < length ks \<and> (\<exists>pk. fd_pool_move_port pool conn = Some (True, conn\<lparr>fc_port := Some (nid, j), fc_pk_ptr := pk\<rparr>) \<and>
        at_port (conn\<lparr>fc_port := Some (nid, j), fc_pk_ptr := pk\<rparr>) b nid ks js')"
proof -
  obtain node where node: "pnode_at pool nid = Some node" "ks = map pt_port_key (nd_ports node)"
    using w nid(2) by (auto simp: walk_def pool_keys_def)
  have nf: "\<forall>p\<in>set (nd_ports node). nul_free (pt_port_key p)"
  proof -
    obtain ks' where "K nid = Some ks'" "\<forall>x\<in>set ks'. nul_free x" using w i(2) nid(1) unfolding walk_def by blast
    then show ?thesis using nid(2) node(2) by auto
  qed
  have eq: "fd_pool_move_port pool conn =
    (let (found, port, pk) = move_port_loop (nd_ports node) (fc_pk_ptr conn) (map_option snd (fc_port conn))
     in Some (found, conn\<lparr>fc_port := map_option (Pair nid) port, fc_pk_ptr := pk\<rparr>))"
    using i walk_sn_at [OF w i(2)] node(1) nid(1) by (simp add: fd_pool_move_port_def)
  have "case ports_left ks (fc_pk_ptr conn) (map_option snd (fc_port conn)) of
      [] \<Rightarrow> move_port_loop (nd_ports node) (fc_pk_ptr conn) (map_option snd (fc_port conn)) = (False, None, [])
    | j # js \<Rightarrow> \<exists>pk'. move_port_loop (nd_ports node) (fc_pk_ptr conn) (map_option snd (fc_port conn)) = (True, Some j, pk') \<and>
        j < length (nd_ports node) \<and> nul_free pk' \<and> pk' \<noteq> [] \<and> ports_left ks pk' (Some j) = js"
    unfolding node(2) by (rule move_port_loop_left [OF nf]) (use at in \<open>auto simp: at_port_def\<close>)
  then show ?thesis
    using at node(2) unfolding eq at_port_def by (cases js) auto
qed

definition goes_on ::
  "'d net_env \<Rightarrow> nat \<Rightarrow> fd_pool_service_node list \<Rightarrow> (nat \<Rightarrow> cstring list option) \<Rightarrow> cstring \<Rightarrow> nat list \<Rightarrow> nat \<Rightarrow> bool" where
  "goes_on env b dat K key is k \<longleftrightarrow>
    (\<forall>pool conn status. walk pool conn b dat K key is k \<longrightarrow> fc_port conn = None \<longrightarrow>
      (status = SBCS_START \<or> sc_last (fc_sc conn) < n) \<longrightarrow>
      ends env n (tries K dat key) (move_on env pool conn status) (pm_tried pool) is k)"

lemma port_on_ends:
  assumes ex: "goes_on env b dat K key is k"
    and w: "walk pool conn b dat K key is k" and i: "fc_sn conn = Some (b, i)" "i < n" "sc_last (fc_sc conn) = i"
    and nid: "nid = sn_node (dat ! i)" "K nid = Some ks" and at: "at_port conn b nid ks js"
  shows "ends env n (tries K dat key) (port_on env pool conn status) (pm_tried pool @ map (Pair nid) js) is k"
  using w i(1,3) at
proof (induction js arbitrary: pool conn status)
  case Nil
  have "port_on env pool conn status = move_on env pool (conn\<lparr>fc_port := None, fc_pk_ptr := []\<rparr>) status"
    using move_port_walk [OF Nil(1,2) i(2) nid Nil(4)] by (simp add: port_on_def)
  then show ?case using ex Nil i(2) by (simp add: goes_on_def walk_conn)
next
  case (Cons j js)
  then obtain pk where pk: "fd_pool_move_port pool conn = Some (True, conn\<lparr>fc_port := Some (nid, j), fc_pk_ptr := pk\<rparr>)"
    "j < length ks" "at_port (conn\<lparr>fc_port := Some (nid, j), fc_pk_ptr := pk\<rparr>) b nid ks js"
    using move_port_walk [OF Cons.prems(1,2) i(2) nid Cons.prems(4)] by auto
  let ?conn = "conn\<lparr>fc_port := Some (nid, j), fc_pk_ptr := pk\<rparr>"
  have keys: "pool_keys pool nid = Some ks" using Cons.prems(1) nid(2) by (simp add: walk_def)
  have conn: "fc_port ?conn = Some (nid, j)" "fc_sn ?conn = Some (b, i)" using Cons.prems(2) by simp_all
  have move: "port_on env pool conn status = get_after env pool ?conn" using pk(1) by (simp add: port_on_def)
  note tries = after_tries [OF conn(1) keys pk(2) conn(2) walk_sn_at [OF Cons.prems(1) i(2)] nid(1) [symmetric], of env]
  then consider (got) fd pool' conn' where "get_after env pool ?conn = Some (fd, pool', conn')" "served env fd pool' conn'"
      "pm_tried pool' \<in> {pm_tried pool, pm_tried pool @ [(nid, j)]}"
    | (on) pool' where "get_after env pool ?conn = get_loop env pool' (?conn\<lparr>fc_entry := None\<rparr>) SBCS_FAIL"
      "pool_keys pool' = pool_keys pool" "sb_at pool' = sb_at pool" "pm_tried pool' = pm_tried pool @ [(nid, j)]"
    by blast
  then show ?case
  proof cases
    case got
    then have "\<exists>js'. pm_tried pool' @ js' = pm_tried pool @ map (Pair nid) (j # js)" by auto
    then show ?thesis using ends_served [of _ fd pool' conn' env] got(1,2) move by metis
  next
    case pool': on
  have "port_on env pool conn status = port_on env pool' (?conn\<lparr>fc_entry := None\<rparr>) SBCS_FAIL"
    using move pool'(1) get_loop_on [of "?conn\<lparr>fc_entry := None\<rparr>"] Cons.prems(2) by simp
  moreover have "walk pool' (?conn\<lparr>fc_entry := None\<rparr>) b dat K key is k"
    using walk_pool [OF Cons.prems(1) pool'(3,2)] by (simp add: walk_conn)
  moreover have "at_port (?conn\<lparr>fc_entry := None\<rparr>) b nid ks js" using pk(3) by (simp add: at_port_def)
  ultimately show ?thesis using Cons.IH [of pool' "?conn\<lparr>fc_entry := None\<rparr>" SBCS_FAIL] Cons.prems(2,3) pool'(4) by simp
  qed
qed

lemma move_on_service:
  assumes ex: "goes_on env b dat K key is' k'"
    and nxt: "conn_next env pool conn status = Some (pool', conn\<lparr>fc_sc := sc', fc_sn := Some (b, i)\<rparr>)"
    and w: "walk pool' (conn\<lparr>fc_sc := sc', fc_sn := Some (b, i)\<rparr>) b dat K key is' k'"
    and i: "i < n" "sc_last sc' = i" and tried: "pm_tried pool' = pm_tried pool"
  shows "ends env n (tries K dat key) (move_on env pool conn status) (pm_tried pool @ tries K dat key i) is' k'"
proof -
  let ?conn = "conn\<lparr>fc_sc := sc', fc_sn := Some (b, i), fc_pk_ptr := fc_port_key conn, fc_port := None\<rparr>"
  obtain ks where ks: "K (sn_node (dat ! i)) = Some ks" using w i(1) by (auto simp: walk_def)
  have key: "fc_port_key conn = key" "nul_free key" "fc_node_filter conn = None" using w by (simp_all add: walk_def)
  have "move_on env pool conn status = port_on env pool' ?conn SBCS_START"
    unfolding move_on_def port_on_def using walk_sn_at [OF w i(1)] key(3)
    by (subst fd_pool_move_node.simps, cases "fd_pool_move_port pool' ?conn") (auto simp: nxt filtered_def split_def)
  moreover have "at_port ?conn b (sn_node (dat ! i)) ks (matching ks key)"
    using key by (simp add: at_port_def ports_left_None)
  moreover have "walk pool' ?conn b dat K key is' k'" using w by (simp add: walk_conn)
  ultimately show ?thesis
    using port_on_ends [OF ex, of pool' ?conn i "sn_node (dat ! i)" ks] i ks tried by (simp add: tries_def)
qed

lemma walk_ends:
  assumes n: "0 < n"
  shows "goes_on env b dat K key is k"
proof (induction "length is + k * n" arbitrary: "is" k rule: less_induct)
  case less
  show ?case
    unfolding goes_on_def
  proof (intro allI impI)
    fix pool conn status
    assume w: "walk pool conn b dat K key is k" and port: "fc_port conn = None"
      and st: "status = SBCS_START \<or> sc_last (fc_sc conn) < n"
    obtain sb where sb: "sb_at pool b = Some sb" "pool_of dat sb" and at: "conn_at is k (fc_sc conn)"
      using w by (auto simp: walk_def)
    have step: "ends env n (tries K dat key) (move_on env pool conn status) (pm_tried pool @ tries K dat key i) js k'"
      if nxt: "sbalance_conn_next sb (fc_sc conn) status (ne_random env (pm_draws pool)) = Inr (Some (dat ! i), sb', sc')"
        "conn_at js k' sc'" "pool_of dat sb'" "sc_last sc' = i" and i: "i < n" and ex: "goes_on env b dat K key js k'"
      for i js k' sb' sc'
    proof -
      obtain pool' where "conn_next env pool conn status = Some (pool', conn\<lparr>fc_sc := sc', fc_sn := Some (b, i)\<rparr>)"
        "walk pool' (conn\<lparr>fc_sc := sc', fc_sn := Some (b, i)\<rparr>) b dat K key js k'" "pm_tried pool' = pm_tried pool"
        using walk_next [OF w sb(1) nxt(1-3), of "Some (b, i)"] nxt(4) by auto
      then show ?thesis using move_on_service [OF ex _ _ i nxt(4)] by blast
    qed
    consider (exhausted) "is = []" "k = 0" | (start) k' where "is = []" "k = Suc k'" | (round) i js where "is = i # js"
      by (cases "is"; cases k) auto
    then show "ends env n (tries K dat key) (move_on env pool conn status) (pm_tried pool) is k"
    proof cases
      case exhausted
      then obtain sb' sc' where "sbalance_conn_next sb (fc_sc conn) status (ne_random env (pm_draws pool)) = Inr (None, sb', sc')"
        using next_exhausted [OF _ sb(2) st n] at by metis
      then have "move_on env pool conn status =
          Some (-1, (set_sb b (Some sb') pool)\<lparr>pm_draws := pm_draws pool + 1\<rparr>, conn\<lparr>fc_sc := sc', fc_sn := None\<rparr>)"
        using w sb(1) port unfolding move_on_def
        by (subst fd_pool_move_node.simps) (simp add: conn_next_def walk_def get_after_def)
      then show ?thesis using exhausted w by (simp add: ends_def set_sb_def walk_def)
    next
      case start
      then obtain i js sb' sc' where nxt: "sbalance_conn_next sb (fc_sc conn) status (ne_random env (pm_draws pool)) =
          Inr (Some (dat ! i), sb', sc')" "conn_at js k' sc'" "pool_of dat sb'" "sc_last sc' = i"
        and js: "distinct (i # js)" "set (i # js) = {..<n}"
        using next_starts_round [OF _ sb(2) st n] at by metis
      have i: "i < n" using js(2) by auto
      have len: "length (i # js) = n" using distinct_card [OF js(1)] js(2) by simp
      then have "goes_on env b dat K key js k'" using less [of js k'] start by simp
      then have "ends env n (tries K dat key) (move_on env pool conn status) (pm_tried pool @ tries K dat key i) js k'"
        using step [OF nxt i] by simp
      then show ?thesis using ends_block js start by metis
    next
      case round
      then obtain sb' sc' where nxt: "sbalance_conn_next sb (fc_sc conn) status (ne_random env (pm_draws pool)) =
          Inr (Some (dat ! i), sb', sc')" "conn_at js k sc'" "pool_of dat sb'" "sc_last sc' = i"
        using next_in_round [OF _ sb(2) st] at by metis
      have i: "i < n" using at round by (auto simp: conn_at_def)
      have "goes_on env b dat K key js k" using less [of js k] round by simp
      then have "ends env n (tries K dat key) (move_on env pool conn status) (pm_tried pool @ tries K dat key i) js k"
        using step [OF nxt i] by simp
      then show ?thesis using ends_Cons round by metis
    qed
  qed
qed

end

subsection \<open>Properties\<close>

lemma get_start:
  assumes "fc_sc_sb conn = None" "fc_srv conn = Some s" "srv_at pool s = Some srv" "sb_at pool (srv_sb srv) = Some sb"
    and "sbalance_conn_new (ne_ops env) sb (fc_sc_hash conn) (ne_random env (pm_draws pool)) (fc_sc conn) = (sb1, sc)"
  shows "fd_pool_get env pool conn SBCS_START =
    move_on env ((set_sb (srv_sb srv) (Some sb1) pool)\<lparr>pm_draws := pm_draws pool + 1\<rparr>)
      (conn\<lparr>fc_active_fd := False, fc_sb_gen := srv_sb_gen srv, fc_sn := None, fc_sc := sc, fc_sc_sb := Some (srv_sb srv)\<rparr>) SBCS_START"
proof -
  have "get_restart env pool (conn\<lparr>fc_active_fd := False\<rparr>) s SBCS_START =
      Some ((set_sb (srv_sb srv) (Some sb1) pool)\<lparr>pm_draws := pm_draws pool + 1\<rparr>,
        conn\<lparr>fc_active_fd := False, fc_sb_gen := srv_sb_gen srv, fc_sn := None, fc_sc := sc, fc_sc_sb := Some (srv_sb srv)\<rparr>)"
    using assms by (simp add: get_restart_def conn_done_def conn_release_def)
  then show ?thesis using assms(2) by (simp add: fd_pool_get_def get_loop_after get_move_def move_on_def)
qed

lemma start_walk:
  assumes rounds: "sb_rounds st n R" and at: "sb_rounds.conn_at n R is k sc" and of: "sb_rounds.pool_of st n dat sb1"
    and sb: "sb_at pool b = Some sb"
    and conn: "fc_port conn = None" "fc_node_filter conn = None" "nul_free (fc_port_key conn)"
    and ports: "\<forall>sn\<in>set dat. \<exists>node. pnode_at pool (sn_node sn) = Some node \<and> (\<forall>p\<in>set (nd_ports node). nul_free (pt_port_key p))"
    and n: "0 < n"
  shows "ends env n (tries (pool_keys pool) dat (fc_port_key conn))
    (move_on env ((set_sb b (Some sb1) pool)\<lparr>pm_draws := d\<rparr>)
      (conn\<lparr>fc_active_fd := False, fc_sb_gen := g, fc_sn := None, fc_sc := sc, fc_sc_sb := Some b\<rparr>) SBCS_START)
    (pm_tried pool) is k"
proof -
  let ?pool = "(set_sb b (Some sb1) pool)\<lparr>pm_draws := d\<rparr>"
    and ?conn = "conn\<lparr>fc_active_fd := False, fc_sb_gen := g, fc_sn := None, fc_sc := sc, fc_sc_sb := Some b\<rparr>"
  have keys: "pool_keys ?pool = pool_keys pool" by (rule pool_keys_cong) simp
  have "\<exists>ks. pool_keys pool (sn_node (dat ! i)) = Some ks \<and> (\<forall>x\<in>set ks. nul_free x)" if "i < n" for i
  proof -
    have "dat ! i \<in> set dat" using that of by (simp add: sb_rounds.pool_of_def [OF rounds])
    then show ?thesis using ports by (force simp: pool_keys_def)
  qed
  moreover have "sb_at ?pool b = Some sb1" using sb by (simp add: sb_at_set_sb)
  ultimately have "sb_rounds.walk st n R ?pool ?conn b dat (pool_keys pool) (fc_port_key conn) is k"
    using at of conn keys by (simp add: sb_rounds.walk_def [OF rounds])
  moreover have "fc_port ?conn = None" "pm_tried ?pool = pm_tried pool" using conn(1) by (simp_all add: set_sb_def)
  ultimately show ?thesis
    using sb_rounds.walk_ends [OF rounds n] unfolding sb_rounds.goes_on_def [OF rounds] by metis
qed

text \<open>
  C35: a connection just made returns from \<open>fd_pool_get\<close> whatever the network does. The ports it may
  try are, node after node in the rounds of the load balancer, all ports with a key asked for, in the
  order of the keys; it hands out a descriptor that is alive or just connected after some of them, and
  -1 only after all. The service has 1 to $2^{30} - 2$ nodes, and not $2^{24} - 1$ to $2^{25} - 2$, and
  fewer than $2^{31}$ retries.
\<close>

theorem fd_pool_get_tries_every_port:
  assumes new: "fd_pool_new_conn pool service port_key remote_addr = Some conn" "fc_srv conn = Some s"
    and srv: "srv_at pool s = Some srv" "sb_at pool (srv_sb srv) = Some sb"
    and n: "1 \<le> sb_nserv sb" "sb_nserv sb \<le> 2 ^ 30 - 2" "\<not> (2 ^ 24 - 1 \<le> sb_nserv sb \<and> sb_nserv sb \<le> 2 ^ 25 - 2)"
    and retries: "unat (sb_retries sb) < 2 ^ 31"
    and ports: "\<forall>v\<in>set (sb_service sb). \<exists>node. pnode_at pool (sn_node (sv_data v)) = Some node \<and>
        (\<forall>p\<in>set (nd_ports node). nul_free (pt_port_key p))"
    and key: "nul_free (fc_port_key conn)"
    and rounds: "rounds = (if sb_strat sb = ST_SEQ then unat (sb_retries sb) + 1 else unat (sb_retries sb))"
    and picks: "picks = (if sb_strat sb = ST_SEQ then 0 else 1)"
    and schedule: "schedule = (\<lambda>is. concat (map (tries (pool_keys pool) (map sv_data (sb_service sb)) (fc_port_key conn)) is))"
  shows "\<exists>first bs fd pool' conn' rest. fd_pool_get env pool conn SBCS_START = Some (fd, pool', conn') \<and>
    pm_tried pool' @ rest = pm_tried pool @ schedule (first @ concat bs) \<and>
    length first = picks \<and> set first \<subseteq> {..<sb_nserv sb} \<and>
    length bs = rounds \<and> (\<forall>b\<in>set bs. distinct b \<and> set b = {..<sb_nserv sb}) \<and>
    (fd = -1 \<and> \<not> fc_active_fd conn' \<and> rest = [] \<or> served env fd pool' conn')"
proof -
  let ?n = "sb_nserv sb" and ?R = "unat (sb_retries sb)"
  define dat where "dat = map sv_data (sb_service sb)"
  obtain sb1 sc where new1: "sbalance_conn_new (ne_ops env) sb (fc_sc_hash conn) (ne_random env (pm_draws pool)) (fc_sc conn) = (sb1, sc)"
    by fastforce
  have conn: "fc_sc_sb conn = None" "fc_port conn = None" "fc_node_filter conn = None"
    using new(1) by (auto simp: fd_pool_new_conn_def bind_eq_Some_conv)
  have pos: "0 < ?n" using n(1) by linarith
  have dat: "\<forall>sn\<in>set dat. \<exists>node. pnode_at pool (sn_node sn) = Some node \<and> (\<forall>p\<in>set (nd_ports node). nul_free (pt_port_key p))"
    using ports by (simp add: dat_def)
  note start = get_start [OF conn(1) new(2) srv new1]
  obtain R "is" where r: "sb_rounds (sb_strat sb) ?n R" and at: "sb_rounds.conn_at ?n R is ?R sc" "sb_rounds.pool_of (sb_strat sb) ?n dat sb1"
    and "is": "if sb_strat sb = ST_SEQ then is = [0..<?n] else \<exists>p<?n. is = [p]"
    using conn_new_rounds [OF n retries new1] unfolding dat_def by blast
  have "ends env ?n (tries (pool_keys pool) dat (fc_port_key conn)) (fd_pool_get env pool conn SBCS_START) (pm_tried pool) is ?R"
    unfolding start using start_walk [OF r at srv(2) conn(2,3) key dat pos] by blast
  then obtain bs fd pool' conn' rest where get: "fd_pool_get env pool conn SBCS_START = Some (fd, pool', conn')"
    and tried: "pm_tried pool' @ rest = pm_tried pool @ schedule (is @ concat bs)"
    and bs: "length bs = ?R" "\<forall>b\<in>set bs. distinct b \<and> set b = {..<?n}"
    and result: "fd = -1 \<and> \<not> fc_active_fd conn' \<and> rest = [] \<or> served env fd pool' conn'"
    unfolding ends_def schedule dat_def by blast
  obtain first bs' where "is @ concat bs = first @ concat bs'" "length first = picks" "set first \<subseteq> {..<?n}"
    "length bs' = rounds" "\<forall>b\<in>set bs'. distinct b \<and> set b = {..<?n}"
    using schedule_rounds [OF "is" bs] rounds picks by auto
  then show ?thesis using get tried result by metis
qed

text \<open>A pool of two nodes, found by one name, in a network that is down.\<close>

definition sample_env :: "nat net_env" where
  "sample_env = \<lparr>ne_ops = small_ops, ne_random = \<lambda>k. 7, ne_poll = \<lambda>fd. False, ne_connect = \<lambda>k p. None, ne_keep = \<lambda>fd. True,
    ne_getaddrinfo = \<lambda>h p hints. Inr [(''a1'', Some ''10.0.0.1 80''), (''a2'', Some ''10.0.0.2 80'')], ne_realpath = \<lambda>p. None\<rparr>"

definition sample_fd_pool :: fd_pool where
  "sample_fd_pool = the (the (fd_pool_create_single sample_env ''search'' ''localhost'' ''80'' 1 2000 None))"

definition sample_fd_conn :: fd_pool_conn where
  "sample_fd_conn = the (fd_pool_new_conn sample_fd_pool ''search'' (Some ''8080'') None)"

theorem fd_pool_get_tries_every_port_witness:
  "\<exists>bs pool' conn'. fd_pool_get sample_env sample_fd_pool sample_fd_conn SBCS_START = Some (-1, pool', conn') \<and>
    pm_tried pool' = concat (map (\<lambda>i. [(i, 0)]) (concat bs)) \<and> length bs = 2 \<and> (\<forall>b\<in>set bs. distinct b \<and> set b = {..<2})"
proof -
  define srv sb where "srv = the (srv_at sample_fd_pool 0)" and "sb = the (sb_at sample_fd_pool 0)"
  have srv: "srv_at sample_fd_pool 0 = Some srv" "srv_sb srv = 0" unfolding srv_def by code_simp+
  have sb: "sb_at sample_fd_pool 0 = Some sb" "sb_nserv sb = 2" "sb_retries sb = 1" "sb_strat sb = ST_SEQ"
    "map (\<lambda>v. sn_node (sv_data v)) (sb_service sb) = [0, 1]" unfolding sb_def by code_simp+
  have keys: "pool_keys sample_fd_pool 0 = Some [''port'']" "pool_keys sample_fd_pool 1 = Some [''port'']"
    "fc_port_key sample_fd_conn = ''port''" "pm_tried sample_fd_pool = []" by code_simp+
  have nf: "nul_free ''port''" by code_simp
  have down: "\<not> served sample_env fd pool conn" for fd pool conn by (simp add: served_def sample_env_def)
  have nodes: "\<forall>v\<in>set (sb_service sb). \<exists>node. pnode_at sample_fd_pool (sn_node (sv_data v)) = Some node \<and>
      (\<forall>p\<in>set (nd_ports node). nul_free (pt_port_key p))"
  proof -
    have "sn_node (sv_data v) \<in> {0, 1}" if "v \<in> set (sb_service sb)" for v using sb(5) that by (cases "sb_service sb") auto
    moreover have "\<exists>node. pnode_at sample_fd_pool i = Some node \<and> (\<forall>p\<in>set (nd_ports node). nul_free (pt_port_key p))"
      if "i \<in> {0, 1}" for i using that keys(1,2) nf by (auto simp: pool_keys_def map_eq_Cons_conv)
    ultimately show ?thesis by blast
  qed
  have new: "fd_pool_new_conn sample_fd_pool ''search'' (Some ''8080'') None = Some sample_fd_conn" "fc_srv sample_fd_conn = Some 0"
    by code_simp+
  let ?tr = "tries (pool_keys sample_fd_pool) (map sv_data (sb_service sb)) (fc_port_key sample_fd_conn)"
  obtain bs pool' conn' where r: "fd_pool_get sample_env sample_fd_pool sample_fd_conn SBCS_START = Some (-1, pool', conn')"
    "pm_tried pool' = concat (map ?tr (concat bs))" "length bs = 2" "\<forall>b\<in>set bs. distinct b \<and> set b = {..<2}"
    using fd_pool_get_tries_every_port [OF new srv(1), unfolded srv(2), OF sb(1) _ _ _ _ nodes _ refl refl refl, of sample_env]
    unfolding sb(2-4) keys(4) using down keys(3) nf by auto
  have "?tr i = [(i, 0)]" if "i < 2" for i
  proof -
    have "map sn_node (map sv_data (sb_service sb)) ! i = sn_node (map sv_data (sb_service sb) ! i)"
      using that sb(2) by (intro nth_map) simp
    then have "sn_node (map sv_data (sb_service sb) ! i) = [0, 1] ! i" using sb(5) by (simp add: comp_def)
    moreover have "matching [''port''] ''port'' = [0]" by code_simp
    ultimately show ?thesis using that keys by (cases i) (auto simp: tries_def less_2_cases_iff)
  qed
  then have "map ?tr (concat bs) = map (\<lambda>i. [(i, 0)]) (concat bs)" using r(4) by (intro map_cong) (auto split: if_splits)
  then show ?thesis using r by metis
qed

end
