(* ===== verification/FdPoolRefs.thy ===== *)
theory FdPoolRefs
  imports FdPoolGet AvlSpec "HOL-Library.Multiset"
begin

text \<open>
  Reference counting in the connection pool.  Every balancer is counted once per service, connection and
  unfinished update that points to it, every node once per service node, so nothing in use is freed and
  \<open>fd_pool_free\<close> frees everything when no connection is left.
\<close>

lemma bindE: "Option.bind m f = Some y \<Longrightarrow> (\<And>x. m = Some x \<Longrightarrow> f x = Some y \<Longrightarrow> P) \<Longrightarrow> P"
  by (auto simp: bind_eq_Some_conv)

subsection \<open>What reference counting sees\<close>

definition sb_nodes :: "fd_pool_service_node sbalance \<Rightarrow> nat list" where
  "sb_nodes sb = map (\<lambda>v. sn_node (sv_data v)) (sb_service sb)"

text \<open>The services, the balancers with their count and their nodes, the nodes with their count.\<close>

definition pool_abs ::
  "fd_pool \<Rightarrow> (cstring \<times> nat) avl_node \<times> nat list \<times> (int \<times> nat list) option list \<times> int option list \<times> nat list" where
  "pool_abs pool =
    (services pool, map srv_sb (pm_srvs pool), map (map_option (\<lambda>sb. (sb_refs sb, sb_nodes sb))) (pm_sbs pool),
     map (map_option nd_refs) (pm_nodes pool), all_nodes pool)"

lemma pool_abs_simps [simp]:
  "pool_abs (pool\<lparr>free_entries := a\<rparr>) = pool_abs pool" "pool_abs (pool\<lparr>pm_closed := c\<rparr>) = pool_abs pool"
  "pool_abs (pool\<lparr>pm_tried := t\<rparr>) = pool_abs pool" "pool_abs (pool\<lparr>pm_draws := d\<rparr>) = pool_abs pool"
  "pool_abs (pool\<lparr>pm_entry := e\<rparr>) = pool_abs pool" "pool_abs (pool\<lparr>upmap := u\<rparr>) = pool_abs pool"
  by (simp_all add: pool_abs_def)

lemma mem_update_map:
  assumes "mem_at m i = Some x" "f y = f x"
  shows "map (map_option f) (m[i := Some y]) = map (map_option f) m"
proof -
  have "i < length m" "m ! i = Some x" using assms(1) by (auto simp: mem_at_def split: if_splits)
  then show ?thesis using assms(2) list_update_id [of "map (map_option f) m" i] by (simp add: map_update)
qed

lemma pool_abs_set_sb:
  assumes "sb_at pool b = Some sb" "sb_refs sb' = sb_refs sb" "sb_nodes sb' = sb_nodes sb"
  shows "pool_abs (set_sb b (Some sb') pool) = pool_abs pool"
  using mem_update_map [of "pm_sbs pool" b sb "\<lambda>sb. (sb_refs sb, sb_nodes sb)" sb'] assms
  by (simp add: pool_abs_def set_sb_def sb_at_def)

lemma pool_abs_set_node:
  assumes "pnode_at pool nid = Some n" "nd_refs n' = nd_refs n"
  shows "pool_abs (set_node nid (Some n') pool) = pool_abs pool"
  using mem_update_map [of "pm_nodes pool" nid n nd_refs n'] assms
  by (simp add: pool_abs_def set_node_def pnode_at_def)

lemma sb_nodes_update:
  "sv_data v = sv_data (sb_service sb ! i) \<Longrightarrow> i < sb_nserv sb \<Longrightarrow> sb_nodes (sb\<lparr>sb_service := (sb_service sb)[i := v]\<rparr>) = sb_nodes sb"
  using list_update_id [of "sb_nodes sb" i] by (simp add: sb_nodes_def map_update)

lemma account_failure_abs:
  "account_failure sb sc status = Inr sb' \<Longrightarrow> sb_refs sb' = sb_refs sb \<and> sb_nodes sb' = sb_nodes sb"
  by (auto simp: account_failure_def Let_def sb_nodes_update split: if_splits)

lemma try_next_abs: "try_next sb sc = Inr (r, sb', sc') \<Longrightarrow> sb' = sb"
  by (auto simp: try_next_def split: sum.splits if_splits)

lemma sbalance_conn_next_abs:
  "sbalance_conn_next sb sc status draw = Inr (r, sb', sc') \<Longrightarrow> sb_refs sb' = sb_refs sb \<and> sb_nodes sb' = sb_nodes sb"
  by (auto simp: sbalance_conn_next_def dest: account_failure_abs try_next_abs split: sum.splits if_splits)

lemma sbalance_conn_done_abs:
  "sbalance_conn_done sb sc = Inr sb' \<Longrightarrow> sb_refs sb' = sb_refs sb \<and> sb_nodes sb' = sb_nodes sb"
  by (auto simp: sbalance_conn_done_def sb_nodes_update split: if_splits)

lemma conn_next_abs:
  assumes "conn_next env pool conn status = Some (pool', conn')"
  shows "pool_abs pool' = pool_abs pool \<and> fc_sc_sb conn' = fc_sc_sb conn"
proof -
  obtain b sb r sb' sc where "sb_at pool b = Some sb"
    "sbalance_conn_next sb (fc_sc conn) status (ne_random env (pm_draws pool)) = Inr (r, sb', sc)"
    "pool' = (set_sb b (Some sb') pool)\<lparr>pm_draws := pm_draws pool + 1\<rparr>" "fc_sc_sb conn' = fc_sc_sb conn"
    using assms unfolding conn_next_def by (auto elim!: bindE split: sum.split_asm)
  then show ?thesis using pool_abs_set_sb sbalance_conn_next_abs by simp
qed

lemma conn_done_abs: "conn_done pool conn = Some pool' \<Longrightarrow> pool_abs pool' = pool_abs pool"
  unfolding conn_done_def
  by (auto elim!: bindE split: option.split_asm sum.split_asm dest: sbalance_conn_done_abs intro!: pool_abs_set_sb)

lemma recycle_entry_abs [simp]: "pool_abs (recycle_entry pool conn) = pool_abs pool"
  by (simp add: recycle_entry_def split: option.split)

lemma move_port_sb: "fd_pool_move_port pool conn = Some (r, conn') \<Longrightarrow> fc_sc_sb conn' = fc_sc_sb conn"
  unfolding fd_pool_move_port_def by (auto elim!: bindE split: prod.split_asm)

lemma move_node_abs:
  "fd_pool_move_node env pool conn status = Some r \<Longrightarrow> pool_abs (fst r) = pool_abs pool \<and> fc_sc_sb (snd r) = fc_sc_sb conn"
proof (induction rule: fd_pool_move_node.raw_induct [rotated, consumes 1, case_names step])
  case (step move env pool conn status r)
  note IH = step(1)
  obtain pool1 conn1 where nxt: "conn_next env pool conn status = Some (pool1, conn1)"
    and rest: "(case fc_sn conn1 of None \<Rightarrow> Some (pool1, conn1)
       | Some p \<Rightarrow>
           do {
             sn \<leftarrow> sn_at pool1 p;
             skip \<leftarrow> filtered conn1 sn;
             if skip then move env pool1 conn1 SBCS_START
             else
               do {
                 (found, conn) \<leftarrow> fd_pool_move_port pool1 (conn1\<lparr>fc_pk_ptr := fc_port_key conn1, fc_port := None\<rparr>);
                 if found then Some (pool1, conn) else move env pool1 conn SBCS_START
               }
           }) = Some r"
    using step(2) by (auto elim!: bindE)
  have "pool_abs (fst r) = pool_abs pool1 \<and> fc_sc_sb (snd r) = fc_sc_sb conn1"
    using rest
    by (auto elim!: bindE split: option.split_asm if_split_asm dest!: IH move_port_sb)
  then show ?case using conn_next_abs [OF nxt] by simp
qed

lemma set_entries_abs: "set_entries nid i es lp pool = Some pool' \<Longrightarrow> pool_abs pool' = pool_abs pool"
  unfolding set_entries_def by (auto simp: pool_abs_set_node elim!: bindE split: if_split_asm)

lemma try_stored_abs: "try_stored env pool conn p = Some (r, pool') \<Longrightarrow> pool_abs pool' = pool_abs pool"
  unfolding try_stored_def by (auto elim!: bindE dest!: set_entries_abs split: if_split_asm prod.split_asm)

lemma try_connect_abs: "try_connect env pool conn p = Some (r, pool') \<Longrightarrow> pool_abs pool' = pool_abs pool"
  unfolding try_connect_def by (auto elim!: bindE)

lemma get_move_abs:
  "get_move env pool conn status = Some (pool', conn') \<Longrightarrow> pool_abs pool' = pool_abs pool \<and> fc_sc_sb conn' = fc_sc_sb conn"
  unfolding get_move_def by (auto elim!: bindE split: if_split_asm dest!: move_node_abs move_port_sb)

lemma get_loop_abs:
  "get_loop env pool conn status = Some r \<Longrightarrow> pool_abs (fst (snd r)) = pool_abs pool \<and> fc_sc_sb (snd (snd r)) = fc_sc_sb conn"
proof (induction rule: get_loop.raw_induct [rotated, consumes 1, case_names step])
  case (step loop env pool conn status r)
  note IH = step(1)
  obtain pool1 conn1 where move: "get_move env pool conn status = Some (pool1, conn1)"
    and rest: "(case fc_port conn1 of None \<Rightarrow> Some (-1, pool1, conn1)
       | Some p \<Rightarrow>
           do {
             (r, pool) \<leftarrow> try_stored env (recycle_entry pool1 conn1) conn1 p;
             (case r of
                Some e \<Rightarrow> Some (fe_fd e, pool, conn1\<lparr>fc_entry := Some e, fc_active_fd := True\<rparr>)
              | None \<Rightarrow>
                  do {
                    (fd, pool) \<leftarrow> try_connect env pool conn1 p;
                    (case fd of
                       Some fd \<Rightarrow> Some (fd, pool, conn1\<lparr>fc_entry := None, fc_active_fd := True\<rparr>)
                     | None \<Rightarrow> loop env pool (conn1\<lparr>fc_entry := None\<rparr>) SBCS_FAIL)
                  })
           }) = Some r"
    using step(2) by (auto elim!: bindE)
  have "pool_abs (fst (snd r)) = pool_abs pool1 \<and> fc_sc_sb (snd (snd r)) = fc_sc_sb conn1"
    using rest
    by (auto elim!: bindE split: option.split_asm dest!: IH try_stored_abs try_connect_abs)
  then show ?case using get_move_abs [OF move] by simp
qed

lemma take_entry_abs: "pool_abs (snd (take_entry pool conn)) = pool_abs pool"
  by (simp add: take_entry_def split: option.split list.split)

lemma fd_pool_put_abs:
  assumes "fd_pool_put env pool conn fd = Some (pool', conn')"
  shows "pool_abs pool' = pool_abs pool \<and> fc_sc_sb conn' = fc_sc_sb conn"
proof (cases "ne_keep env fd")
  case True
  obtain a pool1 where take: "take_entry pool conn = (a, pool1)" by fastforce
  then have take': "take_entry pool (conn\<lparr>fc_active_fd := False\<rparr>) = (a, pool1)" by (simp add: take_entry_def)
  obtain nid i es where "set_entries nid i es (Some a) pool1 = Some pool'" "conn' = conn\<lparr>fc_active_fd := False, fc_entry := None\<rparr>"
    using assms True take' unfolding fd_pool_put_def Let_def by (auto elim!: bindE)
  then show ?thesis using set_entries_abs take_entry_abs [of pool conn] take by auto
next
  case False
  then show ?thesis using assms unfolding fd_pool_put_def Let_def by (auto elim!: bindE)
qed

subsection \<open>Counts\<close>

definition sb_view :: "fd_pool \<Rightarrow> nat \<Rightarrow> (int \<times> nat list) option" where
  "sb_view pool b = map_option (\<lambda>sb. (sb_refs sb, sb_nodes sb)) (sb_at pool b)"

definition node_view :: "fd_pool \<Rightarrow> nat \<Rightarrow> int option" where
  "node_view pool nid = map_option nd_refs (pnode_at pool nid)"

text \<open>The number of service nodes at a node.\<close>

definition owners :: "fd_pool \<Rightarrow> nat \<Rightarrow> nat" where
  "owners pool nid = (\<Sum>b<length (pm_sbs pool). case sb_view pool b of None \<Rightarrow> 0 | Some (r, ns) \<Rightarrow> count_list ns nid)"

text \<open>Memory is allocated exactly while it has references, and its count is their number.\<close>

definition counted :: "nat \<Rightarrow> int option \<Rightarrow> bool" where
  "counted k c \<longleftrightarrow> c = (if k = 0 then None else Some (int k))"

text \<open>
  The counts are right when balancer \<open>b\<close> has \<open>H b\<close> holders and \<open>pend\<close> are the nodes of service nodes being made
  or freed.
\<close>

definition ref_ok :: "(nat \<Rightarrow> nat) \<Rightarrow> nat list \<Rightarrow> fd_pool \<Rightarrow> bool" where
  "ref_ok H pend pool \<longleftrightarrow>
    (\<forall>b. counted (H b) (map_option fst (sb_view pool b))) \<and>
    (\<forall>nid. counted (owners pool nid + count_list pend nid) (node_view pool nid)) \<and>
    distinct (all_nodes pool) \<and> set (all_nodes pool) = {nid. node_view pool nid \<noteq> None}"

lemma mem_at_map: "mem_at (map (map_option f) m) i = map_option f (mem_at m i)"
  by (simp add: mem_at_def)

lemma pool_absD:
  assumes "pool_abs pool' = pool_abs pool"
  shows "sb_view pool' = sb_view pool" "node_view pool' = node_view pool" "owners pool' = owners pool"
    "services pool' = services pool" "map srv_sb (pm_srvs pool') = map srv_sb (pm_srvs pool)" "all_nodes pool' = all_nodes pool"
    "length (pm_srvs pool') = length (pm_srvs pool)"
proof -
  have sbs: "map (map_option (\<lambda>sb. (sb_refs sb, sb_nodes sb))) (pm_sbs pool') = map (map_option (\<lambda>sb. (sb_refs sb, sb_nodes sb))) (pm_sbs pool)"
    and nodes: "map (map_option nd_refs) (pm_nodes pool') = map (map_option nd_refs) (pm_nodes pool)"
    and rest: "services pool' = services pool" "map srv_sb (pm_srvs pool') = map srv_sb (pm_srvs pool)" "all_nodes pool' = all_nodes pool"
    using assms by (simp_all add: pool_abs_def)
  show views: "sb_view pool' = sb_view pool"
    by (simp add: fun_eq_iff sb_view_def sb_at_def mem_at_map [symmetric] sbs)
  show "node_view pool' = node_view pool"
    by (simp add: fun_eq_iff node_view_def pnode_at_def mem_at_map [symmetric] nodes)
  show "owners pool' = owners pool" using views map_eq_imp_length_eq [OF sbs] by (simp add: owners_def fun_eq_iff)
  show "length (pm_srvs pool') = length (pm_srvs pool)" using map_eq_imp_length_eq [OF rest(2)] .
  show "services pool' = services pool" "map srv_sb (pm_srvs pool') = map srv_sb (pm_srvs pool)" "all_nodes pool' = all_nodes pool"
    by (fact rest)+
qed

lemma ref_ok_abs: "pool_abs pool' = pool_abs pool \<Longrightarrow> ref_ok H pend pool' = ref_ok H pend pool"
  unfolding ref_ok_def by (simp only: pool_absD [of pool' pool])

lemma sb_view_Some: "sb_view pool b = Some (r, ns) \<longleftrightarrow> (\<exists>sb. sb_at pool b = Some sb \<and> sb_refs sb = r \<and> sb_nodes sb = ns)"
  by (auto simp: sb_view_def)

lemma sb_at_length: "sb_at pool b = Some sb \<Longrightarrow> b < length (pm_sbs pool)"
  by (simp add: sb_at_def mem_at_def split: if_splits)

lemma pnode_at_length: "pnode_at pool nid = Some n \<Longrightarrow> nid < length (pm_nodes pool)"
  by (simp add: pnode_at_def mem_at_def split: if_splits)

definition entry_nodes :: "fd_pool_service_node sbalance option \<Rightarrow> nat list" where
  "entry_nodes e = (case e of None \<Rightarrow> [] | Some sb \<Rightarrow> sb_nodes sb)"

lemma owners_entry: "owners pool nid = (\<Sum>b<length (pm_sbs pool). count_list (entry_nodes (sb_at pool b)) nid)"
  unfolding owners_def by (intro sum.cong refl) (simp add: entry_nodes_def sb_view_def split: option.split)

lemma owners_set_sb:
  assumes "sb_at pool b = Some sb"
  shows "owners (set_sb b e pool) nid + count_list (sb_nodes sb) nid = owners pool nid + count_list (entry_nodes e) nid"
proof -
  let ?n = "length (pm_sbs pool)" and ?f = "\<lambda>pool b. count_list (entry_nodes (sb_at pool b)) nid"
  have b: "b \<in> {..<?n}" using sb_at_length [OF assms] by simp
  have eq: "(\<Sum>i\<in>{..<?n} - {b}. ?f (set_sb b e pool) i) = (\<Sum>i\<in>{..<?n} - {b}. ?f pool i)"
    using assms by (intro sum.cong refl) (auto simp: sb_at_set_sb)
  have "owners (set_sb b e pool) nid = (\<Sum>i<?n. ?f (set_sb b e pool) i)" by (simp add: owners_entry set_sb_def)
  also have "\<dots> = count_list (entry_nodes e) nid + (\<Sum>i\<in>{..<?n} - {b}. ?f pool i)"
    unfolding eq [symmetric] using sum.remove [OF finite_lessThan b, of "?f (set_sb b e pool)"] assms by (simp add: sb_at_set_sb)
  finally show ?thesis
    using sum.remove [OF finite_lessThan b, of "?f pool"] assms by (simp add: owners_entry entry_nodes_def)
qed

lemma node_view_set_sb [simp]: "node_view (set_sb b e pool) = node_view pool" "all_nodes (set_sb b e pool) = all_nodes pool"
  by (simp_all add: node_view_def fun_eq_iff set_sb_def pnode_at_def)

lemma sb_view_set_sb:
  "sb_at pool b = Some sb \<Longrightarrow> sb_view (set_sb b e pool) = (sb_view pool)(b := map_option (\<lambda>sb. (sb_refs sb, sb_nodes sb)) e)"
  by (auto simp: sb_view_def fun_eq_iff sb_at_set_sb)

text \<open>Putting another balancer in the place of one.\<close>

lemma ref_ok_set_sb:
  assumes ok: "ref_ok H pend pool" and sb: "sb_at pool b = Some sb"
    and count: "\<And>nid. count_list (sb_nodes sb) nid + count_list pend nid = count_list (entry_nodes e) nid + count_list pend' nid"
    and refs: "counted h (map_option sb_refs e)"
  shows "ref_ok (H(b := h)) pend' (set_sb b e pool)"
proof -
  have own: "owners (set_sb b e pool) nid + count_list pend' nid = owners pool nid + count_list pend nid" for nid
    using owners_set_sb [OF sb, of e nid] count [of nid] by linarith
  show ?thesis
    using ok refs unfolding ref_ok_def own sb_view_set_sb [OF sb] by (simp add: option.map_comp comp_def)
qed

lemma set_node_frame [simp]:
  "services (set_node nid n pool) = services pool" "pm_srvs (set_node nid n pool) = pm_srvs pool"
  "all_nodes (set_node nid n pool) = all_nodes pool" "sb_view (set_node nid n pool) = sb_view pool"
  "owners (set_node nid n pool) = owners pool"
  by (simp_all add: set_node_def sb_view_def owners_def sb_at_def fun_eq_iff)

lemma set_sb_frame [simp]: "services (set_sb b e pool) = services pool" "pm_srvs (set_sb b e pool) = pm_srvs pool"
  by (simp_all add: set_sb_def)

lemma node_view_set_node:
  "pnode_at pool nid = Some n \<Longrightarrow> node_view (set_node nid e pool) = (node_view pool)(nid := map_option nd_refs e)"
  by (auto simp: node_view_def fun_eq_iff pnode_at_set_node)

lemma view_simps [simp]:
  "sb_view (pool\<lparr>all_nodes := x\<rparr>) = sb_view pool" "owners (pool\<lparr>all_nodes := x\<rparr>) = owners pool"
  "node_view (pool\<lparr>all_nodes := x\<rparr>) = node_view pool" "pnode_at (pool\<lparr>all_nodes := x\<rparr>) = pnode_at pool"
  "sb_view (pool\<lparr>pm_closed := y\<rparr>) = sb_view pool" "owners (pool\<lparr>pm_closed := y\<rparr>) = owners pool"
  "node_view (pool\<lparr>pm_closed := y\<rparr>) = node_view pool"
  by (simp_all add: sb_view_def owners_def sb_at_def node_view_def pnode_at_def fun_eq_iff)

lemma free_node_ok:
  assumes "ref_ok H (sn_node sn # pend) pool"
  shows "\<exists>pool'. fd_pool_free_node sn pool = Some pool' \<and> ref_ok H pend pool' \<and> services pool' = services pool \<and> pm_srvs pool' = pm_srvs pool"
proof -
  let ?nid = "sn_node sn"
  have counts: "counted (owners pool nid + count_list (?nid # pend) nid) (node_view pool nid)" for nid
    using assms by (simp add: ref_ok_def)
  obtain n where n: "pnode_at pool ?nid = Some n" "nd_refs n = int (owners pool ?nid + count_list pend ?nid) + 1"
    using counts [of ?nid] by (auto simp: counted_def node_view_def)
  show ?thesis
  proof (cases "owners pool ?nid + count_list pend ?nid = 0")
    case True
    define pool1 where "pool1 = pool\<lparr>all_nodes := remove1 ?nid (all_nodes pool),
      pm_closed := pm_closed pool @ map fe_fd (concat (map pt_entries (nd_ports n)))\<rparr>"
    have pool1: "pnode_at pool1 = pnode_at pool" "sb_view pool1 = sb_view pool" "owners pool1 = owners pool"
      "node_view pool1 = node_view pool" "all_nodes pool1 = remove1 ?nid (all_nodes pool)"
      "services pool1 = services pool" "pm_srvs pool1 = pm_srvs pool" by (simp_all add: pool1_def)
    have "fd_pool_free_node sn pool = Some (set_node ?nid None pool1)" using n True by (simp add: fd_pool_free_node_def pool1_def)
    moreover have "ref_ok H pend (set_node ?nid None pool1)"
      using assms counts True n(1) unfolding ref_ok_def
      by (auto simp: pool1 node_view_set_node counted_def set_remove1_eq)
    ultimately show ?thesis using pool1 by (intro exI [of _ "set_node ?nid None pool1"]) simp
  next
    case False
    let ?n = "n\<lparr>nd_refs := nd_refs n - 1\<rparr>"
    have "0 < nd_refs n - 1" using n(2) False by linarith
    then have "fd_pool_free_node sn pool = Some (set_node ?nid (Some ?n) pool)" using n(1) by (simp add: fd_pool_free_node_def)
    moreover have "counted (owners pool nid + count_list pend nid) (((node_view pool)(?nid := Some (nd_refs n - 1))) nid)" for nid
      using counts [of nid] n(2) False by (auto simp: counted_def)
    then have "ref_ok H pend (set_node ?nid (Some ?n) pool)"
      using assms n(1) unfolding ref_ok_def by (simp add: node_view_set_node) (auto simp: node_view_def)
    ultimately show ?thesis by (intro exI [of _ "set_node ?nid (Some ?n) pool"]) simp
  qed
qed

lemma free_nodes_ok:
  "ref_ok H (map sn_node sns @ pend) pool \<Longrightarrow>
   \<exists>pool'. free_nodes sns pool = Some pool' \<and> ref_ok H pend pool' \<and> services pool' = services pool \<and> pm_srvs pool' = pm_srvs pool"
proof (induction sns arbitrary: pool)
  case (Cons sn sns)
  then obtain pool1 where 1: "fd_pool_free_node sn pool = Some pool1" "ref_ok H (map sn_node sns @ pend) pool1"
    "services pool1 = services pool" "pm_srvs pool1 = pm_srvs pool"
    using free_node_ok [of H sn "map sn_node sns @ pend" pool] by auto
  then show ?case using Cons.IH [OF 1(2)] by auto
qed auto

lemma release_sb_ok:
  assumes ok: "ref_ok H [] pool" and held: "0 < H b"
  shows "\<exists>pool'. release_sb b pool = Some pool' \<and> ref_ok (H(b := H b - 1)) [] pool' \<and>
    services pool' = services pool \<and> pm_srvs pool' = pm_srvs pool"
proof -
  have "counted (H b) (map_option fst (sb_view pool b))" using ok by (simp add: ref_ok_def)
  then obtain sb where sb: "sb_at pool b = Some sb" "sb_refs sb = int (H b)"
    using held by (auto simp: counted_def sb_view_def)
  show ?thesis
  proof (cases "1 < H b")
    case True
    let ?sb = "sb\<lparr>sb_refs := sb_refs sb - 1\<rparr>"
    have "ref_ok (H(b := H b - 1)) [] (set_sb b (Some ?sb) pool)"
      using ok sb(1) by (rule ref_ok_set_sb) (use sb True in \<open>auto simp: entry_nodes_def sb_nodes_def counted_def\<close>)
    moreover have "release_sb b pool = Some (set_sb b (Some ?sb) pool)"
      using sb True by (simp add: release_sb_def sbalance_release_def)
    ultimately show ?thesis by (intro exI [of _ "set_sb b (Some ?sb) pool"]) simp
  next
    case False
    have "ref_ok (H(b := H b - 1)) (map sn_node (map sv_data (sb_service sb)) @ []) (set_sb b None pool)"
      using ok sb(1) by (rule ref_ok_set_sb) (use held False in \<open>auto simp: entry_nodes_def sb_nodes_def counted_def comp_def\<close>)
    moreover have "release_sb b pool = free_nodes (map sv_data (sb_service sb)) (set_sb b None pool)"
      using sb False by (simp add: release_sb_def sbalance_release_def)
    ultimately show ?thesis using free_nodes_ok by (metis set_sb_frame)
  qed
qed

subsection \<open>Adding nodes\<close>

text \<open>What an operation that fills a balancer keeps.\<close>

definition fills :: "fd_pool \<Rightarrow> fd_pool \<Rightarrow> bool" where
  "fills pool pool' \<longleftrightarrow> (\<forall>H. ref_ok H [] pool \<longrightarrow> ref_ok H [] pool') \<and> services pool' = services pool \<and> pm_srvs pool' = pm_srvs pool"

lemma fills_refl [simp]: "fills pool pool"
  by (simp add: fills_def)

lemma fills_trans: "fills pool pool1 \<Longrightarrow> fills pool1 pool2 \<Longrightarrow> fills pool pool2"
  by (simp add: fills_def)

lemma fetch_node_ok:
  assumes ok: "ref_ok H pend pool" and ret: "fd_pool_fetch_node pool socktype ports = Some (Some nid, pool')"
  shows "ref_ok H (nid # pend) pool' \<and> services pool' = services pool \<and> pm_srvs pool' = pm_srvs pool"
proof -
  obtain n where n: "pnode_at pool nid = Some n" and pool': "pool' = set_node nid (Some (n\<lparr>nd_refs := nd_refs n + 1\<rparr>)) pool"
    using ret unfolding fd_pool_fetch_node_def by (auto elim!: bindE split: option.split_asm)
  have "counted (owners pool i + count_list (nid # pend) i) (((node_view pool)(nid := Some (nd_refs n + 1))) i)" for i
  proof -
    have "counted (owners pool i + count_list pend i) (node_view pool i)" using ok by (simp add: ref_ok_def)
    then show ?thesis using n by (auto simp: counted_def node_view_def split: if_splits)
  qed
  then have "ref_ok H (nid # pend) pool'"
    using ok n unfolding ref_ok_def pool' by (simp add: node_view_set_node) (auto simp: node_view_def)
  then show ?thesis by (simp add: pool')
qed

lemma fetch_node_None: "fd_pool_fetch_node pool socktype ports = Some (None, pool') \<Longrightarrow> pool' = pool"
  unfolding fd_pool_fetch_node_def by (auto elim!: bindE split: option.split_asm)

lemma node_new_ok:
  assumes ok: "ref_ok H pend pool" and new: "fd_pool_node_new pool socktype c ports = (nid, pool')"
  shows "ref_ok H (nid # pend) pool' \<and> services pool' = services pool \<and> pm_srvs pool' = pm_srvs pool"
proof -
  have nid: "nid = length (pm_nodes pool)" using new by (auto simp: fd_pool_node_new_def Let_def)
  have none: "node_view pool nid = None" by (simp add: nid node_view_def pnode_at_def mem_at_def)
  have views: "sb_view pool' = sb_view pool" "owners pool' = owners pool" "node_view pool' = (node_view pool)(nid := Some 1)"
    "all_nodes pool' = all_nodes pool @ [nid]" "services pool' = services pool" "pm_srvs pool' = pm_srvs pool"
    using new by (auto simp: fd_pool_node_new_def Let_def sb_view_def owners_def sb_at_def node_view_def pnode_at_def mem_at_def
        fun_eq_iff nth_append)
  have zero: "owners pool nid + count_list pend nid = 0"
    using ok none by (auto simp: ref_ok_def counted_def split: if_splits dest!: spec [of _ nid])
  have "counted (owners pool i + count_list (nid # pend) i) (((node_view pool)(nid := Some 1)) i)" for i
  proof (cases "i = nid")
    case True
    then show ?thesis using zero by (simp add: counted_def)
  next
    case False
    then show ?thesis using ok by (simp add: ref_ok_def)
  qed
  moreover have "nid \<notin> set (all_nodes pool)" using ok none by (simp add: ref_ok_def)
  ultimately have "ref_ok H (nid # pend) pool'" using ok unfolding ref_ok_def views by auto
  then show ?thesis using views by simp
qed

lemma fetch_node_frame:
  "fd_pool_fetch_node pool socktype ports = Some (Some nid, pool') \<Longrightarrow> services pool' = services pool \<and> pm_srvs pool' = pm_srvs pool"
  unfolding fd_pool_fetch_node_def by (auto elim!: bindE split: option.split_asm)

lemma node_new_frame:
  "fd_pool_node_new pool socktype c ports = (nid, pool') \<Longrightarrow> services pool' = services pool \<and> pm_srvs pool' = pm_srvs pool"
  by (auto simp: fd_pool_node_new_def Let_def)

text \<open>The node a service node is made for, found or new, counts the service node already.\<close>

definition fetch_or_new :: "fd_pool \<Rightarrow> vtree_chain option \<Rightarrow> int \<Rightarrow> fd_pool_port list \<Rightarrow> (nat \<times> fd_pool) option" where
  "fetch_or_new pool vtree socktype ports =
    do {
      r \<leftarrow> fd_pool_fetch_node pool socktype ports;
      (case r of
         (Some nid, pool) \<Rightarrow> Some (nid, pool)
       | (None, pool) \<Rightarrow> do { c \<leftarrow> vt_getint vtree ''cost''; Some (fd_pool_node_new pool socktype (if c \<noteq> 0 then c else 1) ports) })
    }"

lemma fetch_or_new_ok:
  assumes "fetch_or_new pool vtree socktype ports = Some (nid, pool')"
  shows "(ref_ok H [] pool \<longrightarrow> ref_ok H [nid] pool') \<and> services pool' = services pool \<and> pm_srvs pool' = pm_srvs pool"
proof -
  obtain r pool0 where fetch: "fd_pool_fetch_node pool socktype ports = Some (r, pool0)"
    using assms unfolding fetch_or_new_def by (auto elim!: bindE)
  show ?thesis
  proof (cases r)
    case None
    then obtain c where "fd_pool_node_new pool socktype c ports = (nid, pool')"
      using assms fetch fetch_node_None [of pool socktype ports pool0] unfolding fetch_or_new_def by (auto elim!: bindE)
    then show ?thesis using node_new_ok [of H "[]"] node_new_frame by blast
  next
    case (Some i)
    then have "fd_pool_fetch_node pool socktype ports = Some (Some nid, pool')"
      using assms fetch unfolding fetch_or_new_def by simp
    then show ?thesis using fetch_node_ok [of H "[]"] fetch_node_frame by blast
  qed
qed

lemma add_node_fills:
  assumes "fd_pool_add_node pool b key vtree socktype ports = Some pool'"
  shows "fills pool pool'"
proof (cases "ports = []")
  case True
  then show ?thesis using assms by (simp add: fd_pool_add_node_def)
next
  case False
  have eq: "fd_pool_add_node pool b key vtree socktype ports =
      do {
        (nid, pool) \<leftarrow> fetch_or_new pool vtree socktype ports;
        node \<leftarrow> pnode_at pool nid;
        sb \<leftarrow> sb_at pool b;
        Some (set_sb b (Some (sbalance_add_serv sb (word_of_int (nd_cost node)) \<lparr>sn_key = key, sn_node = nid\<rparr>)) pool)
      }"
    using False unfolding fd_pool_add_node_def fetch_or_new_def by simp
  obtain nid pool1 c sb where new: "fetch_or_new pool vtree socktype ports = Some (nid, pool1)" and sb: "sb_at pool1 b = Some sb"
    and pool': "pool' = set_sb b (Some (sbalance_add_serv sb c \<lparr>sn_key = key, sn_node = nid\<rparr>)) pool1"
    using assms unfolding eq by (auto elim!: bindE)
  have "ref_ok H [] pool'" if "ref_ok H [] pool" for H
  proof -
    have ok: "ref_ok H [nid] pool1" using fetch_or_new_ok [OF new] that by blast
    then have "counted (H b) (map_option fst (sb_view pool1 b))" by (simp add: ref_ok_def)
    then have "ref_ok (H(b := H b)) [] pool'"
      unfolding pool' using sb
      by (intro ref_ok_set_sb [OF ok sb]) (auto simp: entry_nodes_def sb_nodes_def sbalance_add_serv_def sb_view_def)
    then show ?thesis by simp
  qed
  then show ?thesis using fetch_or_new_ok [OF new] by (simp add: fills_def pool')
qed

lemma add_runs_fills: "add_runs pool b key vtree socktype run ps = Some pool' \<Longrightarrow> fills pool pool'"
proof (induction pool b key vtree socktype run ps rule: add_runs.induct)
  case (2 pool b key vtree socktype run p ps)
  show ?case
  proof (cases "ports_cmp (hd run) p \<noteq> 0")
    case True
    then show ?thesis using 2 by (auto elim!: bindE intro: fills_trans dest: add_node_fills)
  next
    case False
    then show ?thesis using 2 by simp
  qed
qed (auto dest: add_node_fills)

lemma fd_pool_add_fills: "fd_pool_add pool b key vtree socktype ports = Some pool' \<Longrightarrow> fills pool pool'"
  by (auto simp: fd_pool_add_def dest: add_runs_fills split: list.split_asm)

lemma populate_hosts_fills: "populate_hosts env hints b hosts start cnts err pool = Some (r, pool') \<Longrightarrow> fills pool pool'"
proof (induction cnts arbitrary: err pool)
  case (Cons cnt cnts)
  show ?case
    using Cons.prems
    by (auto simp: Let_def elim!: bindE split: if_split_asm kv_value.split_asm) (metis Cons.IH fd_pool_add_fills fills_trans)+
qed simp

lemma populate_fills: "fd_pool_populate_from_vtree env pool s b vtree = Some (r, pool') \<Longrightarrow> fills pool pool'"
  unfolding fd_pool_populate_from_vtree_def by (auto elim!: bindE dest: populate_hosts_fills)

subsection \<open>Services\<close>

abbreviation name_ok :: "cstring \<times> nat \<Rightarrow> bool" where
  "name_ok p \<equiv> nul_free (fst p)"

interpretation services: avl_order services_compare name_ok
  using avl_order_by_key [OF str.key_order_axioms, of fst] by (simp add: services_compare_def [abs_def])

text \<open>
  The pool with \<open>X b\<close> holders of balancer \<open>b\<close> besides the services: the counts are right, and the tree has every
  service once.
\<close>

definition pool_inv :: "(nat \<Rightarrow> nat) \<Rightarrow> fd_pool \<Rightarrow> bool" where
  "pool_inv X pool \<longleftrightarrow>
    ref_ok (\<lambda>b. count_list (map srv_sb (pm_srvs pool)) b + X b) [] pool \<and>
    avl_tree services_compare name_ok (services pool) \<and>
    mset (map snd (inorder (services pool))) = mset [0..<length (pm_srvs pool)]"

lemma pool_inv_fills: "pool_inv X pool \<Longrightarrow> fills pool pool' \<Longrightarrow> pool_inv X pool'"
  by (simp add: pool_inv_def fills_def)

lemma pool_inv_abs: "pool_inv X pool \<Longrightarrow> pool_abs pool' = pool_abs pool \<Longrightarrow> pool_inv X pool'"
  unfolding pool_inv_def using ref_ok_abs [of pool' pool] pool_absD(4,5,7) [of pool' pool] by simp

lemma pool_inv_new: "pool_inv (\<lambda>_. 0) fd_pool_new"
  by (simp add: pool_inv_def fd_pool_new_def ref_ok_def counted_def sb_view_def node_view_def sb_at_def pnode_at_def mem_at_def
      owners_def avl_tree_def)

lemma new_sb_ok:
  assumes ok: "ref_ok H [] pool" and new: "new_sb sb pool = (b, pool')" and sb: "sb_refs sb = 1" "sb_service sb = []"
  shows "ref_ok (H(b := 1)) [] pool' \<and> H b = 0 \<and> services pool' = services pool \<and> pm_srvs pool' = pm_srvs pool"
proof -
  have b: "b = length (pm_sbs pool)" using new by (simp add: new_sb_def)
  have none: "sb_view pool b = None" by (simp add: b sb_view_def sb_at_def mem_at_def)
  have views: "sb_view pool' = (sb_view pool)(b := Some (1, []))" "node_view pool' = node_view pool" "all_nodes pool' = all_nodes pool"
    "services pool' = services pool" "pm_srvs pool' = pm_srvs pool" "length (pm_sbs pool') = Suc b"
    using new sb by (auto simp: new_sb_def sb_view_def sb_at_def node_view_def pnode_at_def mem_at_def fun_eq_iff nth_append sb_nodes_def)
  have own: "owners pool' = owners pool"
    unfolding owners_def views(6) by (simp add: fun_eq_iff views(1) b)
  have "counted (H b) (map_option fst (sb_view pool b))" using ok by (simp add: ref_ok_def)
  then have "H b = 0" using none by (simp add: counted_def split: if_splits)
  moreover have "counted ((H(b := 1)) i) (map_option fst (((sb_view pool)(b := Some (1, []))) i))" for i
    using ok by (cases "i = b") (simp_all add: ref_ok_def, simp add: counted_def)
  then have "ref_ok (H(b := 1)) [] pool'"
    using ok unfolding ref_ok_def views own by blast
  ultimately show ?thesis using views by simp
qed

lemma find_service_bound:
  assumes "pool_inv X pool" "nul_free service" "fd_pool_find_service pool service = Some s"
  shows "s < length (pm_srvs pool)"
proof -
  have "avl_lookup services_compare (service, 0) (services pool) = find (\<lambda>a. services_compare (service, 0) a = 0) (inorder (services pool))"
    using assms services.lookup_find [of "services pool" "(service, 0)"] by (simp add: pool_inv_def avl_tree_def)
  then have "s \<in> set (map snd (inorder (services pool)))"
    using assms(3) by (auto simp: fd_pool_find_service_def find_Some_iff image_iff) (metis nth_mem snd_conv)
  also have "set (map snd (inorder (services pool))) = {..<length (pm_srvs pool)}"
    using assms(1) mset_eq_setD [of "map snd (inorder (services pool))" "[0..<length (pm_srvs pool)]"]
    by (simp add: pool_inv_def lessThan_atLeast0)
  finally show ?thesis by simp
qed

lemma get_service_inv:
  assumes inv: "pool_inv X pool" and ok: "nul_free service"
    and get: "fd_pool_get_service pool service retries failcost softcost st timeoutms hints = Some (s, pool')"
  shows "pool_inv X pool'"
proof (cases "avl_lookup services_compare (service, 0) (services pool)")
  case (Some p)
  then show ?thesis using get inv by (cases p) (simp add: fd_pool_get_service_def)
next
  case None
  obtain b pool1 where new: "new_sb (sbalance_create retries failcost softcost st) pool = (b, pool1)" by fastforce
  have frame: "services pool1 = services pool" "pm_srvs pool1 = pm_srvs pool" using new by (auto simp: new_sb_def)
  obtain t srv where t: "avl_insert services_compare (service, length (pm_srvs pool)) (services pool) = Some t" and srv: "srv_sb srv = b"
    and pool': "pool' = pool1\<lparr>pm_srvs := pm_srvs pool @ [srv], services := t\<rparr>"
    using get None new frame unfolding fd_pool_get_service_def Let_def by (auto elim!: bindE) (metis fd_pool_service.select_convs(2))
  have tree: "avl_tree services_compare name_ok (services pool)" and ms: "mset (map snd (inorder (services pool))) = mset [0..<length (pm_srvs pool)]"
    using inv by (simp_all add: pool_inv_def)
  have "find (\<lambda>a. services_compare (service, 0) a = 0) (inorder (services pool)) = None"
    using None tree ok services.lookup_find [of "services pool" "(service, 0)"] by (simp add: avl_tree_def)
  then have other: "\<forall>a\<in>set (inorder (services pool)). services_compare (service, length (pm_srvs pool)) a \<noteq> 0"
    unfolding find_None_iff services_compare_def by auto
  then obtain t' where t': "avl_insert services_compare (service, length (pm_srvs pool)) (services pool) = Some t'"
      "avl_tree services_compare name_ok t'" "inorder t' = filter (\<lambda>a. services_compare a (service, length (pm_srvs pool)) < 0) (inorder (services pool)) @
        (service, length (pm_srvs pool)) # filter (\<lambda>a. services_compare (service, length (pm_srvs pool)) a < 0) (inorder (services pool))"
    using services.insert_tree [OF tree, of "(service, length (pm_srvs pool))"] ok by auto
  have eq: "mset (inorder t') = add_mset (service, length (pm_srvs pool)) (mset (inorder (services pool)))"
  proof -
    have "services_compare a (service, k) < 0 \<longleftrightarrow> \<not> services_compare (service, k) a < 0"
      if "a \<in> set (inorder (services pool))" "k = length (pm_srvs pool)" for a k
      using that other tree ok services.flip [of a "(service, k)"] by (auto simp: avl_tree_def avl_sorted_def)
    then have "filter (\<lambda>a. services_compare a (service, length (pm_srvs pool)) < 0) (inorder (services pool)) =
        filter (\<lambda>a. \<not> services_compare (service, length (pm_srvs pool)) a < 0) (inorder (services pool))"
      by (intro filter_cong) auto
    then show ?thesis unfolding t'(3) by (simp add: union_commute)
  qed
  have tt: "t' = t" using t t'(1) by simp
  have "mset (map snd (inorder t')) = add_mset (length (pm_srvs pool)) (mset (map snd (inorder (services pool))))"
    unfolding mset_map eq by simp
  also have "\<dots> = mset [0..<Suc (length (pm_srvs pool))]" unfolding ms by simp
  finally have ms': "mset (map snd (inorder t)) = mset [0..<length (pm_srvs pool')]" unfolding tt by (simp add: pool')
  have "ref_ok ((\<lambda>b. count_list (map srv_sb (pm_srvs pool)) b + X b)(b := 1)) [] pool1 \<and> count_list (map srv_sb (pm_srvs pool)) b + X b = 0"
  proof -
    have "ref_ok (\<lambda>b. count_list (map srv_sb (pm_srvs pool)) b + X b) [] pool" using inv by (simp add: pool_inv_def)
    from new_sb_ok [OF this new] show ?thesis by (simp add: sbalance_create_def)
  qed
  moreover have "(\<lambda>i. count_list (map srv_sb (pm_srvs pool @ [srv])) i + X i) = (\<lambda>b. count_list (map srv_sb (pm_srvs pool)) b + X b)(b := 1)"
    using calculation srv by (auto simp: fun_eq_iff)
  ultimately have "ref_ok (\<lambda>i. count_list (map srv_sb (pm_srvs pool')) i + X i) [] pool1" by (simp add: pool')
  moreover have "ref_ok H [] pool' = ref_ok H [] pool1" for H
    by (simp add: pool' ref_ok_def sb_view_def sb_at_def node_view_def pnode_at_def owners_def)
  moreover have "services pool' = t" by (simp add: pool')
  ultimately show ?thesis using ms' t'(2) unfolding pool_inv_def tt by simp
qed

end
