(* ===== verification/FdPoolSafe.thy ===== *)
theory FdPoolSafe
  imports FdPoolRefs
begin

text \<open>
  The connection pool under any sequence of calls: balancers and nodes that a service, a connection or an
  unfinished update uses are allocated, and \<open>fd_pool_free\<close> finds nothing left when all connections are freed.
\<close>

subsection \<open>Services are made and filled\<close>

lemma config_service_inv:
  "pool_inv X pool \<Longrightarrow> nul_free service \<Longrightarrow> config_service pool service vtree hints = Some (s, pool') \<Longrightarrow> pool_inv X pool'"
  unfolding config_service_def by (auto elim!: bindE dest: get_service_inv)

lemma add_config_inv:
  assumes "pool_inv X pool" "\<forall>name. vt_get vtree ''service'' = Some (Some name) \<longrightarrow> nul_free name" "nul_free (hash_name vtree)"
    and "fd_pool_add_config env hash_name pool vtree hints = Some (r, name, pool')"
  shows "pool_inv X pool'"
proof (cases "live vtree = None")
  case True
  then show ?thesis using assms by (simp add: fd_pool_add_config_def)
next
  case False
  then obtain v s pool1 b where v: "vt_get vtree ''service'' = Some v"
    and cfg: "config_service pool (case v of None \<Rightarrow> hash_name vtree | Some n \<Rightarrow> n) vtree hints = Some (s, pool1)"
    and rest: "pool' = pool1 \<or> (\<exists>err. fd_pool_populate_from_vtree env pool1 s b vtree = Some (err, pool'))"
    using assms(4) unfolding fd_pool_add_config_def by (auto elim!: bindE split: if_split_asm) blast+
  have "nul_free (case v of None \<Rightarrow> hash_name vtree | Some n \<Rightarrow> n)" using assms(2,3) v by (cases v) auto
  then have "pool_inv X pool1" using config_service_inv [OF assms(1) _ cfg] by blast
  then show ?thesis using rest pool_inv_fills populate_fills by blast
qed

lemma create_inv:
  assumes "nul_free service" "fd_pool_create env service vtree hints = Some (Some pool)"
  shows "pool_inv (\<lambda>_. 0) pool"
proof -
  obtain s pool1 b err where "config_service fd_pool_new service vtree hints = Some (s, pool1)"
    "fd_pool_populate_from_vtree env pool1 s b vtree = Some (err, pool)"
    using assms(2) unfolding fd_pool_create_def by (auto elim!: bindE split: if_split_asm)
  then show ?thesis using config_service_inv [OF pool_inv_new assms(1)] pool_inv_fills populate_fills by blast
qed

lemma create_single_inv:
  assumes "nul_free service" "fd_pool_create_single env service host port retries timeoutms hints = Some (Some pool)"
  shows "pool_inv (\<lambda>_. 0) pool"
  using assms(2) unfolding fd_pool_create_single_def Let_def
  by (auto elim!: bindE split: sum.split_asm if_split_asm dest!: get_service_inv [OF pool_inv_new assms(1)] fd_pool_add_fills
      intro: pool_inv_fills)

lemma create_unix_inv:
  assumes "nul_free service" "fd_pool_create_unix env service path retries timeoutms socktype = Some pool"
  shows "pool_inv (\<lambda>_. 0) pool"
  using assms(2) unfolding fd_pool_create_unix_def
  by (auto elim!: bindE dest!: get_service_inv [OF pool_inv_new assms(1)] fd_pool_add_fills intro: pool_inv_fills)

lemma add_single_inv:
  assumes "pool_inv X pool" "nul_free service" "fd_pool_add_single env pool service host port retries timeoutms hints = Some (r, pool')"
  shows "pool_inv X pool'"
  using assms(3,1) unfolding fd_pool_add_single_def Let_def
  by (auto elim!: bindE split: sum.split_asm dest!: get_service_inv [OF assms(1,2)] fd_pool_add_fills intro: pool_inv_fills)

lemma add_unix_inv:
  assumes "pool_inv X pool" "nul_free service" "fd_pool_add_unix env pool service path retries timeoutms socktype = Some (r, pool')"
  shows "pool_inv X pool'"
  using assms(3) unfolding fd_pool_add_unix_def
  by (auto elim!: bindE dest!: get_service_inv [OF assms(1,2)] fd_pool_add_fills intro: pool_inv_fills)

subsection \<open>Holders\<close>

lemma pool_inv_release:
  assumes "pool_inv X pool" "0 < X b"
  shows "\<exists>pool'. release_sb b pool = Some pool' \<and> pool_inv (X(b := X b - 1)) pool'"
proof -
  let ?S = "\<lambda>i. count_list (map srv_sb (pm_srvs pool)) i"
  obtain pool' where rel: "release_sb b pool = Some pool'" and ok: "ref_ok ((\<lambda>i. ?S i + X i)(b := ?S b + X b - 1)) [] pool'"
    and frame: "services pool' = services pool" "pm_srvs pool' = pm_srvs pool"
    using release_sb_ok [of "\<lambda>i. ?S i + X i" pool b] assms unfolding pool_inv_def by auto
  have "(\<lambda>i. ?S i + X i)(b := ?S b + X b - 1) = (\<lambda>i. ?S i + (X(b := X b - 1)) i)" using assms(2) by (auto simp: fun_eq_iff)
  then show ?thesis using rel ok frame assms(1) unfolding pool_inv_def by auto
qed

lemma pool_inv_retain:
  assumes inv: "pool_inv X pool" and sb: "sb_at pool b = Some sb"
  shows "pool_inv (X(b := X b + 1)) (set_sb b (Some (sbalance_retain sb)) pool)"
proof -
  let ?S = "\<lambda>i. count_list (map srv_sb (pm_srvs pool)) i"
  have ok: "ref_ok (\<lambda>i. ?S i + X i) [] pool" using inv by (simp add: pool_inv_def)
  then have "counted (?S b + X b) (map_option fst (sb_view pool b))" by (simp add: ref_ok_def)
  then have "sb_refs sb = int (?S b + X b)" using sb by (simp add: sb_view_def counted_def split: if_splits)
  then have "ref_ok ((\<lambda>i. ?S i + X i)(b := ?S b + X b + 1)) [] (set_sb b (Some (sbalance_retain sb)) pool)"
    by (intro ref_ok_set_sb [OF ok sb]) (auto simp: entry_nodes_def sb_nodes_def sbalance_retain_def counted_def)
  moreover have "(\<lambda>i. ?S i + X i)(b := ?S b + X b + 1) = (\<lambda>i. ?S i + (X(b := X b + 1)) i)" by (auto simp: fun_eq_iff)
  ultimately show ?thesis using inv by (simp add: pool_inv_def)
qed

text \<open>The balancer a connection holds.\<close>

definition conn_holds :: "fd_pool_conn \<Rightarrow> nat \<Rightarrow> nat" where
  "conn_holds c b = (if fc_sc_sb c = Some b then 1 else 0)"

lemma conn_release_inv:
  assumes inv: "pool_inv (\<lambda>b. X b + conn_holds c b) pool"
  shows "\<exists>pool'. conn_release pool c = Some pool' \<and> pool_inv X pool'"
proof (cases "fc_sc_sb c")
  case None
  then show ?thesis using inv by (simp add: conn_release_def conn_holds_def)
next
  case (Some b)
  have "(\<lambda>i. X i + conn_holds c i)(b := X b + conn_holds c b - 1) = X" using Some by (auto simp: conn_holds_def fun_eq_iff)
  then show ?thesis using pool_inv_release [OF inv, of b] Some by (simp add: conn_release_def conn_holds_def)
qed

lemma get_restart_inv:
  assumes inv: "pool_inv (\<lambda>b. X b + conn_holds c b) pool" and get: "get_restart env pool c s status = Some (pool', c')"
  shows "pool_inv (\<lambda>b. X b + conn_holds c' b) pool'"
proof -
  obtain srv where srv: "srv_at pool s = Some srv" using get unfolding get_restart_def by (auto elim!: bindE)
  show ?thesis
  proof (cases "status = SBCS_START \<or> fc_sb_gen c < srv_sb_gen srv")
    case False
    then show ?thesis using get inv srv by (simp add: get_restart_def)
  next
    case True
    then obtain pool1 pool2 sb sb1 sc where same: "pool_abs pool1 = pool_abs pool" and rel: "conn_release pool1 c = Some pool2"
      and sb: "sb_at pool2 (srv_sb srv) = Some sb" "sb1 = sbalance_retain sb"
      and pool': "pool' = (set_sb (srv_sb srv) (Some sb1) pool2)\<lparr>pm_draws := pm_draws pool2 + 1\<rparr>" "fc_sc_sb c' = Some (srv_sb srv)"
      using get srv unfolding get_restart_def
      by (auto elim!: bindE split: if_split_asm prod.split_asm simp: sbalance_conn_new_def Let_def dest: conn_done_abs)
    have "pool_inv X pool2" using conn_release_inv [OF pool_inv_abs [OF inv same]] rel by simp
    from pool_inv_retain [OF this sb(1)] have "pool_inv (X(srv_sb srv := X (srv_sb srv) + 1)) pool'"
      unfolding pool' sb(2) by (rule pool_inv_abs) simp
    moreover have "X(srv_sb srv := X (srv_sb srv) + 1) = (\<lambda>b. X b + conn_holds c' b)"
      using pool'(2) by (auto simp: conn_holds_def fun_eq_iff)
    ultimately show ?thesis by simp
  qed
qed

lemma conn_holds_simps [simp]:
  "conn_holds (c\<lparr>fc_active_fd := a\<rparr>) = conn_holds c" "conn_holds (c\<lparr>fc_node_filter := f\<rparr>) = conn_holds c"
  "conn_holds (c\<lparr>fc_async := s\<rparr>) = conn_holds c" "conn_holds (c\<lparr>fc_nonblock := n\<rparr>) = conn_holds c"
  by (simp_all add: conn_holds_def fun_eq_iff)

lemma conn_holds_cong: "fc_sc_sb c' = fc_sc_sb c \<Longrightarrow> conn_holds c' = conn_holds c"
  by (simp add: conn_holds_def fun_eq_iff)

lemma fd_pool_get_inv:
  assumes inv: "pool_inv (\<lambda>b. X b + conn_holds c b) pool" and get: "fd_pool_get env pool c status = Some (fd, pool', c')"
  shows "pool_inv (\<lambda>b. X b + conn_holds c' b) pool'"
proof (cases "fc_srv c")
  case None
  then have "pool' = pool" "c' = c\<lparr>fc_active_fd := False\<rparr>" using get by (simp_all add: fd_pool_get_def)
  then show ?thesis using inv by simp
next
  case (Some s)
  let ?c = "c\<lparr>fc_active_fd := False\<rparr>"
  obtain pool1 c1 where 1: "get_restart env pool ?c s status = Some (pool1, c1)" "get_loop env pool1 c1 status = Some (fd, pool', c')"
    using get Some unfolding fd_pool_get_def Let_def by (auto elim!: bindE)
  have "pool_inv (\<lambda>b. X b + conn_holds c1 b) pool1" using get_restart_inv [OF _ 1(1), of X] inv by simp
  then show ?thesis using get_loop_abs [OF 1(2)] pool_inv_abs conn_holds_cong [of c' c1] by simp
qed

lemma fd_pool_put_inv:
  assumes "pool_inv (\<lambda>b. X b + conn_holds c b) pool" "fd_pool_put env pool c fd = Some (pool', c')"
  shows "pool_inv (\<lambda>b. X b + conn_holds c' b) pool'"
  using fd_pool_put_abs [OF assms(2)] pool_inv_abs [OF assms(1)] conn_holds_cong [of c' c] by simp

lemma fd_pool_free_conn_inv:
  assumes inv: "pool_inv (\<lambda>b. X b + conn_holds c b) pool" and free: "fd_pool_free_conn pool c = Some pool'"
  shows "pool_inv X pool'"
proof -
  obtain pool1 pool2 where 1: "conn_done pool c = Some pool1" "conn_release pool1 c = Some pool2" "pool' = recycle_entry pool2 c"
    using free unfolding fd_pool_free_conn_def by (auto elim!: bindE)
  have "pool_inv X pool2" using conn_release_inv [OF pool_inv_abs [OF inv conn_done_abs [OF 1(1)]]] 1(2) by simp
  then show ?thesis unfolding 1(3) by (rule pool_inv_abs) simp
qed

text \<open>\<open>fd_pool_conn_writev\<close> closes descriptors and takes new ones.\<close>

lemma writev_inv:
  assumes "writev_loop env writev_retry k pool c sockfd failed = Some r"
  shows "pool_inv (\<lambda>b. X b + conn_holds c b) pool \<longrightarrow>
    pool_inv (\<lambda>b. X b + conn_holds (snd (snd (snd r))) b) (fst (snd (snd r)))"
  using assms
proof (induction rule: writev_loop.raw_induct [rotated, consumes 1, case_names step])
  case (step loop env writev_retry k pool c sockfd failed r)
  obtain fd pool1 c1 where
    get: "(if sockfd < 0 \<or> failed then
       fd_pool_get env (if 0 \<le> sockfd then pool\<lparr>pm_closed := pm_closed pool @ [sockfd]\<rparr> else pool) c
         (if 0 \<le> sockfd then SBCS_FAIL else SBCS_START)
     else Some (sockfd, pool, c)) = Some (fd, pool1, c1)"
    and rest: "(if fd < 0 then Some (-1, -1, pool1, c1)
      else if writev_retry k fd then Some (0, fd, pool1, c1)
      else loop env writev_retry (k + 1) pool1 c1 fd True) = Some r"
    using step(2) by (auto elim!: bindE)
  have "pool_inv (\<lambda>b. X b + conn_holds c1 b) pool1" if inv: "pool_inv (\<lambda>b. X b + conn_holds c b) pool"
  proof -
    have "pool_inv (\<lambda>b. X b + conn_holds c b) (if 0 \<le> sockfd then pool\<lparr>pm_closed := pm_closed pool @ [sockfd]\<rparr> else pool)"
      using inv by (rule pool_inv_abs) simp
    then show ?thesis using get inv fd_pool_get_inv by (auto split: if_split_asm)
  qed
  moreover have "pool_inv (\<lambda>b. X b + conn_holds c1 b) pool1 \<longrightarrow>
      pool_inv (\<lambda>b. X b + conn_holds (snd (snd (snd r))) b) (fst (snd (snd r)))"
    using rest step(1) by (auto split: if_split_asm)
  ultimately show ?case by blast
qed

subsection \<open>Updates\<close>

lemma update_begin_inv:
  assumes inv: "pool_inv X pool" and upd: "update_begin env pool s vtree = Some (n, src, b, pool')"
  shows "pool_inv (X(b := X b + 1)) pool'"
proof -
  obtain rt fc sf st pool1 where new: "new_sb (sbalance_create rt fc sf st) pool = (b, pool1)"
    and pop: "fd_pool_populate_from_vtree env pool1 s b vtree = Some (n, pool')"
    using upd unfolding update_begin_def Let_def by (auto elim!: bindE split: prod.split_asm)
  let ?S = "\<lambda>i. count_list (map srv_sb (pm_srvs pool)) i"
  have "ref_ok (\<lambda>i. ?S i + X i) [] pool" using inv by (simp add: pool_inv_def)
  from new_sb_ok [OF this new] have ok: "ref_ok ((\<lambda>i. ?S i + X i)(b := 1)) [] pool1" "?S b + X b = 0"
    "services pool1 = services pool" "pm_srvs pool1 = pm_srvs pool" by (auto simp: sbalance_create_def)
  have "(\<lambda>i. ?S i + X i)(b := 1) = (\<lambda>i. ?S i + (X(b := X b + 1)) i)" using ok(2) by (auto simp: fun_eq_iff)
  then have "pool_inv (X(b := X b + 1)) pool1" using ok(1) inv unfolding pool_inv_def ok(3,4) by metis
  then show ?thesis using pool_inv_fills populate_fills [OF pop] by blast
qed

text \<open>A service takes over the balancer of the update, which holds the old one from then on.\<close>

lemma swap_inv:
  assumes inv: "pool_inv X pool" and srv: "srv_at pool s = Some srv" "srv_sb srv = src" and b: "0 < X b" "b \<noteq> src"
  shows "pool_inv (X(b := X b - 1, src := X src + 1))
    (pool\<lparr>pm_srvs := (pm_srvs pool)[s := srv\<lparr>srv_sb := b, srv_sb_gen := g\<rparr>]\<rparr>)"
proof -
  let ?srvs = "(pm_srvs pool)[s := srv\<lparr>srv_sb := b, srv_sb_gen := g\<rparr>]"
  have s: "s < length (pm_srvs pool)" "pm_srvs pool ! s = srv" using srv(1) by (auto simp: srv_at_def split: if_splits)
  have "mset (map srv_sb ?srvs) = add_mset b (mset (map srv_sb (pm_srvs pool)) - {#src#})"
    using s srv(2) by (simp add: map_update mset_update del: mset_map)
  moreover have "src \<in># mset (map srv_sb (pm_srvs pool))" using s srv(2) by force
  ultimately have "count_list (map srv_sb ?srvs) i + (X(b := X b - 1, src := X src + 1)) i =
      count_list (map srv_sb (pm_srvs pool)) i + X i" for i
    using b unfolding count_mset [symmetric] by (auto simp del: mset_map)
  moreover have "ref_ok H [] (pool\<lparr>pm_srvs := ?srvs\<rparr>) = ref_ok H [] pool" for H
    by (simp add: ref_ok_def sb_view_def sb_at_def node_view_def pnode_at_def owners_def)
  ultimately show ?thesis using inv by (simp add: pool_inv_def)
qed

lemma update_commit_inv:
  assumes inv: "pool_inv X pool" and b: "0 < X b" and upd: "update_commit pool s n src b = Some (r, pool')"
  shows "pool_inv (X(b := X b - 1)) pool'"
proof -
  obtain sb srv where sb: "sb_at pool b = Some sb" and srv: "srv_at pool s = Some srv"
    using upd unfolding update_commit_def by (auto elim!: bindE)
  show ?thesis
  proof (cases "sb_nserv sb \<noteq> 0 \<and> srv_sb srv = src")
    case True
    let ?pool = "pool\<lparr>pm_srvs := (pm_srvs pool)[s := srv\<lparr>srv_sb := b, srv_sb_gen := srv_sb_gen srv + 1\<rparr>]\<rparr>"
    have rel: "release_sb src ?pool = Some pool'"
      using upd True sb srv unfolding update_commit_def Let_def by (auto elim!: bindE)
    show ?thesis
    proof (cases "b = src")
      case same: True
      have "s < length (pm_srvs pool)" "pm_srvs pool ! s = srv" using srv by (auto simp: srv_at_def split: if_splits)
      then have "map srv_sb (pm_srvs ?pool) = map srv_sb (pm_srvs pool)"
        using list_update_id [of "map srv_sb (pm_srvs pool)" s] True same by (simp add: map_update)
      then have "pool_abs ?pool = pool_abs pool" by (simp add: pool_abs_def)
      from pool_inv_release [OF pool_inv_abs [OF inv this] b] rel same show ?thesis by simp
    next
      case False
      from swap_inv [OF inv srv _ b False] True have "pool_inv (X(b := X b - 1, src := X src + 1)) ?pool" by blast
      from pool_inv_release [OF this, of src] rel False show ?thesis by (simp add: fun_upd_twist)
    qed
  next
    case False
    then have "release_sb b pool = Some pool'"
      using upd sb srv unfolding update_commit_def Let_def by (auto elim!: bindE split: if_split_asm)
    then show ?thesis using pool_inv_release [OF inv b] by auto
  qed
qed

subsection \<open>Reachable pools\<close>

type_synonym pool_update = "nat \<times> int \<times> nat \<times> nat"

text \<open>
  A pool with its connections and the updates that have begun.  Service names are C strings; what the calls
  return and whether they find something is arbitrary.
\<close>

inductive pool_reach :: "'d net_env \<Rightarrow> fd_pool \<times> fd_pool_conn list \<times> pool_update list \<Rightarrow> bool" for env where
  reach_new: "pool_reach env (fd_pool_new, [], [])"
| reach_create: "nul_free service \<Longrightarrow> fd_pool_create env service vtree hints = Some (Some pool) \<Longrightarrow> pool_reach env (pool, [], [])"
| reach_create_single:
    "nul_free service \<Longrightarrow> fd_pool_create_single env service host port retries timeoutms hints = Some (Some pool) \<Longrightarrow>
     pool_reach env (pool, [], [])"
| reach_create_unix:
    "nul_free service \<Longrightarrow> fd_pool_create_unix env service path retries timeoutms socktype = Some pool \<Longrightarrow>
     pool_reach env (pool, [], [])"
| reach_add_config:
    "pool_reach env (pool, cs, us) \<Longrightarrow> \<forall>name. vt_get vtree ''service'' = Some (Some name) \<longrightarrow> nul_free name \<Longrightarrow>
     nul_free (hash_name vtree) \<Longrightarrow> fd_pool_add_config env hash_name pool vtree hints = Some (r, name, pool') \<Longrightarrow>
     pool_reach env (pool', cs, us)"
| reach_add_single:
    "pool_reach env (pool, cs, us) \<Longrightarrow> nul_free service \<Longrightarrow>
     fd_pool_add_single env pool service host port retries timeoutms hints = Some (r, pool') \<Longrightarrow> pool_reach env (pool', cs, us)"
| reach_add_unix:
    "pool_reach env (pool, cs, us) \<Longrightarrow> nul_free service \<Longrightarrow>
     fd_pool_add_unix env pool service path retries timeoutms socktype = Some (r, pool') \<Longrightarrow> pool_reach env (pool', cs, us)"
| reach_update_begin:
    "pool_reach env (pool, cs, us) \<Longrightarrow> fd_pool_find_service pool service = Some s \<Longrightarrow>
     update_begin env pool s vtree = Some (n, src, b, pool') \<Longrightarrow> pool_reach env (pool', cs, (s, n, src, b) # us)"
| reach_update_commit:
    "pool_reach env (pool, cs, us1 @ (s, n, src, b) # us2) \<Longrightarrow> update_commit pool s n src b = Some (r, pool') \<Longrightarrow>
     pool_reach env (pool', cs, us1 @ us2)"
| reach_new_conn:
    "pool_reach env (pool, cs, us) \<Longrightarrow> fd_pool_new_conn pool service port_key remote_addr = Some c \<Longrightarrow> pool_reach env (pool, c # cs, us)"
| reach_get:
    "pool_reach env (pool, cs1 @ c # cs2, us) \<Longrightarrow> fd_pool_get env pool c status = Some (fd, pool', c') \<Longrightarrow>
     pool_reach env (pool', cs1 @ c' # cs2, us)"
| reach_put:
    "pool_reach env (pool, cs1 @ c # cs2, us) \<Longrightarrow> fd_pool_put env pool c fd = Some (pool', c') \<Longrightarrow>
     pool_reach env (pool', cs1 @ c' # cs2, us)"
| reach_writev:
    "pool_reach env (pool, cs1 @ c # cs2, us) \<Longrightarrow> fd_pool_conn_writev env writev_retry pool c fd = Some (r, fd', pool', c') \<Longrightarrow>
     pool_reach env (pool', cs1 @ c' # cs2, us)"
| reach_free_conn:
    "pool_reach env (pool, cs1 @ c # cs2, us) \<Longrightarrow> fd_pool_free_conn pool c = Some pool' \<Longrightarrow> pool_reach env (pool', cs1 @ cs2, us)"
| reach_set_node_key:
    "pool_reach env (pool, cs1 @ c # cs2, us) \<Longrightarrow> pool_reach env (pool, cs1 @ fd_pool_set_node_key c key # cs2, us)"
| reach_set_port_key:
    "pool_reach env (pool, cs1 @ c # cs2, us) \<Longrightarrow> fd_pool_set_port_key pool c port_key = Some c' \<Longrightarrow>
     pool_reach env (pool, cs1 @ c' # cs2, us)"
| reach_set_async:
    "pool_reach env (pool, cs1 @ c # cs2, us) \<Longrightarrow> pool_reach env (pool, cs1 @ fd_pool_set_async c async # cs2, us)"
| reach_set_nonblock:
    "pool_reach env (pool, cs1 @ c # cs2, us) \<Longrightarrow> pool_reach env (pool, cs1 @ fd_pool_set_nonblock c nb # cs2, us)"
| reach_set_portmap: "pool_reach env (pool, cs, us) \<Longrightarrow> pool_reach env (fd_pool_set_portmap pool um, cs, us)"
| reach_set_cycle_last: "pool_reach env (pool, cs, us) \<Longrightarrow> pool_reach env (fd_pool_set_cycle_last pool service cl, cs, us)"

text \<open>The holders besides the services.\<close>

definition holders :: "fd_pool_conn list \<Rightarrow> pool_update list \<Rightarrow> nat \<Rightarrow> nat" where
  "holders cs us b = (\<Sum>c\<leftarrow>cs. conn_holds c b) + (\<Sum>u\<leftarrow>us. if snd (snd (snd u)) = b then 1 else 0)"

lemma holders_Nil [simp]: "holders [] [] = (\<lambda>b. 0)"
  by (simp add: holders_def fun_eq_iff)

lemma holders_conn: "holders (cs1 @ c # cs2) us = (\<lambda>b. holders (cs1 @ cs2) us b + conn_holds c b)"
  by (simp add: holders_def fun_eq_iff)

lemma holders_update: "holders cs (us1 @ (s, n, src, b) # us2) = (holders cs (us1 @ us2))(b := holders cs (us1 @ us2) b + 1)"
  by (auto simp: holders_def fun_eq_iff)

lemma set_cycle_last_abs: "pool_abs (fd_pool_set_cycle_last pool service cl) = pool_abs pool"
proof (cases "fd_pool_find_service pool service")
  case (Some s)
  have "map srv_sb ((pm_srvs pool)[s := (pm_srvs pool ! s)\<lparr>srv_cycle_last := cl\<rparr>]) = map srv_sb (pm_srvs pool)"
    using list_update_id [of "map srv_sb (pm_srvs pool)" s] list_update_beyond [of "map srv_sb (pm_srvs pool)" s]
    by (cases "s < length (pm_srvs pool)") (simp_all add: map_update)
  then show ?thesis using Some by (simp add: fd_pool_set_cycle_last_def pool_abs_def)
qed (simp add: fd_pool_set_cycle_last_def)

lemma reach_inv: "pool_reach env (pool, cs, us) \<Longrightarrow> pool_inv (holders cs us) pool"
proof (induction "(pool, cs, us)" arbitrary: pool cs us rule: pool_reach.induct)
  case reach_new
  then show ?case using pool_inv_new by simp
next
  case (reach_create service vtree hints pool)
  then show ?case using create_inv by simp
next
  case (reach_create_single service host port retries timeoutms hints pool)
  then show ?case using create_single_inv by simp
next
  case (reach_create_unix service path retries timeoutms socktype pool)
  then show ?case using create_unix_inv by simp
next
  case (reach_update_begin pool cs us service s vtree n src b pool')
  then show ?case using update_begin_inv holders_update [of cs "[]" s n src b us] by auto
next
  case (reach_update_commit pool cs us1 s n src b us2 r pool')
  let ?X = "holders cs (us1 @ (s, n, src, b) # us2)"
  have "0 < ?X b" "?X(b := ?X b - 1) = holders cs (us1 @ us2)" by (simp_all add: holders_update)
  then show ?case using update_commit_inv [OF reach_update_commit(2) _ reach_update_commit(3)] by metis
next
  case (reach_new_conn pool cs us service port_key remote_addr c)
  have "fc_sc_sb c = None" using reach_new_conn(3) unfolding fd_pool_new_conn_def by (auto elim!: bindE)
  then have "holders (c # cs) us = holders cs us" using holders_conn [of "[]" c cs us] by (simp add: conn_holds_def fun_eq_iff)
  then show ?case using reach_new_conn by simp
next
  case (reach_writev pool cs1 c cs2 us writev_retry fd r fd' pool' c')
  then show ?case
    using writev_inv [of env writev_retry 0 pool c fd False "(r, fd', pool', c')" "holders (cs1 @ cs2) us"]
    by (simp add: holders_conn fd_pool_conn_writev_def)
next
  case (reach_set_port_key pool cs1 c cs2 us port_key c')
  have "fc_sc_sb c' = fc_sc_sb c" using reach_set_port_key(3) unfolding fd_pool_set_port_key_def by (auto elim!: bindE)
  then show ?case using reach_set_port_key(2) conn_holds_cong [of c' c] by (simp add: holders_conn)
next
  case (reach_set_portmap pool cs us um)
  then show ?case by (auto intro: pool_inv_abs simp: fd_pool_set_portmap_def)
next
  case (reach_set_cycle_last pool cs us service cl)
  then show ?case using pool_inv_abs set_cycle_last_abs by blast
qed (auto simp: holders_conn fd_pool_set_node_key_def fd_pool_set_async_def fd_pool_set_nonblock_def
    intro: add_config_inv add_single_inv add_unix_inv fd_pool_get_inv fd_pool_put_inv fd_pool_free_conn_inv)

subsection \<open>Freeing the pool\<close>

lemma release_all_ok:
  assumes "\<forall>p\<in>set ss. snd p < length (pm_srvs pool)"
    and "ref_ok (\<lambda>b. count_list (map (\<lambda>p. srv_sb (pm_srvs pool ! snd p)) ss) b) [] pool"
  shows "\<exists>pool'. release_all ss pool = Some pool' \<and> ref_ok (\<lambda>b. 0) [] pool'"
  using assms
proof (induction ss arbitrary: pool)
  case (Cons p ss)
  obtain name s where p: "p = (name, s)" by fastforce
  let ?b = "srv_sb (pm_srvs pool ! s)" and ?H = "\<lambda>b. count_list (map (\<lambda>p. srv_sb (pm_srvs pool ! snd p)) (p # ss)) b"
  obtain pool1 where 1: "release_sb ?b pool = Some pool1" "ref_ok (?H(?b := ?H ?b - 1)) [] pool1" "pm_srvs pool1 = pm_srvs pool"
    using release_sb_ok [OF Cons.prems(2), of ?b] p by auto
  have "?H(?b := ?H ?b - 1) = (\<lambda>b. count_list (map (\<lambda>p. srv_sb (pm_srvs pool1 ! snd p)) ss) b)"
    using p 1(3) by (auto simp: fun_eq_iff)
  then obtain pool' where "release_all ss pool1 = Some pool'" "ref_ok (\<lambda>b. 0) [] pool'"
    using Cons.IH [of pool1] Cons.prems(1) 1(2,3) by auto
  then show ?case using 1(1) p Cons.prems(1) by (simp add: srv_at_def)
qed (simp add: ext [of "count_list []"])

lemma no_holders:
  assumes "ref_ok (\<lambda>b. 0) [] pool"
  shows "sb_at pool b = None" "pnode_at pool nid = None" "all_nodes pool = []"
proof -
  have view: "sb_view pool i = None" for i using assms by (auto simp: ref_ok_def counted_def dest: spec [of _ i])
  then have "owners pool i = 0" for i by (simp add: owners_def)
  then have nodes: "node_view pool i = None" for i using assms by (simp add: ref_ok_def counted_def)
  show "sb_at pool b = None" "pnode_at pool nid = None" using view [of b] nodes [of nid] by (simp_all add: sb_view_def node_view_def)
  show "all_nodes pool = []" using assms nodes by (simp add: ref_ok_def)
qed

lemma fd_pool_free_ok:
  assumes inv: "pool_inv (\<lambda>b. 0) pool" and len: "length (pm_srvs pool) < 2 ^ 32 - 1"
  shows "\<exists>pool'. fd_pool_free pool = Some pool' \<and> (\<forall>b. sb_at pool' b = None) \<and> (\<forall>nid. pnode_at pool' nid = None)"
proof -
  let ?ss = "inorder (services pool)"
  have tree: "avl_tree services_compare name_ok (services pool)" and ms: "mset (map snd ?ss) = mset [0..<length (pm_srvs pool)]"
    using inv by (simp_all add: pool_inv_def)
  have "length ?ss = length (pm_srvs pool)" using mset_eq_length [OF ms] by simp
  then have drain: "avl_it_drain (avl_it_init (services pool) None None services_compare) = Some ?ss"
    using services.drain_range [OF tree, of None None False] len by (simp add: avl_it_init_def)
  have "mset (map (\<lambda>p. srv_sb (pm_srvs pool ! snd p)) (rev ?ss)) = image_mset (\<lambda>s. srv_sb (pm_srvs pool ! s)) (mset (map snd ?ss))"
    by (simp add: image_mset.compositionality comp_def)
  also have "\<dots> = mset (map (\<lambda>s. srv_sb (pm_srvs pool ! s)) [0..<length (pm_srvs pool)])" unfolding ms by simp
  also have "map (\<lambda>s. srv_sb (pm_srvs pool ! s)) [0..<length (pm_srvs pool)] = map srv_sb (pm_srvs pool)"
    by (intro nth_equalityI) auto
  finally have count: "count_list (map (\<lambda>p. srv_sb (pm_srvs pool ! snd p)) (rev ?ss)) b = count_list (map srv_sb (pm_srvs pool)) b" for b
    unfolding count_mset [symmetric] by simp
  have bound: "\<forall>p\<in>set (rev ?ss). snd p < length (pm_srvs pool)" using mset_eq_setD [OF ms] by force
  have "ref_ok (\<lambda>b. count_list (map (\<lambda>p. srv_sb (pm_srvs pool ! snd p)) (rev ?ss)) b) [] pool"
    using inv unfolding count by (simp add: pool_inv_def)
  from release_all_ok [OF bound this] obtain pool' where rel: "release_all (rev ?ss) pool = Some pool'" "ref_ok (\<lambda>b. 0) [] pool'" by blast
  then have "fd_pool_free pool = Some (pool'\<lparr>free_entries := []\<rparr>)"
    using drain no_holders(3) by (simp add: fd_pool_free_def)
  then show ?thesis using no_holders(1,2) [OF rel(2)] by simp
qed

text \<open>A balancer with a holder is allocated, with its nodes.\<close>

lemma held_alive:
  assumes ok: "ref_ok H [] pool" and "0 < H b"
  shows "\<exists>sb. sb_at pool b = Some sb \<and> (\<forall>v\<in>set (sb_service sb). pnode_at pool (sn_node (sv_data v)) \<noteq> None)"
proof -
  have "counted (H b) (map_option fst (sb_view pool b))" using ok by (simp add: ref_ok_def)
  then obtain sb where sb: "sb_at pool b = Some sb" using assms(2) by (auto simp: counted_def sb_view_def)
  have "pnode_at pool (sn_node (sv_data v)) \<noteq> None" if "v \<in> set (sb_service sb)" for v
  proof -
    let ?nid = "sn_node (sv_data v)"
    have "?nid \<in> set (sb_nodes sb)" using that by (auto simp: sb_nodes_def)
    then have "0 < count_list (sb_nodes sb) ?nid" by (metis count_list_0_iff gr_zeroI)
    also have "\<dots> = count_list (entry_nodes (sb_at pool b)) ?nid" by (simp add: sb entry_nodes_def)
    also have "\<dots> \<le> owners pool ?nid"
      unfolding owners_entry using sb_at_length [OF sb]
      by (intro member_le_sum [of b "{..<length (pm_sbs pool)}" "\<lambda>b. count_list (entry_nodes (sb_at pool b)) ?nid"]) auto
    finally have "0 < owners pool ?nid" .
    moreover have "counted (owners pool ?nid) (node_view pool ?nid)" using ok by (simp add: ref_ok_def)
    ultimately show ?thesis by (auto simp: counted_def node_view_def)
  qed
  then show ?thesis using sb by blast
qed

lemma holder_counts:
  assumes "(\<exists>c\<in>set cs. fc_sc_sb c = Some b) \<or> (\<exists>srv\<in>set (pm_srvs pool). srv_sb srv = b) \<or> (\<exists>(s, n, src, b')\<in>set us. b' = b)"
  shows "0 < count_list (map srv_sb (pm_srvs pool)) b + holders cs us b"
proof -
  consider (conn) c cs1 cs2 where "cs = cs1 @ c # cs2" "fc_sc_sb c = Some b" | (srv) "b \<in> set (map srv_sb (pm_srvs pool))"
    | (upd) s n src us1 us2 where "us = us1 @ (s, n, src, b) # us2"
    using assms by (auto dest: split_list)
  then show ?thesis
  proof cases
    case srv
    then have "count_list (map srv_sb (pm_srvs pool)) b \<noteq> 0" by (simp only: count_list_0_iff) simp
    then show ?thesis by simp
  qed (simp_all add: holders_conn holders_update conn_holds_def)
qed

text \<open>
  C36: reference counting is right under any sequence of calls.  In every reachable state, the balancer a
  connection, a service or an unfinished update points to is allocated with all its nodes; once no connection and no
  update is left, \<open>fd_pool_free\<close> passes its assertion and leaves no balancer and no node allocated.
\<close>

theorem fd_pool_frees_exactly:
  assumes reach: "pool_reach env (pool, cs, us)"
  shows "(\<forall>b. (\<exists>c\<in>set cs. fc_sc_sb c = Some b) \<or> (\<exists>srv\<in>set (pm_srvs pool). srv_sb srv = b) \<or> (\<exists>(s, n, src, b')\<in>set us. b' = b) \<longrightarrow>
      (\<exists>sb. sb_at pool b = Some sb \<and> (\<forall>v\<in>set (sb_service sb). pnode_at pool (sn_node (sv_data v)) \<noteq> None))) \<and>
    (cs = [] \<and> us = [] \<and> length (pm_srvs pool) < 2 ^ 32 - 1 \<longrightarrow>
      (\<exists>pool'. fd_pool_free pool = Some pool' \<and> (\<forall>b. sb_at pool' b = None) \<and> (\<forall>nid. pnode_at pool' nid = None)))"
proof (intro conjI allI impI)
  have inv: "pool_inv (holders cs us) pool" using reach_inv [OF reach] .
  {
    fix b
    assume "(\<exists>c\<in>set cs. fc_sc_sb c = Some b) \<or> (\<exists>srv\<in>set (pm_srvs pool). srv_sb srv = b) \<or> (\<exists>(s, n, src, b')\<in>set us. b' = b)"
    then have "0 < count_list (map srv_sb (pm_srvs pool)) b + holders cs us b" by (rule holder_counts)
    then show "\<exists>sb. sb_at pool b = Some sb \<and> (\<forall>v\<in>set (sb_service sb). pnode_at pool (sn_node (sv_data v)) \<noteq> None)"
      using held_alive [of "\<lambda>b. count_list (map srv_sb (pm_srvs pool)) b + holders cs us b"] inv by (simp add: pool_inv_def)
  }
  assume "cs = [] \<and> us = [] \<and> length (pm_srvs pool) < 2 ^ 32 - 1"
  then show "\<exists>pool'. fd_pool_free pool = Some pool' \<and> (\<forall>b. sb_at pool' b = None) \<and> (\<forall>nid. pnode_at pool' nid = None)"
    using inv fd_pool_free_ok by simp
qed

text \<open>The pool of two nodes again: after a connection has been used and freed, freeing it frees everything.\<close>

definition used_pool :: fd_pool where
  "used_pool = (case the (fd_pool_get sample_env sample_fd_pool sample_fd_conn SBCS_START) of (fd, pool, c) \<Rightarrow> the (fd_pool_free_conn pool c))"

theorem fd_pool_frees_exactly_witness:
  "\<exists>pool'. fd_pool_free used_pool = Some pool' \<and> (\<forall>b. sb_at pool' b = None) \<and> (\<forall>nid. pnode_at pool' nid = None)"
proof -
  have create: "fd_pool_create_single sample_env ''search'' ''localhost'' ''80'' 1 2000 None = Some (Some sample_fd_pool)"
    and conn: "fd_pool_new_conn sample_fd_pool ''search'' (Some ''8080'') None = Some sample_fd_conn"
    and name: "nul_free ''search''" by code_simp+
  obtain fd pool c where get: "fd_pool_get sample_env sample_fd_pool sample_fd_conn SBCS_START = Some (fd, pool, c)"
    "fd_pool_free_conn pool c = Some used_pool"
  proof -
    have "(case fd_pool_get sample_env sample_fd_pool sample_fd_conn SBCS_START of None \<Rightarrow> False
        | Some (fd, pool, c) \<Rightarrow> fd_pool_free_conn pool c \<noteq> None)" by code_simp
    then show ?thesis using that by (auto simp: used_pool_def split: option.split_asm prod.split_asm)
  qed
  have "pool_reach sample_env (sample_fd_pool, [], [])" using reach_create_single [OF name create] .
  from reach_new_conn [OF this conn] have "pool_reach sample_env (sample_fd_pool, [] @ sample_fd_conn # [], [])" by simp
  from reach_get [OF this get(1)] reach_free_conn [OF _ get(2), of sample_env "[]" "[]" "[]"]
  have reach: "pool_reach sample_env (used_pool, [], [])" by simp
  have "length (pm_srvs used_pool) = 1" by code_simp
  then show ?thesis using fd_pool_frees_exactly [OF reach] by simp
qed

subsection \<open>An index that outlives its balancer\<close>

lemma strat_init_last: "sc_last (strat_init ops sb hash draw sc) = sc_last sc"
  by (simp add: strat_init_def sbalance_seq_init_def sbalance_seq_reinit_def sbalance_rand_init_def sbalance_hash_init_def
      split: sbalance_strat.split)

text \<open>
  C37: \<open>fd_pool_get\<close> after a failure, on a service that was updated since.  It starts over with the new balancer, but the
  index of the service tried last is the one of the old balancer: when the new one has fewer services the
  cost of the failure is written outside its array.
\<close>

theorem fd_pool_get_stale_index:
  assumes conn: "fc_srv conn = Some s" "srv_at pool s = Some srv" "fc_sb_gen conn < srv_sb_gen srv"
    and status: "status \<noteq> SBCS_START"
    and release: "conn_release pool conn = Some pool1" "sb_at pool1 (srv_sb srv) = Some sb"
    and fewer: "1 \<le> sb_nserv sb" "sb_nserv sb \<le> sc_last (fc_sc conn)"
    and new: "sbalance_conn_new (ne_ops env) sb (fc_sc_hash conn) (ne_random env (pm_draws pool1)) (fc_sc conn) = (sb1, sc)"
  shows "account_failure sb1 sc status = Inl Bad_index \<and> fd_pool_get env pool conn status = None"
proof -
  let ?conn = "conn\<lparr>fc_active_fd := False, fc_sb_gen := srv_sb_gen srv, fc_sn := None, fc_sc := sc, fc_sc_sb := Some (srv_sb srv)\<rparr>"
  let ?pool = "(set_sb (srv_sb srv) (Some sb1) pool1)\<lparr>pm_draws := pm_draws pool1 + 1\<rparr>"
  have sb1: "sb_nserv sb1 = sb_nserv sb" "sc_last sc = sc_last (fc_sc conn)"
    using new by (auto simp: sbalance_conn_new_def Let_def sbalance_retain_def strat_init_last)
  then have bad: "account_failure sb1 sc status = Inl Bad_index" using status fewer by (simp add: account_failure_def)
  have "sb_at ?pool (srv_sb srv) = Some sb1" using release(2) by (simp add: sb_at_set_sb)
  moreover have "sb_nserv sb1 \<noteq> 0" using sb1(1) fewer(1) by linarith
  ultimately have "conn_next env ?pool ?conn status = None" using bad by (simp add: conn_next_def sbalance_conn_next_def)
  then have "get_loop env ?pool ?conn status = None"
    unfolding get_loop_after get_move_def by (subst fd_pool_move_node.simps) simp
  moreover have "get_restart env pool (conn\<lparr>fc_active_fd := False\<rparr>) s status = Some (?pool, ?conn)"
    using conn(2,3) status release new by (simp add: get_restart_def conn_release_def)
  ultimately show ?thesis using bad conn(1) by (simp add: fd_pool_get_def)
qed

text \<open>Three hosts, each tried in turn; then the service is updated to one host, and the third one fails.\<close>

definition up_env :: "nat net_env" where
  "up_env = sample_env\<lparr>ne_connect := \<lambda>k p. Some (10 + int k), ne_getaddrinfo := \<lambda>h p hints. Inr [(h @ p, Some (h @ '' '' @ p))]\<rparr>"

definition hosts_vtree :: "cstring list \<Rightarrow> vtree_chain" where
  "hosts_vtree hs =
    (let host = (\<lambda>h. VT_literal (Keyvals vktDict [Kv_elem (Some ''name'') (vkvValue h), Kv_elem (Some ''port'') (vkvValue ''80'')]))
     in VT_literal (Keyvals vktDict
          [Kv_elem (Some ''host'') (vkvNode (VT_literal (Keyvals vktDict (map (\<lambda>h. Kv_elem (Some h) (vkvNode (host h))) hs))))]))"

definition three_pool :: fd_pool where
  "three_pool = the (the (fd_pool_create up_env ''search'' (Some (hosts_vtree [''a'', ''b'', ''c''])) None))"

definition third :: "fd_pool \<times> fd_pool_conn" where
  "third =
    (let conn = the (fd_pool_new_conn three_pool ''search'' None None);
         (_, pool, conn) = the (fd_pool_get up_env three_pool conn SBCS_START);
         (_, pool, conn) = the (fd_pool_get up_env pool conn SBCS_FAIL);
         (_, pool, conn) = the (fd_pool_get up_env pool conn SBCS_FAIL)
     in (snd (the (fd_pool_update_hosts up_env pool ''search'' (Some (hosts_vtree [''d''])))), conn))"

theorem fd_pool_get_stale_index_witness:
  "fd_pool_get up_env (fst third) (snd third) SBCS_FAIL = None"
proof -
  obtain pool conn where t: "third = (pool, conn)" by fastforce
  define srv pool1 sb where "srv = the (srv_at pool 0)" and "pool1 = the (conn_release pool conn)" and "sb = the (sb_at pool1 (srv_sb srv))"
  have "case third of (pool, conn) \<Rightarrow> fc_srv conn = Some 0 \<and> srv_at pool 0 \<noteq> None \<and> fc_sb_gen conn < srv_sb_gen (the (srv_at pool 0)) \<and>
      conn_release pool conn \<noteq> None \<and>
      (case sb_at (the (conn_release pool conn)) (srv_sb (the (srv_at pool 0))) of None \<Rightarrow> False
       | Some sb \<Rightarrow> 1 \<le> sb_nserv sb \<and> sb_nserv sb \<le> sc_last (fc_sc conn))"
    by code_simp
  then have run: "fc_srv conn = Some 0" "srv_at pool 0 = Some srv" "fc_sb_gen conn < srv_sb_gen srv" "conn_release pool conn = Some pool1"
    "sb_at pool1 (srv_sb srv) = Some sb" "1 \<le> sb_nserv sb" "sb_nserv sb \<le> sc_last (fc_sc conn)"
    unfolding t by (auto simp: srv_def pool1_def sb_def split: option.split_asm)
  obtain sb1 sc where "sbalance_conn_new (ne_ops up_env) sb (fc_sc_hash conn) (ne_random up_env (pm_draws pool1)) (fc_sc conn) = (sb1, sc)"
    by fastforce
  from fd_pool_get_stale_index [OF run(1-3) _ run(4-7) this, of SBCS_FAIL] show ?thesis unfolding t by simp
qed

end
