(* ===== verification/Base64.thy ===== *)
theory Base64
  imports Prelude
begin

text \<open>
  Base64, \<open>src/util/lib/base64.c\<close>.  Bytes are characters; the tables are strings indexed by six bits.  The
  decoder returns the bytes it writes, one list instead of the buffer \<open>dst\<close> and the count \<open>written\<close>.
\<close>

unbundle bit_operations_syntax

subsection \<open>Encoding\<close>

definition b64table :: cstring where
  "b64table = ''ABCDEFGHIJKLMNOPQRSTUVWXYZabcdefghijklmnopqrstuvwxyz0123456789+/''"

definition b64urltable :: cstring where
  "b64urltable = ''ABCDEFGHIJKLMNOPQRSTUVWXYZabcdefghijklmnopqrstuvwxyz0123456789-_''"

text \<open>One to three bytes give four characters.\<close>

fun base64_encode_triplet :: "cstring \<Rightarrow> char list \<Rightarrow> cstring" where
  "base64_encode_triplet table [a] =
    [table ! nat (drop_bit 2 (uchar a)),
     table ! nat (push_bit 4 (uchar a AND 3) OR 0),
     CHR ''='', CHR ''='']"
| "base64_encode_triplet table [a, b] =
    [table ! nat (drop_bit 2 (uchar a)),
     table ! nat (push_bit 4 (uchar a AND 3) OR drop_bit 4 (uchar b AND 0xF0)),
     table ! nat (push_bit 2 (uchar b AND 0xF) OR 0),
     CHR ''='']"
| "base64_encode_triplet table (a # b # c # _) =
    [table ! nat (drop_bit 2 (uchar a)),
     table ! nat (push_bit 4 (uchar a AND 3) OR drop_bit 4 (uchar b AND 0xF0)),
     table ! nat (push_bit 2 (uchar b AND 0xF) OR drop_bit 6 (uchar c AND 0xC0)),
     table ! nat (uchar c AND 0x3F)]"
| "base64_encode_triplet table [] = []"

fun base64_encode_table :: "cstring \<Rightarrow> char list \<Rightarrow> cstring" where
  "base64_encode_table table (a # b # c # src) =
    base64_encode_triplet table [a, b, c] @ base64_encode_table table src"
| "base64_encode_table table src = base64_encode_triplet table src"

definition base64_encode :: "char list \<Rightarrow> cstring" where
  "base64_encode src = base64_encode_table b64table src"

definition base64url_encode :: "char list \<Rightarrow> cstring" where
  "base64url_encode src = base64_encode_table b64urltable src"

text \<open>The value returned, \<open>(len + 2) / 3 * 4\<close>, and the size of the buffer in \<open>base64.h\<close>.\<close>

definition base64_encoded_len :: "nat \<Rightarrow> nat" where
  "base64_encoded_len n = (n + 2) div 3 * 4"

definition BASE64_NEEDED :: "nat \<Rightarrow> nat" where
  "BASE64_NEEDED sz = (sz + 2) div 3 * 4 + 1"

definition BASE64DECODE_NEEDED :: "nat \<Rightarrow> nat" where
  "BASE64DECODE_NEEDED sz = sz div 4 * 3 + 1"

subsection \<open>Decoding\<close>

text \<open>The table from \<open>+\<close> to \<open>z\<close>, written as in the source with characters for their codes.\<close>

definition deb64table :: "int list" where
  "deb64table =
    map uchar ''>'' @ replicate 3 0 @ map uchar ''?456789:;<='' @ replicate 3 0 @ [0] @ replicate 3 0 @
    map int [0..<26] @ replicate 6 0 @ map int [26..<32] @ map uchar '' !'' @ [34] @ map uchar ''#$%&'' @ [39] @ map uchar ''()*+,-./0123''"

text \<open>The value of a character: \<open>None\<close> where the decoder skips it.  Characters are signed.\<close>

definition deb64 :: "char \<Rightarrow> int option" where
  "deb64 c =
    (if uchar c < 43 \<or> 122 < uchar c then None
     else if deb64table ! nat (uchar c - 43) = 0 \<and> c \<noteq> CHR ''A'' then None
     else Some (deb64table ! nat (uchar c - 43)))"

definition byte :: "int \<Rightarrow> char" where
  "byte i = char_of (nat (i mod 256))"

text \<open>The last characters, when the loop ended at an equals sign.\<close>

definition decode_end :: "int \<Rightarrow> nat \<Rightarrow> char list" where
  "decode_end bits char_count =
    (if char_count = 2 then [byte (drop_bit 10 bits)]
     else if char_count = 3 then [byte (drop_bit 16 bits), byte (drop_bit 8 bits AND 0xff)]
     else [])"

fun decode_loop :: "int \<Rightarrow> nat \<Rightarrow> cstring \<Rightarrow> char list" where
  "decode_loop bits char_count [] = []"
| "decode_loop bits char_count (c # src) =
    (if c = CHR ''='' then decode_end bits char_count
     else
       case deb64 c of
         None \<Rightarrow> decode_loop bits char_count src
       | Some v \<Rightarrow>
           let bits = bits + v
           in if char_count + 1 = 4
              then byte (drop_bit 16 bits) # byte (drop_bit 8 bits AND 0xff) # byte (bits AND 0xff) # decode_loop 0 0 src
              else decode_loop (push_bit 6 bits) (char_count + 1) src)"

definition base64_decode :: "cstring \<Rightarrow> char list" where
  "base64_decode src = decode_loop 0 0 src"

text \<open>
  The functions that allocate: the contents of the buffer, cleared before, and the length; \<open>None\<close> stands for a
  null pointer.  A length below 0 asks for \<open>strlen\<close>.
\<close>

definition given_len :: "cstring \<Rightarrow> int \<Rightarrow> nat" where
  "given_len src slen = (if slen < 0 then length (takeWhile (\<lambda>c. uchar c \<noteq> 0) src) else nat slen)"

definition base64_encode_new :: "cstring option \<Rightarrow> int \<Rightarrow> cstring option \<times> nat" where
  "base64_encode_new src slen =
    (case src of
       None \<Rightarrow> (None, 0)
     | Some s \<Rightarrow>
         let n = given_len s slen; e = base64_encode (take n s)
         in (Some (e @ replicate (BASE64_NEEDED n - length e) CHR 0x00), base64_encoded_len n))"

definition base64_decode_new :: "cstring option \<Rightarrow> int \<Rightarrow> cstring option \<times> nat" where
  "base64_decode_new src slen =
    (case src of
       None \<Rightarrow> (None, 0)
     | Some s \<Rightarrow>
         let n = given_len s slen; d = base64_decode (take n s)
         in (Some (d @ replicate (BASE64DECODE_NEEDED n - length d) CHR 0x00), length d))"

subsection \<open>The six bit groups\<close>

lemma uchar_less: "uchar c < 256"
  using nat_of_char_less_256 [of c] by (simp add: uchar_def)

lemma byte_uchar [simp]: "byte (uchar c) = c"
  by (simp add: byte_def uchar_def)

lemma byte_mod [simp]: "byte (i mod 256) = byte i"
  by (simp add: byte_def)

text \<open>The groups of three bytes by arithmetic.\<close>

definition group0 :: "int \<Rightarrow> int" where "group0 a = a div 4"
definition group1 :: "int \<Rightarrow> int \<Rightarrow> int" where "group1 a b = a mod 4 * 16 + b div 16"
definition group2 :: "int \<Rightarrow> int \<Rightarrow> int" where "group2 b c = b mod 16 * 4 + c div 64"
definition group3 :: "int \<Rightarrow> int" where "group3 c = c mod 64"

lemma or_is_add: "push_bit n x OR take_bit n y = push_bit n x + take_bit n (y :: int)"
  by (subst disjunctive_add) (auto simp: bit_push_bit_iff bit_take_bit_iff)

lemma group_bits:
  assumes "0 \<le> a" "a < 256" "0 \<le> b" "b < 256" "0 \<le> c" "c < 256"
  shows "drop_bit 2 a = group0 a" "push_bit 4 (a AND 3) OR drop_bit 4 (b AND 0xF0) = group1 a b"
    "push_bit 2 (b AND 0xF) OR drop_bit 6 (c AND 0xC0) = group2 b c" "c AND 0x3F = group3 c"
    "push_bit 4 (a AND 3) OR 0 = group1 a 0" "push_bit 2 (b AND 0xF) OR 0 = group2 b 0"
proof -
  have m: "a AND 3 = take_bit 2 a" "b AND 0xF = take_bit 4 b" "c AND 0x3F = take_bit 6 c"
    by (simp_all add: take_bit_eq_mask mask_eq_exp_minus_1)
  have d: "drop_bit 4 (b AND 0xF0) = take_bit 4 (drop_bit 4 b)" "drop_bit 6 (c AND 0xC0) = take_bit 2 (drop_bit 6 c)"
    by (simp_all add: take_bit_eq_mask mask_eq_exp_minus_1 drop_bit_and)
  have t: "take_bit 4 (drop_bit 4 b) = b div 16" "take_bit 2 (drop_bit 6 c) = c div 64"
    using assms by (simp_all add: take_bit_eq_mod drop_bit_eq_div)
  show "drop_bit 2 a = group0 a" "c AND 0x3F = group3 c" "push_bit 4 (a AND 3) OR 0 = group1 a 0" "push_bit 2 (b AND 0xF) OR 0 = group2 b 0"
    unfolding m by (simp_all add: group0_def group1_def group2_def group3_def drop_bit_eq_div take_bit_eq_mod push_bit_eq_mult)
  show "push_bit 4 (a AND 3) OR drop_bit 4 (b AND 0xF0) = group1 a b" "push_bit 2 (b AND 0xF) OR drop_bit 6 (c AND 0xC0) = group2 b c"
    unfolding m d or_is_add unfolding t by (simp_all add: group1_def group2_def take_bit_eq_mod push_bit_eq_mult)
qed

lemma group_bounds:
  assumes "0 \<le> a" "a < 256" "0 \<le> b" "b < 256" "0 \<le> c" "c < 256"
  shows "0 \<le> group0 a" "group0 a < 64" "0 \<le> group1 a b" "group1 a b < 64" "0 \<le> group2 b c" "group2 b c < 64"
    "0 \<le> group3 c" "group3 c < 64"
  using assms by (auto simp: group0_def group1_def group2_def group3_def)

lemma group_join:
  "((group0 a * 64 + group1 a b) * 64 + group2 b c) * 64 + group3 c = a * 65536 + b * 256 + c"
  unfolding group0_def group1_def group2_def group3_def by presburger

subsection \<open>Round trip\<close>

lemma b64table_length: "length b64table = 64" "length b64urltable = 64"
  by code_simp+

lemma deb64table_eq:
  "deb64table =
     [62, 0, 0, 0, 63, 52, 53, 54, 55, 56, 57, 58, 59, 60, 61, 0, 0, 0, 0, 0, 0, 0, 0, 1, 2, 3, 4, 5, 6, 7, 8, 9,
      10, 11, 12, 13, 14, 15, 16, 17, 18, 19, 20, 21, 22, 23, 24, 25, 0, 0, 0, 0, 0, 0, 26, 27, 28, 29, 30, 31, 32,
      33, 34, 35, 36, 37, 38, 39, 40, 41, 42, 43, 44, 45, 46, 47, 48, 49, 50, 51]"
  by code_simp

lemma deb64_table:
  assumes "0 \<le> i" "i < 64"
  shows "deb64 (b64table ! nat i) = Some i \<and> b64table ! nat i \<noteq> CHR ''=''"
proof -
  have "list_all (\<lambda>(c, i). deb64 c = Some i \<and> c \<noteq> CHR ''='') (zip b64table (map int [0..<64]))"
    unfolding deb64_def deb64table_eq by code_simp
  then have "\<forall>j<64. deb64 (b64table ! j) = Some (int j) \<and> b64table ! j \<noteq> CHR ''=''"
    using b64table_length by (simp add: list_all_length)
  then show ?thesis using assms by (auto dest!: spec [of _ "nat i"])
qed

lemma decode_step:
  assumes "0 \<le> i" "i < 64"
  shows "decode_loop bits k (b64table ! nat i # src) =
    (if k + 1 = 4
     then byte (drop_bit 16 (bits + i)) # byte (drop_bit 8 (bits + i) AND 0xff) # byte ((bits + i) AND 0xff) # decode_loop 0 0 src
     else decode_loop (push_bit 6 (bits + i)) (k + 1) src)"
  using deb64_table [OF assms] by (simp add: Let_def)

lemma and_byte: "i AND 0xff = i mod (256 :: int)"
  by (simp add: take_bit_eq_mod [of 8, simplified, symmetric] take_bit_eq_mask mask_eq_exp_minus_1)

lemma split_bytes:
  assumes "0 \<le> b" "b < 256" "0 \<le> c" "c < (256 :: int)"
  shows "drop_bit 16 (a * 65536 + b * 256 + c) = a" "drop_bit 8 (a * 65536 + b * 256 + c) mod 256 = b" "(a * 65536 + b * 256 + c) mod 256 = c"
proof -
  have "(b * 256 + c + a * 65536) div 65536 = a + (b * 256 + c) div 65536" by (rule div_mult_self1) simp
  then show "drop_bit 16 (a * 65536 + b * 256 + c) = a" using assms by (simp add: drop_bit_eq_div add.commute add.assoc)
  have eq: "a * 65536 + b * 256 + c = c + (a * 256 + b) * 256" by simp
  have "(c + (a * 256 + b) * 256) div 256 = a * 256 + b + c div 256" by (rule div_mult_self1) simp
  then have "drop_bit 8 (a * 65536 + b * 256 + c) = a * 256 + b" unfolding eq using assms by (simp add: drop_bit_eq_div)
  then show "drop_bit 8 (a * 65536 + b * 256 + c) mod 256 = b" using assms by simp
  have "(c + (a * 256 + b) * 256) mod 256 = c mod 256" by (rule mod_mult_self1)
  then show "(a * 65536 + b * 256 + c) mod 256 = c" unfolding eq using assms by simp
qed

lemma decode_triplet:
  "decode_loop 0 0 (base64_encode_triplet b64table [a, b, c] @ src) = a # b # c # decode_loop 0 0 src"
proof -
  note u = uchar_nonneg uchar_less
  have g: "push_bit 6 (push_bit 6 (push_bit 6 (group0 (uchar a)) + group1 (uchar a) (uchar b)) + group2 (uchar b) (uchar c)) + group3 (uchar c) =
      uchar a * 65536 + uchar b * 256 + uchar c"
    using group_join [of "uchar a" "uchar b" "uchar c"] by (simp add: push_bit_eq_mult)
  have enc: "base64_encode_triplet b64table [a, b, c] =
      [b64table ! nat (group0 (uchar a)), b64table ! nat (group1 (uchar a) (uchar b)), b64table ! nat (group2 (uchar b) (uchar c)),
       b64table ! nat (group3 (uchar c))]"
    using group_bits [of "uchar a" "uchar b" "uchar c", OF u u u] by simp
  show ?thesis
    unfolding enc
    using group_bounds [of "uchar a" "uchar b" "uchar c", OF u u u] split_bytes [of "uchar b" "uchar c" "uchar a", OF u u]
    by (simp add: decode_step g and_byte del: decode_loop.simps(2))
qed

lemma decode_tail:
  "decode_loop 0 0 (base64_encode_triplet b64table [a]) = [a]" "decode_loop 0 0 (base64_encode_triplet b64table [a, b]) = [a, b]"
proof -
  note u = uchar_nonneg uchar_less
  have z: "(0 :: int) \<le> 0" "(0 :: int) < 256" by simp_all
  have stop: "decode_loop bits k (CHR ''='' # src) = decode_end bits k" for bits k src by simp
  have enc: "base64_encode_triplet b64table [a] = [b64table ! nat (group0 (uchar a)), b64table ! nat (group1 (uchar a) 0), CHR ''='', CHR ''='']"
    "base64_encode_triplet b64table [a, b] =
      [b64table ! nat (group0 (uchar a)), b64table ! nat (group1 (uchar a) (uchar b)), b64table ! nat (group2 (uchar b) 0), CHR ''='']"
    using group_bits [of "uchar a" "uchar b" "uchar b", OF u u u] by simp_all
  have "drop_bit 10 (push_bit 6 (push_bit 6 (group0 (uchar a)) + group1 (uchar a) 0)) = uchar a"
    by (simp add: drop_bit_eq_div push_bit_eq_mult group0_def group1_def)
  then show "decode_loop 0 0 (base64_encode_triplet b64table [a]) = [a]"
    unfolding enc using group_bounds [of "uchar a" 0 0, OF u z z] by (simp add: decode_step stop decode_end_def del: decode_loop.simps(2))
  have g: "push_bit 6 (push_bit 6 (push_bit 6 (group0 (uchar a)) + group1 (uchar a) (uchar b)) + group2 (uchar b) 0) =
      uchar a * 65536 + uchar b * 256 + 0"
    using group_join [of "uchar a" "uchar b" 0] by (simp add: push_bit_eq_mult group3_def)
  show "decode_loop 0 0 (base64_encode_triplet b64table [a, b]) = [a, b]"
    unfolding enc using group_bounds [of "uchar a" "uchar b" 0, OF u u z] split_bytes [of "uchar b" 0 "uchar a", OF u z]
    by (simp add: decode_step stop g decode_end_def and_byte del: decode_loop.simps(2))
qed

lemma base64_decode_encode: "base64_decode (base64_encode s) = s"
proof -
  have "decode_loop 0 0 (base64_encode_table b64table s) = s"
    by (induction b64table s rule: base64_encode_table.induct)
      (simp_all add: decode_triplet decode_tail del: base64_encode_triplet.simps(1-3))
  then show ?thesis by (simp add: base64_decode_def base64_encode_def)
qed

lemma encode_table_length: "length (base64_encode_table table s) = base64_encoded_len (length s)"
proof (induction table s rule: base64_encode_table.induct)
  case (1 table a b c src)
  have "(length (a # b # c # src) + 2) div 3 = (length src + 2) div 3 + 1" by simp
  then show ?case using 1 by (simp add: base64_encoded_len_def)
qed (simp_all add: base64_encoded_len_def)

lemma triplet_chars: "set (base64_encode_triplet table s) \<subseteq> insert (CHR ''='') (set table)" if "length table = 64"
proof -
  note u = uchar_nonneg uchar_less
  have "table ! nat i \<in> set table" if "0 \<le> i" "i < 64" for i using that \<open>length table = 64\<close> by simp
  then show ?thesis
    using group_bits [OF u u u] group_bounds [OF u u u] group_bounds [of _ 0 0, OF u] group_bounds [of 0 _ 0, OF _ _ u]
    by (cases "(table, s)" rule: base64_encode_triplet.cases) (simp_all del: nth_mem)
qed

lemma encode_table_chars:
  "length table = 64 \<Longrightarrow> set (base64_encode_table table s) \<subseteq> insert (CHR ''='') (set table)"
  by (induction table s rule: base64_encode_table.induct) (simp_all add: triplet_chars del: base64_encode_triplet.simps)

subsection \<open>Bounds of the decoder\<close>

definition decode_bound :: "nat \<Rightarrow> nat" where
  "decode_bound n = n div 4 * 3 + (if n mod 4 = 3 then 1 else 0)"

lemma decode_bound_mono: "decode_bound n \<le> decode_bound (Suc n)"
  unfolding decode_bound_def by (simp add: div_Suc mod_Suc)

lemma decode_bound_least: "3 \<le> n \<Longrightarrow> 1 \<le> decode_bound n" "4 \<le> n \<Longrightarrow> 2 \<le> decode_bound n"
  unfolding decode_bound_def by presburger+

lemma decode_loop_bound: "k < 4 \<Longrightarrow> length (decode_loop bits k src) \<le> decode_bound (k + length src)"
proof (induction bits k src rule: decode_loop.induct)
  case (2 bits k c src)
  consider (stop) "c = CHR ''=''" | (skip) "c \<noteq> CHR ''=''" "deb64 c = None" | (char) v where "c \<noteq> CHR ''=''" "deb64 c = Some v" by blast
  then show ?case
  proof cases
    case stop
    then show ?thesis using decode_bound_least [of "k + Suc (length src)"] by (auto simp: decode_end_def)
  next
    case skip
    then show ?thesis using 2 decode_bound_mono [of "k + length src"] by simp
  next
    case char
    show ?thesis
    proof (cases "k + 1 = 4")
      case True
      then have "length (decode_loop bits k (c # src)) = 3 + length (decode_loop 0 0 src)" using char by (simp add: Let_def)
      also have "length (decode_loop 0 0 src) \<le> decode_bound (length src)" using "2.IH"(2) [OF char(1,2) refl True] by simp
      also have "3 + decode_bound (length src) = decode_bound (4 + length src)"
        using div_add_self1 [of 4 "length src"] by (simp add: decode_bound_def)
      also have "4 + length src = k + length (c # src)" using True by simp
      finally show ?thesis by simp
    next
      case False
      then show ?thesis using "2.IH"(3) [OF char(1,2) refl False] char "2.prems" by (simp add: Let_def)
    qed
  qed
qed simp

lemma base64_decode_fits: "length (base64_decode src) \<le> BASE64DECODE_NEEDED (length src)"
  using decode_loop_bound [of 0 0 src] by (simp add: base64_decode_def BASE64DECODE_NEEDED_def decode_bound_def split: if_splits)

subsection \<open>Properties\<close>

text \<open>
  C38: base64 text has the length \<open>base64_encode\<close> returns and fits the buffer of \<open>BASE64_NEEDED\<close>, consists of characters
  of the table and equals signs, and decodes to the bytes it was made from.  Whatever its input, the decoder writes at
  most \<open>BASE64DECODE_NEEDED\<close> bytes, the size of the buffer \<open>base64_decode_new\<close> allocates; but there is not always room for
  the terminating NUL byte that size is said to include: text of a length of the form 4 n + 3 can fill the buffer.
\<close>

theorem base64_roundtrip:
  "base64_decode (base64_encode s) = s \<and> length (base64_encode s) = base64_encoded_len (length s) \<and>
   length (base64_encode s) < BASE64_NEEDED (length s) \<and> set (base64_encode s) \<subseteq> insert (CHR ''='') (set b64table) \<and>
   set (base64url_encode s) \<subseteq> insert (CHR ''='') (set b64urltable) \<and>
   length (base64_decode src) \<le> BASE64DECODE_NEEDED (length src) \<and>
   base64_decode_new (Some ''QUJDQQ='') (-1) = (Some ''ABCA'', 4) \<and> BASE64DECODE_NEEDED (length ''QUJDQQ='') = 4"
proof -
  have "base64_decode_new (Some ''QUJDQQ='') (-1) = (Some ''ABCA'', 4)" "BASE64DECODE_NEEDED (length ''QUJDQQ='') = 4" by code_simp+
  then show ?thesis
    using b64table_length base64_decode_encode [of s] encode_table_chars [of b64table s] encode_table_chars [of b64urltable s]
      base64_decode_fits [of src]
    by (simp add: encode_table_length base64_encode_def base64url_encode_def base64_encoded_len_def BASE64_NEEDED_def)
qed

end
