(* ===== verification/Url.thy ===== *)
theory Url
  imports Prelude
begin

text \<open>
  URLs, \<open>src/util/lib/url.c\<close>: percent encoding, the decoder that works in place, and the split of a URL into
  its parts by the groups of a regular expression match.  Characters are signed, as on the platforms the
  repository is built for.
\<close>

unbundle bit_operations_syntax

subsection \<open>Encoding\<close>

text \<open>The digit of \<open>%02X\<close>.\<close>

definition hex_upper :: "int \<Rightarrow> char" where
  "hex_upper d = (if d < 10 then char_of (48 + nat d) else char_of (55 + nat d))"

definition percent :: "char \<Rightarrow> cstring" where
  "percent c = [CHR ''%'', hex_upper (uchar c div 16), hex_upper (uchar c mod 16)]"

text \<open>The characters of the \<open>switch\<close> in \<open>url_encode\<close>; 39 is the apostrophe.\<close>

definition url_reserved :: cstring where
  "url_reserved = '' ;/?:@&=+$,<>#%'' @ [CHR 0x22] @ ''{}|'' @ [CHR 0x5C] @ ''^[]`'' @ [CHR 0x27] @ ''!''"

definition url_encode_char :: "char \<Rightarrow> cstring" where
  "url_encode_char c =
    (if 0x7F \<le> uchar c \<or> uchar c < 0x20 then percent c
     else if c \<in> set url_reserved then percent c
     else [c])"

definition url_encode :: "cstring \<Rightarrow> char list \<Rightarrow> cstring" where
  "url_encode dst str = dst @ concat (map url_encode_char str)"

definition post_reserved :: cstring where
  "post_reserved = '' ?&=+#%'' @ [CHR 0x7F]"

definition post_encode_char :: "char \<Rightarrow> cstring" where
  "post_encode_char c =
    (if 0x80 \<le> uchar c \<or> uchar c < 0x20 then percent c
     else if c \<in> set post_reserved then percent c
     else [c])"

definition url_encode_postdata :: "cstring \<Rightarrow> char list \<Rightarrow> cstring" where
  "url_encode_postdata dst str = dst @ concat (map post_encode_char str)"

subsection \<open>Decoding\<close>

definition isxdigit :: "char \<Rightarrow> bool" where
  "isxdigit c \<longleftrightarrow> 48 \<le> uchar c \<and> uchar c \<le> 57 \<or> 65 \<le> uchar c \<and> uchar c \<le> 70 \<or> 97 \<le> uchar c \<and> uchar c \<le> 102"

definition hex_digit_value :: "char \<Rightarrow> int" where
  "hex_digit_value c =
    (if uchar c \<le> 57 then uchar c - 48 else if uchar c \<le> 70 then uchar c - 55 else uchar c - 87)"

text \<open>What the check of the encoding knows: whether all was UTF-8 so far, the bytes still to come, the least code point, the code point.\<close>

record utf8_check =
  is_utf8 :: bool
  trailing :: int
  minuch :: int
  uch :: int

definition utf8_start :: utf8_check where
  "utf8_start = \<lparr>is_utf8 = True, trailing = 0, minuch = 0, uch = 0\<rparr>"

definition utf8_step :: "char \<Rightarrow> utf8_check \<Rightarrow> utf8_check" where
  "utf8_step c u =
    (let b = uchar c
     in if \<not> is_utf8 u then u
        else if b AND 0x80 = 0 then (if trailing u > 0 then u\<lparr>is_utf8 := False\<rparr> else u)
        else if b AND 0xC0 = 0x80 then
          let u = u\<lparr>uch := push_bit 6 (uch u) OR (b AND 0x3F), trailing := trailing u - 1\<rparr>
          in if trailing u < 0 then u\<lparr>is_utf8 := False\<rparr>
             else if trailing u = 0 \<and> uch u < minuch u then u\<lparr>is_utf8 := False\<rparr>
             else u
        else if trailing u > 0 then u\<lparr>is_utf8 := False\<rparr>
        else if b AND 0xE0 = 0xC0 then u\<lparr>trailing := 1, minuch := 0x80, uch := b AND 0x1F\<rparr>
        else if b AND 0xF0 = 0xE0 then u\<lparr>trailing := 2, minuch := 0x800, uch := b AND 0x1F\<rparr>
        else if b AND 0xF8 = 0xF0 then u\<lparr>trailing := 3, minuch := 0x10000, uch := b AND 0x1F\<rparr>
        else u\<lparr>is_utf8 := False\<rparr>)"

text \<open>A character from the two digits behind a percent sign; control characters are replaced unless \<open>unsafe\<close>.\<close>

definition decoded_char :: "bool \<Rightarrow> char \<Rightarrow> char \<Rightarrow> char" where
  "decoded_char unsafe h l =
    (let c = char_of (nat ((hex_digit_value h * 16 + hex_digit_value l) mod 256))
     in if unsafe then c
        else if uchar c = 9 then CHR '' '' else if uchar c < 32 then CHR ''?'' else c)"

text \<open>
  The loop: \<open>done\<close> is the decoded text behind \<open>ptr\<close>, \<open>left\<close> the distance to \<open>end\<close>.  The result is the
  decoded text, the rest of the buffer and the check.
\<close>

function decode_from ::
  "cstring option \<Rightarrow> bool \<Rightarrow> cstring \<Rightarrow> cstring \<Rightarrow> int \<Rightarrow> utf8_check \<Rightarrow> cstring \<times> cstring \<times> utf8_check" where
  "decode_from stopchars unsafe acc str left u =
    (case str of
       [] \<Rightarrow> (acc, [], u)
     | c # rest \<Rightarrow>
         if left \<le> 0 \<or> (case stopchars of None \<Rightarrow> False | Some stop \<Rightarrow> c \<in> set stop) then (acc, str, u)
         else
           (case rest of
             h # l # rest' \<Rightarrow>
               if c = CHR ''%'' \<and> isxdigit h \<and> isxdigit l
               then let d = decoded_char unsafe h l in decode_from stopchars unsafe (acc @ [d]) rest' (left - 3) (utf8_step d u)
               else let d = (if c = CHR ''+'' then CHR '' '' else c) in decode_from stopchars unsafe (acc @ [d]) rest (left - 1) (utf8_step d u)
           | _ \<Rightarrow> let d = (if c = CHR ''+'' then CHR '' '' else c) in decode_from stopchars unsafe (acc @ [d]) rest (left - 1) (utf8_step d u)))"
  by pat_completeness auto
termination
  by (relation "measure (\<lambda>(stopchars, unsafe, acc, str, left, u). length str)") auto

declare decode_from.simps [simp del]

text \<open>
  \<open>url_decode\<close> on a C string: the decoded text before the returned pointer, what follows it in the buffer, and
  \<open>is_utf8\<close> as the caller finds it.
\<close>

definition url_decode :: "cstring \<Rightarrow> int \<Rightarrow> cstring option \<Rightarrow> bool \<Rightarrow> cstring \<times> cstring \<times> bool" where
  "url_decode str lim stopchars unsafe =
    (let (text, rest, u) = decode_from stopchars unsafe [] str (if 0 \<le> lim then lim else int (length str)) utf8_start
     in (text, rest, is_utf8 u \<and> \<not> trailing u > 0))"

text \<open>
  \<open>split_url\<close>: the parts from the offsets of the groups 1 to 4 that matching \<open>URL_RE\<close> gives, \<open>None\<close> when
  it does not match.  A group that took no part has the offsets -1.
\<close>

record url =
  url_protocol :: cstring
  url_host :: cstring
  url_port :: cstring
  url_path :: cstring

definition sub_bytes :: "cstring \<Rightarrow> int \<Rightarrow> int \<Rightarrow> cstring" where
  "sub_bytes s start len = take (nat len) (drop (nat start) s)"

definition split_url :: "(cstring \<Rightarrow> (nat \<Rightarrow> int \<times> int) option) \<Rightarrow> cstring \<Rightarrow> url option" where
  "split_url re_match url =
    (case re_match url of
       None \<Rightarrow> None
     | Some ov \<Rightarrow>
         let pr_len = snd (ov 1) - fst (ov 1);
             host_len = snd (ov 2) - fst (ov 2);
             port_len = snd (ov 3) - fst (ov 3);
             path_len = snd (ov 4) - fst (ov 4);
             brackets = host_len > 0 \<and> url ! nat (fst (ov 2)) = CHR ''['';
             host_len = (if brackets then host_len - 2 else host_len);
             port_len = (if port_len > 0 then port_len - 1 else port_len)
         in Some \<lparr>url_protocol = sub_bytes url (fst (ov 1)) pr_len,
                  url_host = sub_bytes url (fst (ov 2) + (if brackets then 1 else 0)) host_len,
                  url_port = sub_bytes url (fst (ov 3) + 1) port_len,
                  url_path = sub_bytes url (fst (ov 4)) path_len\<rparr>)"

subsection \<open>Decoding what was encoded\<close>

lemma hex_upper_value: "0 \<le> d \<Longrightarrow> d < 16 \<Longrightarrow> isxdigit (hex_upper d) \<and> hex_digit_value (hex_upper d) = d"
  by (auto simp: hex_upper_def isxdigit_def hex_digit_value_def uchar_def)

lemma uchar_lt: "uchar c < 256"
  using nat_of_char_less_256 [of c] by (simp add: uchar_def)

lemma decode_nil: "decode_from stopchars unsafe acc [] left u = (acc, [], u)"
  by (subst decode_from.simps) simp

lemma decode_hex:
  "0 < left \<Longrightarrow> isxdigit h \<Longrightarrow> isxdigit l \<Longrightarrow>
   decode_from None unsafe acc (CHR ''%'' # h # l # s) left u =
   decode_from None unsafe (acc @ [decoded_char unsafe h l]) s (left - 3) (utf8_step (decoded_char unsafe h l) u)"
  by (subst decode_from.simps) (simp add: Let_def)

lemma decode_plain:
  "0 < left \<Longrightarrow> c \<noteq> CHR ''%'' \<Longrightarrow> c \<noteq> CHR ''+'' \<Longrightarrow>
   decode_from None unsafe acc (c # s) left u = decode_from None unsafe (acc @ [c]) s (left - 1) (utf8_step c u)"
  by (subst decode_from.simps) (simp split: list.split)

lemma decode_percent:
  assumes "0 < left"
  shows "decode_from None True acc (percent c @ s) left u = decode_from None True (acc @ [c]) s (left - 3) (utf8_step c u)"
proof -
  have d: "0 \<le> uchar c div 16" "uchar c div 16 < 16" "0 \<le> uchar c mod 16" "uchar c mod 16 < 16"
    using uchar_lt [of c] uchar_nonneg [of c] by (simp_all add: pos_imp_zdiv_nonneg_iff del: uchar_nonneg)
  have "uchar c div 16 * 16 + uchar c mod 16 = uchar c" by simp
  then have "decoded_char True (hex_upper (uchar c div 16)) (hex_upper (uchar c mod 16)) = c"
    using d hex_upper_value uchar_lt [of c] by (simp add: decoded_char_def Let_def) (simp add: uchar_def)
  then show ?thesis
    using assms d hex_upper_value by (simp add: percent_def decode_hex)
qed

text \<open>An encoder that keeps neither percent signs nor plus signs is undone by the decoder.\<close>

lemma decode_encoded:
  assumes enc: "\<And>c. enc c = percent c \<or> enc c = [c] \<and> c \<noteq> CHR ''%'' \<and> c \<noteq> CHR ''+''"
    and left: "int (length (concat (map enc s))) \<le> left"
  shows "decode_from None True acc (concat (map enc s)) left u = (acc @ s, [], fold utf8_step s u)"
  using left
proof (induction s arbitrary: acc left u)
  case Nil
  then show ?case by (simp add: decode_nil)
next
  case (Cons c s)
  from enc [of c] show ?case
  proof
    assume p: "enc c = percent c"
    then have "0 < left" "int (length (concat (map enc s))) \<le> left - 3" using Cons.prems by (auto simp: percent_def)
    then show ?thesis using Cons.IH p by (simp add: decode_percent)
  next
    assume p: "enc c = [c] \<and> c \<noteq> CHR ''%'' \<and> c \<noteq> CHR ''+''"
    then have "0 < left" "int (length (concat (map enc s))) \<le> left - 1" using Cons.prems by auto
    then show ?thesis using Cons.IH p by (simp add: decode_plain)
  qed
qed

subsection \<open>The check of the encoding\<close>

text \<open>
  The sequences the check accepts: those of two and three bytes only when their code point is not one that a shorter
  sequence has, those of four bytes in any case.
\<close>

definition continues :: "char \<Rightarrow> bool" where
  "continues c \<longleftrightarrow> 0x80 \<le> uchar c \<and> uchar c < 0xC0"

fun utf8_lenient :: "char list \<Rightarrow> bool" where
  "utf8_lenient [] = True"
| "utf8_lenient (b # s) =
    (if uchar b < 0x80 then utf8_lenient s
     else if uchar b < 0xC0 then False
     else if uchar b < 0xE0 then
       (case s of c # s' \<Rightarrow> continues c \<and> 2 \<le> uchar b - 0xC0 \<and> utf8_lenient s' | _ \<Rightarrow> False)
     else if uchar b < 0xF0 then
       (case s of c # d # s' \<Rightarrow> continues c \<and> continues d \<and> (0xE0 < uchar b \<or> 0xA0 \<le> uchar c) \<and> utf8_lenient s' | _ \<Rightarrow> False)
     else if uchar b < 0xF8 then
       (case s of c # d # e # s' \<Rightarrow> continues c \<and> continues d \<and> continues e \<and> utf8_lenient s' | _ \<Rightarrow> False)
     else False)"

lemma byte_classes:
  assumes "0 \<le> b" "b < (256 :: int)"
  shows "b AND 0x80 = 0 \<longleftrightarrow> b < 0x80" "b AND 0xC0 = 0x80 \<longleftrightarrow> 0x80 \<le> b \<and> b < 0xC0" "b AND 0xE0 = 0xC0 \<longleftrightarrow> 0xC0 \<le> b \<and> b < 0xE0"
    "b AND 0xF0 = 0xE0 \<longleftrightarrow> 0xE0 \<le> b \<and> b < 0xF0" "b AND 0xF8 = 0xF0 \<longleftrightarrow> 0xF0 \<le> b \<and> b < 0xF8"
    "b AND 0x3F = b mod 64" "b AND 0x1F = b mod 32"
proof -
  have "list_all (\<lambda>b :: int. (b AND 0x80 = 0 \<longleftrightarrow> b < 0x80) \<and> (b AND 0xC0 = 0x80 \<longleftrightarrow> 0x80 \<le> b \<and> b < 0xC0) \<and>
      (b AND 0xE0 = 0xC0 \<longleftrightarrow> 0xC0 \<le> b \<and> b < 0xE0) \<and> (b AND 0xF0 = 0xE0 \<longleftrightarrow> 0xE0 \<le> b \<and> b < 0xF0) \<and>
      (b AND 0xF8 = 0xF0 \<longleftrightarrow> 0xF0 \<le> b \<and> b < 0xF8) \<and> b AND 0x3F = b mod 64 \<and> b AND 0x1F = b mod 32) [0..255]"
    by code_simp
  then show "b AND 0x80 = 0 \<longleftrightarrow> b < 0x80" "b AND 0xC0 = 0x80 \<longleftrightarrow> 0x80 \<le> b \<and> b < 0xC0" "b AND 0xE0 = 0xC0 \<longleftrightarrow> 0xC0 \<le> b \<and> b < 0xE0"
    "b AND 0xF0 = 0xE0 \<longleftrightarrow> 0xE0 \<le> b \<and> b < 0xF0" "b AND 0xF8 = 0xF0 \<longleftrightarrow> 0xF0 \<le> b \<and> b < 0xF8"
    "b AND 0x3F = b mod 64" "b AND 0x1F = b mod 32"
    using assms by (auto simp: list_all_iff)
qed

lemma or_low: "push_bit 6 x OR (y mod 64) = x * 64 + y mod (64 :: int)"
proof -
  have "push_bit 6 x OR take_bit 6 y = push_bit 6 x + take_bit 6 y"
    by (subst disjunctive_add) (auto simp: bit_push_bit_iff bit_take_bit_iff)
  then show ?thesis by (simp add: take_bit_eq_mod push_bit_eq_mult)
qed

lemma utf8_step_arith:
  "utf8_step c u =
    (let b = uchar c
     in if \<not> is_utf8 u then u
        else if b < 0x80 then (if trailing u > 0 then u\<lparr>is_utf8 := False\<rparr> else u)
        else if b < 0xC0 then
          (let u = u\<lparr>uch := uch u * 64 + b mod 64, trailing := trailing u - 1\<rparr>
           in if trailing u < 0 then u\<lparr>is_utf8 := False\<rparr>
              else if trailing u = 0 \<and> uch u < minuch u then u\<lparr>is_utf8 := False\<rparr>
              else u)
        else if trailing u > 0 then u\<lparr>is_utf8 := False\<rparr>
        else if b < 0xE0 then u\<lparr>trailing := 1, minuch := 0x80, uch := b mod 32\<rparr>
        else if b < 0xF0 then u\<lparr>trailing := 2, minuch := 0x800, uch := b mod 32\<rparr>
        else if b < 0xF8 then u\<lparr>trailing := 3, minuch := 0x10000, uch := b mod 32\<rparr>
        else u\<lparr>is_utf8 := False\<rparr>)"
  unfolding utf8_step_def Let_def
  by (simp add: byte_classes [OF uchar_nonneg uchar_lt] or_low)

lemma utf8_rejected: "\<not> is_utf8 u \<Longrightarrow> fold utf8_step s u = u"
  by (induction s) (simp_all add: utf8_step_arith)

definition accepts :: "utf8_check \<Rightarrow> bool" where
  "accepts u \<longleftrightarrow> is_utf8 u \<and> \<not> trailing u > 0"

lemma accepts_rejected: "\<not> is_utf8 u \<Longrightarrow> \<not> accepts (fold utf8_step s u)"
  by (simp add: utf8_rejected accepts_def)

text \<open>A byte within a sequence.\<close>

lemma step_within:
  assumes "is_utf8 u" "0 < trailing u"
  shows "\<not> continues c \<Longrightarrow> \<not> is_utf8 (utf8_step c u)"
    and "continues c \<Longrightarrow> 1 < trailing u \<Longrightarrow> utf8_step c u = u\<lparr>uch := uch u * 64 + uchar c mod 64, trailing := trailing u - 1\<rparr>"
    and "continues c \<Longrightarrow> trailing u = 1 \<Longrightarrow>
      (is_utf8 (utf8_step c u) \<longleftrightarrow> minuch u \<le> uch u * 64 + uchar c mod 64) \<and> trailing (utf8_step c u) = 0"
  using assms by (auto simp: utf8_step_arith continues_def Let_def)

lemma accepts_within:
  assumes "is_utf8 u" "0 < trailing u"
  shows "\<not> accepts u" "\<not> continues c \<Longrightarrow> \<not> accepts (fold utf8_step (c # s) u)"
  using assms step_within(1) [OF assms] accepts_rejected by (simp_all add: accepts_def)

text \<open>The last byte of a sequence, and the text after it.\<close>

lemma accepts_last:
  assumes "is_utf8 u" "trailing u = 1"
    and nxt: "\<And>u. is_utf8 u \<Longrightarrow> trailing u = 0 \<Longrightarrow> accepts (fold utf8_step s u) = P"
  shows "accepts (fold utf8_step (c # s) u) \<longleftrightarrow> continues c \<and> minuch u \<le> uch u * 64 + uchar c mod 64 \<and> P"
proof (cases "continues c \<and> minuch u \<le> uch u * 64 + uchar c mod 64")
  case True
  then show ?thesis using step_within(3) [OF assms(1), of c] assms(2) nxt by simp
next
  case False
  then show ?thesis using step_within(1,3) [OF assms(1), of c] assms(2) accepts_rejected by auto
qed

lemma high_digit: "k * 64 \<le> q * 64 + r mod 64 \<longleftrightarrow> k \<le> q" for k q r :: int
proof -
  obtain x where x: "r mod 64 = x" "0 \<le> x" "x < 64" by simp
  show ?thesis unfolding x(1) using x(2,3) by (intro iffI) linarith+
qed

lemma accepts_two:
  assumes u: "is_utf8 u" "trailing u = 0" and b: "0xC0 \<le> uchar b" "uchar b < 0xE0"
    and IH: "\<And>s u. length s < length (b # t) \<Longrightarrow> is_utf8 u \<Longrightarrow> trailing u = 0 \<Longrightarrow> accepts (fold utf8_step s u) = utf8_lenient s"
  shows "accepts (fold utf8_step (b # t) u) = utf8_lenient (b # t)"
proof -
  let ?u = "u\<lparr>trailing := 1, minuch := 0x80, uch := uchar b mod 32\<rparr>"
  have step: "utf8_step b u = ?u" using u b by (simp add: utf8_step_arith)
  have m: "uchar b mod 32 = uchar b - 0xC0" using b by presburger
  show ?thesis
  proof (cases t)
    case Nil
    then show ?thesis using b step accepts_within(1) [of ?u] u by simp
  next
    case (Cons c s)
    have "accepts (fold utf8_step (c # s) ?u) \<longleftrightarrow> continues c \<and> 0x80 \<le> (uchar b - 0xC0) * 64 + uchar c mod 64 \<and> utf8_lenient s"
      using accepts_last [of ?u s "utf8_lenient s" c] IH [of s] u Cons m by simp
    moreover have "0x80 \<le> (uchar b - 0xC0) * 64 + uchar c mod 64 \<longleftrightarrow> 2 \<le> uchar b - 0xC0"
      using high_digit [of 2 "uchar b - 0xC0" "uchar c"] by simp
    ultimately show ?thesis using Cons step b by simp
  qed
qed

lemma accepts_three:
  assumes u: "is_utf8 u" "trailing u = 0" and b: "0xE0 \<le> uchar b" "uchar b < 0xF0"
    and IH: "\<And>s u. length s < length (b # t) \<Longrightarrow> is_utf8 u \<Longrightarrow> trailing u = 0 \<Longrightarrow> accepts (fold utf8_step s u) = utf8_lenient s"
  shows "accepts (fold utf8_step (b # t) u) = utf8_lenient (b # t)"
proof -
  let ?u = "u\<lparr>trailing := 2, minuch := 0x800, uch := uchar b mod 32\<rparr>"
  have step: "utf8_step b u = ?u" using u b by (simp add: utf8_step_arith)
  have m: "uchar b mod 32 = uchar b - 0xE0" using b by presburger
  have short: "\<not> accepts ?u" "\<And>c s. \<not> continues c \<Longrightarrow> \<not> accepts (fold utf8_step (c # s) ?u)"
    using accepts_within [of ?u] u by simp_all
  let ?v = "\<lambda>c. ?u\<lparr>uch := (uchar b - 0xE0) * 64 + uchar c mod 64, trailing := 1\<rparr>"
  have v: "utf8_step c ?u = ?v c" if "continues c" for c using step_within(2) [of ?u c] that u m by simp
  consider "t = []" | c where "t = [c]" | c d s where "t = c # d # s" by (metis list.exhaust)
  then show ?thesis
  proof cases
    case 1
    then show ?thesis using b step short(1) by simp
  next
    case 2
    then show ?thesis using b step v [of c] short(2) [of c "[]"] accepts_within(1) [of "?v c"] u by (cases "continues c") simp_all
  next
    case 3
    have "accepts (fold utf8_step (d # s) (?v c)) \<longleftrightarrow>
        continues d \<and> 0x800 \<le> ((uchar b - 0xE0) * 64 + uchar c mod 64) * 64 + uchar d mod 64 \<and> utf8_lenient s"
      using accepts_last [of "?v c" s "utf8_lenient s" d] IH [of s] u 3 by simp
    moreover have "0x800 \<le> ((uchar b - 0xE0) * 64 + uchar c mod 64) * 64 + uchar d mod 64 \<longleftrightarrow> 0xE0 < uchar b \<or> 0xA0 \<le> uchar c"
      if c: "continues c"
    proof -
      have "uchar c mod 64 = uchar c - 128" using c unfolding continues_def by presburger
      moreover have "32 \<le> (uchar b - 0xE0) * 64 + (uchar c - 128) \<longleftrightarrow> 0xE0 < uchar b \<or> 0xA0 \<le> uchar c"
        using b c unfolding continues_def by presburger
      ultimately show ?thesis using high_digit [of 32 "(uchar b - 0xE0) * 64 + uchar c mod 64" "uchar d"] by simp
    qed
    ultimately show ?thesis using 3 step b v [of c] short(2) [of c "d # s"] by (cases "continues c") auto
  qed
qed

lemma accepts_four:
  assumes u: "is_utf8 u" "trailing u = 0" and b: "0xF0 \<le> uchar b" "uchar b < 0xF8"
    and IH: "\<And>s u. length s < length (b # t) \<Longrightarrow> is_utf8 u \<Longrightarrow> trailing u = 0 \<Longrightarrow> accepts (fold utf8_step s u) = utf8_lenient s"
  shows "accepts (fold utf8_step (b # t) u) = utf8_lenient (b # t)"
proof -
  let ?u = "u\<lparr>trailing := 3, minuch := 0x10000, uch := uchar b mod 32\<rparr>"
  have step: "utf8_step b u = ?u" using u b by (simp add: utf8_step_arith)
  have m: "16 \<le> uchar b mod 32" using b by presburger
  let ?v = "\<lambda>c. ?u\<lparr>uch := uchar b mod 32 * 64 + uchar c mod 64, trailing := 2\<rparr>"
  let ?w = "\<lambda>c d. ?u\<lparr>uch := (uchar b mod 32 * 64 + uchar c mod 64) * 64 + uchar d mod 64, trailing := 1\<rparr>"
  have short: "\<not> accepts ?u" "\<And>c s. \<not> continues c \<Longrightarrow> \<not> accepts (fold utf8_step (c # s) ?u)"
    "\<And>c. \<not> accepts (?v c)" "\<And>c d s. \<not> continues d \<Longrightarrow> \<not> accepts (fold utf8_step (d # s) (?v c))" "\<And>c d. \<not> accepts (?w c d)"
    using accepts_within [of ?u] accepts_within [of "?v _"] accepts_within [of "?w _ _"] u by simp_all
  have v: "utf8_step c ?u = ?v c" if "continues c" for c using step_within(2) [of ?u c] that u by simp
  have w: "utf8_step d (?v c) = ?w c d" if "continues d" for c d using step_within(2) [of "?v c" d] that u by simp
  consider "t = []" | c where "t = [c]" | c d where "t = [c, d]" | c d e s where "t = c # d # e # s" by (metis list.exhaust)
  then show ?thesis
  proof cases
    case 1
    then show ?thesis using b step short(1) by simp
  next
    case 2
    then show ?thesis using b step v [of c] short(2) [of c "[]"] short(3) [of c] by (cases "continues c") simp_all
  next
    case 3
    then show ?thesis
      using b step v [of c] w [of d c] short(2) [of c "[d]"] short(4) [of d "[]" c] short(5) [of c d]
      by (cases "continues c"; cases "continues d") simp_all
  next
    case 4
    have r: "0 \<le> uchar c mod 64" "0 \<le> uchar d mod 64" "0 \<le> uchar e mod 64" by simp_all
    have "accepts (fold utf8_step (e # s) (?w c d)) \<longleftrightarrow> continues e \<and> utf8_lenient s"
      using accepts_last [of "?w c d" s "utf8_lenient s" e] IH [of s] u 4 m r by simp
    then show ?thesis
      using 4 b step v [of c] w [of d c] short(2) [of c "d # e # s"] short(4) [of d "e # s" c]
      by (cases "continues c"; cases "continues d") simp_all
  qed
qed

lemma utf8_check_lenient: "is_utf8 u \<Longrightarrow> trailing u = 0 \<Longrightarrow> accepts (fold utf8_step s u) = utf8_lenient s"
proof (induction s arbitrary: u rule: length_induct)
  case (1 s)
  have IH: "length s' < length s \<Longrightarrow> is_utf8 u \<Longrightarrow> trailing u = 0 \<Longrightarrow> accepts (fold utf8_step s' u) = utf8_lenient s'" for s' u
    using 1 by blast
  show ?case
  proof (cases s)
    case Nil
    then show ?thesis using "1.prems" by (simp add: accepts_def)
  next
    case (Cons b t)
    consider (ascii) "uchar b < 0x80" | (two) "0xC0 \<le> uchar b" "uchar b < 0xE0" | (three) "0xE0 \<le> uchar b" "uchar b < 0xF0"
      | (four) "0xF0 \<le> uchar b" "uchar b < 0xF8" | (bad) "0x80 \<le> uchar b \<and> uchar b < 0xC0 \<or> 0xF8 \<le> uchar b" by linarith
    then show ?thesis
    proof cases
      case ascii
      then have "utf8_step b u = u" using "1.prems" by (simp add: utf8_step_arith)
      then show ?thesis using IH [of t u] "1.prems" ascii Cons by simp
    next
      case bad
      then have "\<not> is_utf8 (utf8_step b u)" using "1.prems" by (auto simp: utf8_step_arith Let_def)
      then show ?thesis using accepts_rejected [of "utf8_step b u" t] bad Cons by auto
    qed (use "1.prems" IH Cons accepts_two [of u b t] accepts_three [of u b t] accepts_four [of u b t] in blast)+
  qed
qed

text \<open>The check runs over the decoded text.\<close>

lemma decode_from_check:
  "\<exists>t rest. decode_from stopchars unsafe acc str left u = (acc @ t, rest, fold utf8_step t u)"
proof (induction str arbitrary: acc left u rule: length_induct)
  case (1 str)
  have more: "\<exists>t rest. decode_from stopchars unsafe (acc @ [d]) s l (utf8_step d u) = (acc @ t, rest, fold utf8_step t u)"
    if shorter: "length s < length str" for d s l
  proof -
    obtain t rest where "decode_from stopchars unsafe (acc @ [d]) s l (utf8_step d u) = ((acc @ [d]) @ t, rest, fold utf8_step t (utf8_step d u))"
      using 1 [rule_format, OF shorter, of "acc @ [d]" l "utf8_step d u"] by blast
    then have "decode_from stopchars unsafe (acc @ [d]) s l (utf8_step d u) = (acc @ (d # t), rest, fold utf8_step (d # t) u)" by simp
    then show ?thesis by blast
  qed
  show ?case
    by (subst decode_from.simps) (auto simp: Let_def intro!: more split: list.split)
qed

lemma url_decode_checks: "\<exists>t rest. url_decode str lim stopchars unsafe = (t, rest, accepts (fold utf8_step t utf8_start))"
  using decode_from_check [of stopchars unsafe "[]" str "if 0 \<le> lim then lim else int (length str)" utf8_start]
  by (auto simp: url_decode_def accepts_def)

lemma url_decode_concat:
  assumes "\<And>c. enc c = percent c \<or> enc c = [c] \<and> c \<noteq> CHR ''%'' \<and> c \<noteq> CHR ''+''"
  shows "url_decode (concat (map enc s)) (-1) None True = (s, [], utf8_lenient s)"
  using decode_encoded [OF assms, of s "int (length (concat (map enc s)))" "[]" utf8_start] utf8_check_lenient [of utf8_start s]
  by (simp add: url_decode_def accepts_def utf8_start_def)

subsection \<open>Properties\<close>

definition url_safe :: "char \<Rightarrow> bool" where
  "url_safe c \<longleftrightarrow> isdigit c \<or> 65 \<le> uchar c \<and> uchar c \<le> 90 \<or> 97 \<le> uchar c \<and> uchar c \<le> 122 \<or> c \<in> set ''()*-._~''"

definition printable :: cstring where
  "printable = '' !'' @ [CHR 0x22] @ ''#$%&'' @ [CHR 0x27] @ ''()*+,-./0123456789:;<=>?@ABCDEFGHIJKLMNOPQRSTUVWXYZ['' @ [CHR 0x5C] @
    '']^_`abcdefghijklmnopqrstuvwxyz{|}~''"

lemma printable_range: "map uchar printable = [32..126]"
  by (simp add: printable_def uchar_def upto_rec_numeral upto_rec1)

lemma printable_safe: "list_all (\<lambda>c. url_safe c \<or> c \<in> set url_reserved) printable"
  by (simp add: url_safe_def url_reserved_def isdigit_def uchar_def printable_def)

lemma not_reserved_safe:
  assumes "0x20 \<le> uchar c" "uchar c < 0x7F" "c \<notin> set url_reserved"
  shows "url_safe c"
proof -
  have "uchar c \<in> set (map uchar printable)" unfolding printable_range set_upto using assms(1,2) by simp
  then have "c \<in> set printable" by auto
  then show ?thesis using printable_safe assms(3) unfolding list_all_iff by blast
qed

lemma hex_upper_safe: "0 \<le> d \<Longrightarrow> d < 16 \<Longrightarrow> url_safe (hex_upper d)"
  by (auto simp: hex_upper_def url_safe_def isdigit_def uchar_def)

lemma url_encode_char_safe: "list_all (\<lambda>d. url_safe d \<or> d = CHR ''%'') (url_encode_char c)"
  using uchar_lt [of c] not_reserved_safe [of c] hex_upper_safe [of "uchar c div 16"] hex_upper_safe [of "uchar c mod 16"]
  by (auto simp: url_encode_char_def percent_def pos_imp_zdiv_nonneg_iff)

text \<open>
  C39: percent encoding is undone by \<open>url_decode\<close> with \<open>unsafe\<close> set, for all bytes and both encoders, and the text of
  \<open>url_encode\<close> consists of letters, digits, a few punctuation characters and percent signs.
\<close>

theorem url_roundtrip:
  "url_decode (url_encode [] s) (-1) None True = (s, [], utf8_lenient s) \<and>
   url_decode (url_encode_postdata [] s) (-1) None True = (s, [], utf8_lenient s) \<and>
   list_all (\<lambda>d. url_safe d \<or> d = CHR ''%'') (url_encode [] s)"
proof -
  have "url_encode_char c = percent c \<or> url_encode_char c = [c] \<and> c \<noteq> CHR ''%'' \<and> c \<noteq> CHR ''+''"
    "post_encode_char c = percent c \<or> post_encode_char c = [c] \<and> c \<noteq> CHR ''%'' \<and> c \<noteq> CHR ''+''" for c
    by (auto simp: url_encode_char_def post_encode_char_def url_reserved_def post_reserved_def)
  then show ?thesis
    using url_decode_concat [of url_encode_char s] url_decode_concat [of post_encode_char s] url_encode_char_safe
    by (auto simp: url_encode_def url_encode_postdata_def list_all_iff)
qed

text \<open>
  C40: \<open>url_decode\<close> reports UTF-8 exactly for the texts of \<open>utf8_lenient\<close>, whatever it was told to stop at: the
  shortest form is required of sequences of two and three bytes, but sequences of four bytes are all
  accepted, among them the overlong ones of every character, such as F0 80 80 AF for a slash.
\<close>

theorem url_decode_utf8:
  "snd (snd (url_decode str lim stopchars unsafe)) = utf8_lenient (fst (url_decode str lim stopchars unsafe)) \<and>
   url_decode ''%F0%80%80%AF'' (-1) None False = ([CHR 0xF0, CHR 0x80, CHR 0x80, CHR 0xAF], [], True)"
proof
  have chars: "char_of (240 :: nat) = CHR 0xF0" "char_of (128 :: nat) = CHR 0x80" "char_of (175 :: nat) = CHR 0xAF"
    by (simp_all add: char_of_def bit_iff_odd)
  show "url_decode ''%F0%80%80%AF'' (-1) None False = ([CHR 0xF0, CHR 0x80, CHR 0x80, CHR 0xAF], [], True)"
    by (simp add: url_decode_def decode_nil decode_hex isxdigit_def hex_digit_value_def decoded_char_def uchar_def utf8_start_def
      utf8_step_arith chars)
next
  obtain t rest where "url_decode str lim stopchars unsafe = (t, rest, accepts (fold utf8_step t utf8_start))"
    using url_decode_checks by blast
  then show "snd (snd (url_decode str lim stopchars unsafe)) = utf8_lenient (fst (url_decode str lim stopchars unsafe))"
    using utf8_check_lenient [of utf8_start t] by (simp add: utf8_start_def)
qed

end
