(* ===== verification/Spec2Isabelle.thy ===== *)
theory Spec2Isabelle
  imports VtreeProps VtreeShadow Stringpool Lru HashTableSpec FdPoolSafe Base64 Url
begin

text \<open>
  A verification development for the sebase libraries.
\<close>

end
